(* ===== verification/ET_Prelude.thy ===== *)
theory ET_Prelude
  imports Main "HOL-Library.Word"
begin

text \<open>
  Shared ground of the et-go development: the types that stand for Go's bytes and errors,
  the parts of Go's standard library that several packages call (\<^verbatim>\<open>errors.Is\<close>,
  \<^verbatim>\<open>io.ReadFull\<close>, \<^verbatim>\<open>encoding/binary\<close>, the integer conversions), the generic lemmas on
  lists the components share, and two locales: \<open>codec\<close>, the contract of an
  encoder and a decoder that reads one value off the front of a stream, and
  \<open>transition_system\<close>, invariants over the reachable states of a step relation.

  Go's \<^verbatim>\<open>[]byte\<close> is a list of 8-bit words. A Go \<^verbatim>\<open>int\<close> or \<^verbatim>\<open>int64\<close> that counts bytes or
  packets is an \<open>int\<close> or \<open>nat\<close> here; where a conversion narrows a value
  (\<^verbatim>\<open>int32(n)\<close>, \<^verbatim>\<open>uint32(n)\<close>, \<^verbatim>\<open>byte(n)\<close>) the wrap-around is written out.
\<close>

unbundle bit_operations_syntax

section \<open>Bytes, errors and results\<close>

type_synonym byte = "8 word"
type_synonym bytes = "byte list"

text \<open>
  Error values. A sentinel of a package is a constructor; \<open>Wrap\<close> is
  \<^verbatim>\<open>fmt.Errorf\<close> with one or more \<^verbatim>\<open>%w\<close> verbs: it keeps the literal text and the wrapped
  errors (the formatted numbers and quoted values of the text are not kept).
  \<open>ExecExitError\<close> is \<^verbatim>\<open>*exec.ExitError\<close>: the exit code and, when a signal ended the process, its
  number and description. \<open>OtherError\<close> is an error the code has no name for, such as a network
  failure.
\<close>

datatype go_error =
    EOF | ErrUnexpectedEOF | ErrShortWrite | ErrClosedPipe
  | NetErrClosed | OsErrClosed
  | ContextCanceled | DeadlineExceeded
  | ErrTooLarge | ErrMalformed | ErrShortPacket
  | ErrOpen
  | ErrVersion | ErrIntegrity | ErrReplayExceeded | ErrRejected | ErrLinkDead
  | ErrDetached | ErrStartTimeout | ErrStartRejected | ErrEnded | ExitError int
  | ErrNoCredentials | ErrInvalidConfig
  | ErrNotTerminal | ENXIO | ENOENT
  | ErrUsage | ErrHelp | ErrWaitDelay | ExecExitError int "(int \<times> string) option"
  | OtherError string
  | Wrap string "go_error list"

type_synonym 'a result = "go_error + 'a"

text \<open>\<^verbatim>\<open>errors.Is\<close>: the error itself, or any error it wraps, is the target.\<close>

fun errors_Is :: "go_error \<Rightarrow> go_error \<Rightarrow> bool" where
  "errors_Is (Wrap s es) t = (Wrap s es = t \<or> (\<exists>e \<in> set es. errors_Is e t))"
| "errors_Is e t = (e = t)"

text \<open>\<^verbatim>\<open>errors.AsType[*session.ExitError]\<close>: the first exit error in the tree, depth first.\<close>

fun errors_AsExit :: "go_error \<Rightarrow> int option"
  and errors_AsExit_list :: "go_error list \<Rightarrow> int option" where
  "errors_AsExit (ExitError n) = Some n"
| "errors_AsExit (Wrap s es) = errors_AsExit_list es"
| "errors_AsExit _ = None"
| "errors_AsExit_list [] = None"
| "errors_AsExit_list (e # es) =
     (case errors_AsExit e of Some n \<Rightarrow> Some n | None \<Rightarrow> errors_AsExit_list es)"

text \<open>\<^verbatim>\<open>errors.AsType[*exec.ExitError]\<close>, likewise.\<close>

fun errors_AsExec :: "go_error \<Rightarrow> (int \<times> (int \<times> string) option) option"
  and errors_AsExec_list :: "go_error list \<Rightarrow> (int \<times> (int \<times> string) option) option" where
  "errors_AsExec (ExecExitError n sg) = Some (n, sg)"
| "errors_AsExec (Wrap s es) = errors_AsExec_list es"
| "errors_AsExec _ = None"
| "errors_AsExec_list [] = None"
| "errors_AsExec_list (e # es) =
     (case errors_AsExec e of Some x \<Rightarrow> Some x | None \<Rightarrow> errors_AsExec_list es)"

text \<open>A structured log value of \<^verbatim>\<open>log/slog\<close>: a group of named attributes.\<close>

datatype slog_value = SlogString string | SlogInt int

type_synonym slog_group = "(string \<times> slog_value) list"

section \<open>Readers and writers\<close>

text \<open>
  A reader is the bytes it will still deliver and the error that follows them. Blocking is
  not visible: the bytes are those that arrive before the reader fails.
  \<^verbatim>\<open>io.ReadFull\<close> returns the bytes it got, an error if they are too few, and the reader
  afterwards; only a bare \<^verbatim>\<open>io.EOF\<close> after a partial read becomes
  \<^verbatim>\<open>io.ErrUnexpectedEOF\<close>.
\<close>

record reader =
  avail :: bytes
  rend :: go_error

definition io_ReadFull :: "reader \<Rightarrow> nat \<Rightarrow> bytes \<times> go_error option \<times> reader" where
  "io_ReadFull r n =
     (if n \<le> length (avail r) then (take n (avail r), None, r\<lparr>avail := drop n (avail r)\<rparr>)
      else (avail r,
            Some (if rend r = EOF \<and> avail r \<noteq> [] then ErrUnexpectedEOF else rend r),
            r\<lparr>avail := []\<rparr>))"

text \<open>
  A writer is a function from its state and the bytes of one \<^verbatim>\<open>Write\<close> call to the new state,
  the count it reports and its error. A log of the bytes taken, with a budget after which
  every write fails, is the concrete writer the witnesses use.
\<close>

type_synonym 'w writer = "'w \<Rightarrow> bytes \<Rightarrow> 'w \<times> nat \<times> go_error option"

definition log_writer :: "(bytes \<times> nat) writer" where
  "log_writer w p =
     (let n = min (length p) (snd w)
      in ((fst w @ take n p, snd w - n), n,
          if n < length p then Some (OtherError ''budget'') else None))"

section \<open>Slices, integer conversions and byte order\<close>

text \<open>\<^verbatim>\<open>xs[i:j]\<close> for \<open>i \<le> j \<le> length xs\<close>; Go panics outside that range.\<close>

definition go_slice :: "'a list \<Rightarrow> nat \<Rightarrow> nat \<Rightarrow> 'a list" where
  "go_slice xs i j = take (j - i) (drop i xs)"

definition int32 :: "int \<Rightarrow> int" where
  "int32 x = (x + 2 ^ 31) mod 2 ^ 32 - 2 ^ 31"

definition BigEndian_AppendUint32 :: "bytes \<Rightarrow> 32 word \<Rightarrow> bytes" where
  "BigEndian_AppendUint32 b v =
     b @ [ucast (drop_bit 24 v), ucast (drop_bit 16 v), ucast (drop_bit 8 v), ucast v]"

definition BigEndian_Uint32 :: "bytes \<Rightarrow> 32 word" where
  "BigEndian_Uint32 b =
     ucast (b ! 3) OR push_bit 8 (ucast (b ! 2)) OR push_bit 16 (ucast (b ! 1))
       OR push_bit 24 (ucast (b ! 0))"

definition LittleEndian_PutUint64 :: "64 word \<Rightarrow> bytes" where
  "LittleEndian_PutUint64 v =
     [ucast v, ucast (drop_bit 8 v), ucast (drop_bit 16 v), ucast (drop_bit 24 v),
      ucast (drop_bit 32 v), ucast (drop_bit 40 v), ucast (drop_bit 48 v),
      ucast (drop_bit 56 v)]"

definition LittleEndian_Uint64 :: "bytes \<Rightarrow> 64 word" where
  "LittleEndian_Uint64 b =
     ucast (b ! 0) OR push_bit 8 (ucast (b ! 1)) OR push_bit 16 (ucast (b ! 2))
       OR push_bit 24 (ucast (b ! 3)) OR push_bit 32 (ucast (b ! 4))
       OR push_bit 40 (ucast (b ! 5)) OR push_bit 48 (ucast (b ! 6))
       OR push_bit 56 (ucast (b ! 7))"

section \<open>Decimal numbers\<close>

text \<open>
  \<^verbatim>\<open>strconv.FormatInt(n, 10)\<close> (and \<^verbatim>\<open>strconv.Itoa\<close>), and \<^verbatim>\<open>strconv.Atoi\<close>: an optional sign,
  then one or more decimal digits, within the range of a 64-bit \<^verbatim>\<open>int\<close>.
\<close>

fun nat_dec :: "nat \<Rightarrow> string" where
  "nat_dec n =
     (if n < 10 then [char_of (48 + n)] else nat_dec (n div 10) @ [char_of (48 + n mod 10)])"

declare nat_dec.simps [simp del]

definition itoa :: "int \<Rightarrow> string" where
  "itoa n = (if n < 0 then CHR ''-'' # nat_dec (nat (- n)) else nat_dec (nat n))"

definition is_digit :: "char \<Rightarrow> bool" where
  "is_digit c = (48 \<le> (of_char c :: nat) \<and> (of_char c :: nat) \<le> 57)"

definition dec_value :: "string \<Rightarrow> nat" where
  "dec_value s = foldl (\<lambda>v c. 10 * v + (of_char c - 48)) 0 s"

definition atoi :: "string \<Rightarrow> int option" where
  "atoi s =
     (let neg = (s \<noteq> [] \<and> hd s = CHR ''-'');
          ds = (if s \<noteq> [] \<and> (hd s = CHR ''-'' \<or> hd s = CHR ''+'') then tl s else s);
          v = (if neg then - int (dec_value ds) else int (dec_value ds))
      in if ds \<noteq> [] \<and> list_all is_digit ds \<and> - (2 ^ 63) \<le> v \<and> v < 2 ^ 63
         then Some v else None)"

section \<open>Collections of facts\<close>

named_theorems bytes_simps "lengths and contents of encoded byte strings"
named_theorems inv_rules "preservation of component invariants"

section \<open>Errors\<close>

lemma errors_Is_refl [simp]: "errors_Is e e"
  by (cases e) auto

lemma errors_Is_wrapped: "e \<in> set es \<Longrightarrow> errors_Is e t \<Longrightarrow> errors_Is (Wrap s es) t"
  by auto

section \<open>Lists\<close>

lemma take_drop_le: "i \<le> j \<Longrightarrow> take (j - i) (drop i xs) @ drop j xs = drop i xs"
  by (metis append_take_drop_id drop_drop le_add_diff_inverse2)

lemma take_append_take_drop: "i \<le> j \<Longrightarrow> take i xs @ take (j - i) (drop i xs) = take j xs"
  by (metis le_add_diff_inverse take_add)

lemma sum_list_take_drop:
  "sum_list (map f (take n xs)) + sum_list (map f (drop n xs)) = (sum_list (map f xs) :: int)"
  by (metis append_take_drop_id map_append sum_list_append)

lemma sum_list_lengths_nonneg: "0 \<le> (\<Sum>e\<leftarrow>es. int (length e))"
  by (rule sum_list_nonneg) auto

lemma map_eq_take: "map f xs = take n (map f ys) \<Longrightarrow> inj f \<Longrightarrow> xs = take n ys"
  by (metis inj_map_eq_map take_map)

lemma list_all_take: "list_all P xs \<Longrightarrow> list_all P (take n xs)"
  by (auto simp: list_all_iff dest: in_set_takeD)

lemma list_all_drop: "list_all P xs \<Longrightarrow> list_all P (drop n xs)"
  by (auto simp: list_all_iff dest: in_set_dropD)

section \<open>Decimal round trip\<close>

lemma is_digit_char: "d < 10 \<Longrightarrow> is_digit (char_of (48 + d :: nat))"
  by (simp add: is_digit_def take_bit_nat_eq_self)

lemma of_char_digit: "d < 10 \<Longrightarrow> of_char (char_of (48 + d :: nat)) - 48 = d"
  by (simp add: take_bit_nat_eq_self)

lemma nat_dec_digits: "list_all is_digit (nat_dec n)"
proof (induction n rule: nat_dec.induct)
  case (1 n)
  then show ?case by (subst nat_dec.simps) (auto simp: is_digit_char)
qed

lemma nat_dec_nonempty: "nat_dec n \<noteq> []"
  by (subst nat_dec.simps) simp

lemma dec_value_snoc: "dec_value (s @ [c]) = 10 * dec_value s + (of_char c - 48)"
  by (simp add: dec_value_def)

lemma dec_value_nat_dec: "dec_value (nat_dec n) = n"
proof (induction n rule: nat_dec.induct)
  case (1 n)
  show ?case
  proof (cases "n < 10")
    case True
    then show ?thesis
      by (subst nat_dec.simps) (simp add: dec_value_def of_char_digit take_bit_nat_eq_self)
  next
    case False
    with "1.IH" show ?thesis
      by (subst nat_dec.simps) (simp add: dec_value_snoc take_bit_nat_eq_self)
  qed
qed

lemma digit_not_sign: "is_digit c \<Longrightarrow> c \<noteq> CHR ''-'' \<and> c \<noteq> CHR ''+''"
  by (auto simp: is_digit_def)

lemma atoi_itoa: "0 \<le> n \<Longrightarrow> n < 2 ^ 63 \<Longrightarrow> atoi (itoa n) = Some n"
proof -
  assume n: "0 \<le> n" "n < 2 ^ 63"
  have hd: "is_digit (hd (nat_dec (nat n)))"
    using nat_dec_digits [of "nat n"] nat_dec_nonempty [of "nat n"]
    by (cases "nat_dec (nat n)") auto
  from n digit_not_sign [OF hd] show ?thesis
    by (simp add: atoi_def itoa_def nat_dec_digits nat_dec_nonempty dec_value_nat_dec Let_def)
qed

section \<open>Reading\<close>

lemma io_ReadFull_enough:
  assumes "n = length p"
  shows "io_ReadFull \<lparr>avail = p @ q, rend = e\<rparr> n = (p, None, \<lparr>avail = q, rend = e\<rparr>)"
  using assms by (simp add: io_ReadFull_def)

lemma io_ReadFull_short:
  assumes "length (avail r) < n"
  shows "io_ReadFull r n =
    (avail r, Some (if rend r = EOF \<and> avail r \<noteq> [] then ErrUnexpectedEOF else rend r),
     r\<lparr>avail := []\<rparr>)"
  using assms by (simp add: io_ReadFull_def)

text \<open>A failed read never reports more bytes than were there, and a full one loses none.\<close>

lemma io_ReadFull_split:
  "io_ReadFull r n = (p, None, r') \<Longrightarrow>
     avail r = p @ avail r' \<and> length p = n \<and> rend r' = rend r"
  by (auto simp: io_ReadFull_def split: if_splits)

section \<open>Byte order and conversions\<close>

lemma length_BigEndian_AppendUint32 [simp, bytes_simps]:
  "length (BigEndian_AppendUint32 b v) = length b + 4"
  by (simp add: BigEndian_AppendUint32_def)

lemma length_LittleEndian_PutUint64 [simp, bytes_simps]:
  "length (LittleEndian_PutUint64 v) = 8"
  by (simp add: LittleEndian_PutUint64_def)

lemma BigEndian_AppendUint32_append:
  "BigEndian_AppendUint32 b v = b @ BigEndian_AppendUint32 [] v"
  by (simp add: BigEndian_AppendUint32_def)

lemma bit_byte_slice:
  fixes v :: "'a::len word"
  shows "bit (push_bit k (ucast (ucast (drop_bit k v) :: 8 word) :: 'a word)) n
    \<longleftrightarrow> k \<le> n \<and> n < k + 8 \<and> bit v n"
  by (auto simp: bit_simps dest: bit_imp_le_length)

lemma bit_byte_low:
  fixes v :: "'a::len word"
  shows "bit (ucast (ucast v :: 8 word) :: 'a word) n \<longleftrightarrow> n < 8 \<and> bit v n"
  by (auto simp: bit_simps dest: bit_imp_le_length)

lemma BigEndian_roundtrip: "BigEndian_Uint32 (BigEndian_AppendUint32 [] v) = v"
proof (rule bit_word_eqI)
  fix n assume "n < LENGTH(32)"
  then show "bit (BigEndian_Uint32 (BigEndian_AppendUint32 [] v)) n = bit v n"
    by (simp add: BigEndian_Uint32_def BigEndian_AppendUint32_def bit_or_iff bit_byte_slice
        bit_byte_low) linarith
qed

lemma LittleEndian_roundtrip: "LittleEndian_Uint64 (LittleEndian_PutUint64 v) = v"
proof (rule bit_word_eqI)
  fix n assume "n < LENGTH(64)"
  then show "bit (LittleEndian_Uint64 (LittleEndian_PutUint64 v)) n = bit v n"
    by (simp add: LittleEndian_Uint64_def LittleEndian_PutUint64_def bit_or_iff bit_byte_slice
        bit_byte_low) linarith
qed

lemma BigEndian_roundtrip_nat:
  assumes "n < 2 ^ 32"
  shows "unat (BigEndian_Uint32 (BigEndian_AppendUint32 [] (of_nat n))) = n"
  using assms by (simp add: BigEndian_roundtrip unat_of_nat take_bit_nat_eq_self)

lemma sint_of_nat64: "n < 2 ^ 63 \<Longrightarrow> sint (of_nat n :: 64 word) = int n"
  using signed_take_bit_int_eq_self [of 63 "int n"] by (simp add: signed_of_nat)

lemma LittleEndian_roundtrip_int:
  assumes "n < 2 ^ 63"
  shows "sint (LittleEndian_Uint64 (LittleEndian_PutUint64 (of_nat n))) = int n"
  using assms by (simp add: LittleEndian_roundtrip sint_of_nat64)

lemma int32_id: "- (2 ^ 31) \<le> x \<Longrightarrow> x < 2 ^ 31 \<Longrightarrow> int32 x = x"
  by (simp add: int32_def)

lemma int32_range: "- (2 ^ 31) \<le> int32 x \<and> int32 x < 2 ^ 31"
  using pos_mod_bound [of "2 ^ 32" "x + 2 ^ 31"] by (simp add: int32_def)

text \<open>A value past the range wraps to one at least \<open>2 ^ 32\<close> below it.\<close>

lemma int32_wraps: "2 ^ 31 \<le> x \<Longrightarrow> int32 x + 2 ^ 32 \<le> x"
proof -
  assume x: "2 ^ 31 \<le> x"
  define q where "q = (x + 2147483648) div 4294967296"
  have "1 \<le> q" using x zdiv_mono1 [of 4294967296 "x + 2147483648" 4294967296] by (simp add: q_def)
  moreover have "(x + 2147483648) mod 4294967296 = x + 2147483648 - q * 4294967296"
    by (simp add: q_def minus_div_mult_eq_mod)
  ultimately show ?thesis by (simp add: int32_def)
qed

section \<open>Codecs: one value off the front of a byte stream\<close>

text \<open>
  The contract between a sender that writes encoded values back to back and a receiver that
  takes one value at a time. A decoder that returns \<open>None\<close> has too few bytes: the
  stream was cut inside a value.
\<close>

locale codec =
  fixes enc :: "'a \<Rightarrow> bytes"
    and dec :: "bytes \<Rightarrow> ('a \<times> bytes) option"
    and valid :: "'a \<Rightarrow> bool"
  assumes dec_enc: "valid x \<Longrightarrow> dec (enc x @ rest) = Some (x, rest)"
    and dec_cut: "valid x \<Longrightarrow> n < length (enc x) \<Longrightarrow> dec (take n (enc x)) = None"
    and dec_Nil: "dec [] = None"
begin

inductive decodes :: "bytes \<Rightarrow> 'a list \<Rightarrow> bytes \<Rightarrow> bool" where
  decodes_Nil: "decodes bs [] bs"
| decodes_Cons: "dec bs = Some (x, r) \<Longrightarrow> decodes r xs r' \<Longrightarrow> decodes bs (x # xs) r'"

lemma decodes_concat: "list_all valid xs \<Longrightarrow> decodes (concat (map enc xs) @ rest) xs rest"
proof (induction xs)
  case Nil
  show ?case by (simp add: decodes_Nil)
next
  case (Cons x xs)
  then show ?case by (auto intro!: decodes_Cons simp: dec_enc)
qed

lemma dec_prefix:
  assumes "list_all valid xs" and "dec (take n (concat (map enc xs))) = Some (y, r)"
  shows "\<exists>xs' m. xs = y # xs' \<and> r = take m (concat (map enc xs'))"
proof (cases xs)
  case Nil
  with assms(2) dec_Nil show ?thesis by simp
next
  case (Cons x xs')
  with assms(1) have x: "valid x" by simp
  show ?thesis
  proof (cases "n < length (enc x)")
    case True
    with Cons assms(2) dec_cut [OF x True] show ?thesis by simp
  next
    case False
    with Cons assms(2) dec_enc [OF x] show ?thesis by auto
  qed
qed
text \<open>
  Whatever prefix of an encoded sequence arrives, the values decoded from it are a prefix of
  the sequence: a cut loses values at the end only.
\<close>

lemma decodes_prefix:
  assumes "decodes bs ys r" and "list_all valid xs" and "bs = take n (concat (map enc xs))"
  shows "\<exists>zs. xs = ys @ zs"
  using assms
proof (induction arbitrary: xs n rule: decodes.induct)
  case (decodes_Nil bs)
  show ?case by simp
next
  case (decodes_Cons bs y r ys r')
  then obtain xs' m where xs: "xs = y # xs'" and r: "r = take m (concat (map enc xs'))"
    using dec_prefix by blast
  from decodes_Cons.prems xs have "list_all valid xs'" by simp
  with r decodes_Cons.IH obtain zs where "xs' = ys @ zs" by blast
  with xs show ?case by simp
qed

end

section \<open>Invariants of step relations\<close>

text \<open>
  Every state machine below proves its invariant once, for the start states and for one step,
  and gets it for every state a run reaches.
\<close>

locale transition_system =
  fixes start :: "'s \<Rightarrow> bool"
    and step :: "'s \<Rightarrow> 's \<Rightarrow> bool"
    and inv :: "'s \<Rightarrow> bool"
  assumes inv_start: "start s \<Longrightarrow> inv s"
    and inv_step: "inv s \<Longrightarrow> step s t \<Longrightarrow> inv t"
begin

lemma inv_steps: "step\<^sup>*\<^sup>* s t \<Longrightarrow> inv s \<Longrightarrow> inv t"
  by (induction rule: rtranclp_induct) (auto intro: inv_step)

lemma inv_reachable: "start s \<Longrightarrow> step\<^sup>*\<^sup>* s t \<Longrightarrow> inv t"
  by (blast intro: inv_start inv_steps)

lemma inv_prefix_run: "start s \<Longrightarrow> step\<^sup>*\<^sup>* s t \<Longrightarrow> step\<^sup>*\<^sup>* t u \<Longrightarrow> inv t \<and> inv u"
  by (blast intro: inv_reachable rtranclp_trans)

end

text \<open>
  A detailed system over an abstract one with an invariant: every detailed step is matched by some
  abstract steps, none or several. Then every detailed run is a view of an abstract one.
\<close>

locale simulation = transition_system start step inv
  for start :: "'s \<Rightarrow> bool" and step :: "'s \<Rightarrow> 's \<Rightarrow> bool" and inv :: "'s \<Rightarrow> bool" +
  fixes cstart :: "'c \<Rightarrow> bool"
    and cstep :: "'c \<Rightarrow> 'c \<Rightarrow> bool"
    and rel :: "'c \<Rightarrow> 's \<Rightarrow> bool"
  assumes sim_start: "cstart c \<Longrightarrow> \<exists>s. start s \<and> rel c s"
    and sim_step: "rel c s \<Longrightarrow> inv s \<Longrightarrow> cstep c c' \<Longrightarrow> \<exists>s'. step\<^sup>*\<^sup>* s s' \<and> rel c' s'"
begin

lemma sim_steps: "cstep\<^sup>*\<^sup>* c c' \<Longrightarrow> rel c s \<Longrightarrow> inv s \<Longrightarrow> \<exists>s'. step\<^sup>*\<^sup>* s s' \<and> rel c' s'"
proof (induction rule: rtranclp_induct)
  case (step d d')
  then obtain t where t: "step\<^sup>*\<^sup>* s t" "rel d t" by blast
  with sim_step [OF t(2) inv_steps [OF t(1) step.prems(2)] step.hyps(2)] show ?case
    by (meson rtranclp_trans)
qed blast

lemma sim_reachable: "cstart c \<Longrightarrow> cstep\<^sup>*\<^sup>* c c' \<Longrightarrow> \<exists>s s'. start s \<and> step\<^sup>*\<^sup>* s s' \<and> rel c' s'"
  using sim_start sim_steps inv_start by blast

end

end
