(* ===== verification/ET_Protocol.thy ===== *)
theory ET_Protocol
  imports ET_Prelude
begin

text \<open>
  Package \<^verbatim>\<open>internal/protocol\<close>: the packet headers and the plaintext packet, the generated
  \<^verbatim>\<open>Header.String\<close>, the handshake and terminal messages with the accessors of the generated
  code, and the redacted renderings of \<^verbatim>\<open>TerminalUserInfo\<close>.

  An optional proto2 field is an \<open>option\<close>: the generated struct keeps a value and a
  presence bit, \<^verbatim>\<open>Set\<close> stores both, \<^verbatim>\<open>Clear\<close> drops both, and a getter of an absent field returns
  the field's default. The binary encoding is the protobuf runtime's, not this package's.
\<close>

section \<open>Headers and packets\<close>

type_synonym Header = "8 word"

definition HeaderKeepAlive :: Header where [simp]: "HeaderKeepAlive = 0"
definition HeaderTerminalBuffer :: Header where [simp]: "HeaderTerminalBuffer = 1"
definition HeaderTerminalInfo :: Header where [simp]: "HeaderTerminalInfo = 2"
definition HeaderTerminalClose :: Header where [simp]: "HeaderTerminalClose = 11"
definition HeaderTerminalExitStatus :: Header where [simp]: "HeaderTerminalExitStatus = 12"
definition HeaderInitialResponse :: Header where [simp]: "HeaderInitialResponse = 252"
definition HeaderInitialPayload :: Header where [simp]: "HeaderInitialPayload = 253"

definition protocol_Version :: int where "protocol_Version = 6"

record packet =
  pkt_header :: Header
  pkt_payload :: bytes

definition zero_packet :: packet where
  "zero_packet = \<lparr>pkt_header = 0, pkt_payload = []\<rparr>"

text \<open>
  The generated \<^verbatim>\<open>String\<close> method slices one of three name tables between two entries of its
  index table.
\<close>

definition Header_name_0 :: string where
  "Header_name_0 = ''KeepAliveTerminalBufferTerminalInfo''"
definition Header_name_1 :: string where
  "Header_name_1 = ''TerminalCloseTerminalExitStatus''"
definition Header_name_2 :: string where
  "Header_name_2 = ''InitialResponseInitialPayload''"

definition Header_index_0 :: "nat list" where "Header_index_0 = [0, 9, 23, 35]"
definition Header_index_1 :: "nat list" where "Header_index_1 = [0, 13, 31]"
definition Header_index_2 :: "nat list" where "Header_index_2 = [0, 15, 29]"

definition Header_String :: "Header \<Rightarrow> string" where
  "Header_String i =
     (if i \<le> 2 then
        go_slice Header_name_0 (Header_index_0 ! unat i) (Header_index_0 ! Suc (unat i))
      else if 11 \<le> i \<and> i \<le> 12 then
        (let i = i - 11 in
         go_slice Header_name_1 (Header_index_1 ! unat i) (Header_index_1 ! Suc (unat i)))
      else if 252 \<le> i \<and> i \<le> 253 then
        (let i = i - 252 in
         go_slice Header_name_2 (Header_index_2 ! unat i) (Header_index_2 ! Suc (unat i)))
      else ''Header('' @ itoa (uint i) @ '')'')"

section \<open>Handshake messages\<close>

definition ConnectStatus_NEW_CLIENT :: int where [simp]: "ConnectStatus_NEW_CLIENT = 1"
definition ConnectStatus_RETURNING_CLIENT :: int where [simp]: "ConnectStatus_RETURNING_CLIENT = 2"
definition ConnectStatus_INVALID_KEY :: int where [simp]: "ConnectStatus_INVALID_KEY = 3"
definition ConnectStatus_MISMATCHED_PROTOCOL :: int where
  [simp]: "ConnectStatus_MISMATCHED_PROTOCOL = 4"

record ConnectRequest =
  creq_ClientId :: "string option"
  creq_Version :: "int option"

definition new_ConnectRequest :: ConnectRequest where
  "new_ConnectRequest = \<lparr>creq_ClientId = None, creq_Version = None\<rparr>"

definition ConnectRequest_GetClientId :: "ConnectRequest \<Rightarrow> string" where
  "ConnectRequest_GetClientId x = (case creq_ClientId x of Some v \<Rightarrow> v | None \<Rightarrow> '''')"

definition ConnectRequest_GetVersion :: "ConnectRequest \<Rightarrow> int" where
  "ConnectRequest_GetVersion x = (case creq_Version x of Some v \<Rightarrow> v | None \<Rightarrow> 0)"

definition ConnectRequest_SetClientId :: "string \<Rightarrow> ConnectRequest \<Rightarrow> ConnectRequest" where
  "ConnectRequest_SetClientId v x = x\<lparr>creq_ClientId := Some v\<rparr>"

definition ConnectRequest_SetVersion :: "int \<Rightarrow> ConnectRequest \<Rightarrow> ConnectRequest" where
  "ConnectRequest_SetVersion v x = x\<lparr>creq_Version := Some v\<rparr>"

record ConnectResponse =
  cresp_Status :: "int option"
  cresp_Error :: "string option"

definition new_ConnectResponse :: ConnectResponse where
  "new_ConnectResponse = \<lparr>cresp_Status = None, cresp_Error = None\<rparr>"

definition ConnectResponse_GetStatus :: "ConnectResponse \<Rightarrow> int" where
  "ConnectResponse_GetStatus x =
     (case cresp_Status x of Some v \<Rightarrow> v | None \<Rightarrow> ConnectStatus_NEW_CLIENT)"

definition ConnectResponse_GetError :: "ConnectResponse \<Rightarrow> string" where
  "ConnectResponse_GetError x = (case cresp_Error x of Some v \<Rightarrow> v | None \<Rightarrow> '''')"

definition ConnectResponse_SetStatus :: "int \<Rightarrow> ConnectResponse \<Rightarrow> ConnectResponse" where
  "ConnectResponse_SetStatus v x = x\<lparr>cresp_Status := Some v\<rparr>"

definition ConnectResponse_SetError :: "string \<Rightarrow> ConnectResponse \<Rightarrow> ConnectResponse" where
  "ConnectResponse_SetError v x = x\<lparr>cresp_Error := Some v\<rparr>"

record SequenceHeader =
  seq_SequenceNumber :: "int option"

definition new_SequenceHeader :: SequenceHeader where
  "new_SequenceHeader = \<lparr>seq_SequenceNumber = None\<rparr>"

definition SequenceHeader_GetSequenceNumber :: "SequenceHeader \<Rightarrow> int" where
  "SequenceHeader_GetSequenceNumber x = (case seq_SequenceNumber x of Some v \<Rightarrow> v | None \<Rightarrow> 0)"

definition SequenceHeader_SetSequenceNumber :: "int \<Rightarrow> SequenceHeader \<Rightarrow> SequenceHeader" where
  "SequenceHeader_SetSequenceNumber v x = x\<lparr>seq_SequenceNumber := Some v\<rparr>"

record CatchupBuffer =
  cb_Buffer :: "bytes list"

definition new_CatchupBuffer :: CatchupBuffer where
  "new_CatchupBuffer = \<lparr>cb_Buffer = []\<rparr>"

definition CatchupBuffer_GetBuffer :: "CatchupBuffer \<Rightarrow> bytes list" where
  "CatchupBuffer_GetBuffer x = cb_Buffer x"

definition CatchupBuffer_SetBuffer :: "bytes list \<Rightarrow> CatchupBuffer \<Rightarrow> CatchupBuffer" where
  "CatchupBuffer_SetBuffer v x = x\<lparr>cb_Buffer := v\<rparr>"

section \<open>Session messages\<close>

record TerminalBuffer =
  tb_Buffer :: "bytes option"
  tb_IsStderr :: "bool option"

definition new_TerminalBuffer :: TerminalBuffer where
  "new_TerminalBuffer = \<lparr>tb_Buffer = None, tb_IsStderr = None\<rparr>"

definition TerminalBuffer_GetBuffer :: "TerminalBuffer \<Rightarrow> bytes" where
  "TerminalBuffer_GetBuffer x = (case tb_Buffer x of Some v \<Rightarrow> v | None \<Rightarrow> [])"

definition TerminalBuffer_GetIsStderr :: "TerminalBuffer \<Rightarrow> bool" where
  "TerminalBuffer_GetIsStderr x = (case tb_IsStderr x of Some v \<Rightarrow> v | None \<Rightarrow> False)"

definition TerminalBuffer_SetBuffer :: "bytes \<Rightarrow> TerminalBuffer \<Rightarrow> TerminalBuffer" where
  "TerminalBuffer_SetBuffer v x = x\<lparr>tb_Buffer := Some v\<rparr>"

record TerminalExitStatus =
  tes_Exitcode :: "int option"

definition TerminalExitStatus_GetExitcode :: "TerminalExitStatus \<Rightarrow> int" where
  "TerminalExitStatus_GetExitcode x = (case tes_Exitcode x of Some v \<Rightarrow> v | None \<Rightarrow> 0)"

definition TerminalExitStatus_HasExitcode :: "TerminalExitStatus \<Rightarrow> bool" where
  "TerminalExitStatus_HasExitcode x = (tes_Exitcode x \<noteq> None)"

record TerminalInfo =
  ti_Id :: "string option"
  ti_Row :: "int option"
  ti_Column :: "int option"
  ti_Width :: "int option"
  ti_Height :: "int option"

definition new_TerminalInfo :: TerminalInfo where
  "new_TerminalInfo =
     \<lparr>ti_Id = None, ti_Row = None, ti_Column = None, ti_Width = None, ti_Height = None\<rparr>"

definition TerminalInfo_SetRow :: "int \<Rightarrow> TerminalInfo \<Rightarrow> TerminalInfo" where
  "TerminalInfo_SetRow v x = x\<lparr>ti_Row := Some v\<rparr>"
definition TerminalInfo_SetColumn :: "int \<Rightarrow> TerminalInfo \<Rightarrow> TerminalInfo" where
  "TerminalInfo_SetColumn v x = x\<lparr>ti_Column := Some v\<rparr>"
definition TerminalInfo_SetWidth :: "int \<Rightarrow> TerminalInfo \<Rightarrow> TerminalInfo" where
  "TerminalInfo_SetWidth v x = x\<lparr>ti_Width := Some v\<rparr>"
definition TerminalInfo_SetHeight :: "int \<Rightarrow> TerminalInfo \<Rightarrow> TerminalInfo" where
  "TerminalInfo_SetHeight v x = x\<lparr>ti_Height := Some v\<rparr>"

record SocketEndpoint =
  sep_Name :: "string option"
  sep_Port :: "int option"

record PortForwardSourceRequest =
  pfs_Source :: "SocketEndpoint option"
  pfs_Destination :: "SocketEndpoint option"
  pfs_Environmentvariable :: "string option"

record InitialPayload =
  ip_Jumphost :: "bool option"
  ip_Reversetunnels :: "PortForwardSourceRequest list"
  ip_Environmentvariables :: "(string \<times> string) list"
  ip_NoPty :: "bool option"
  ip_Command :: "string option"
  ip_SupportsExitStatus :: "bool option"
  ip_NoShell :: "bool option"

definition new_InitialPayload :: InitialPayload where
  "new_InitialPayload =
     \<lparr>ip_Jumphost = None, ip_Reversetunnels = [], ip_Environmentvariables = [],
      ip_NoPty = None, ip_Command = None, ip_SupportsExitStatus = None, ip_NoShell = None\<rparr>"

definition InitialPayload_SetSupportsExitStatus :: "bool \<Rightarrow> InitialPayload \<Rightarrow> InitialPayload" where
  "InitialPayload_SetSupportsExitStatus v x = x\<lparr>ip_SupportsExitStatus := Some v\<rparr>"

record InitialResponse =
  ir_Error :: "string option"

definition InitialResponse_GetError :: "InitialResponse \<Rightarrow> string" where
  "InitialResponse_GetError x = (case ir_Error x of Some v \<Rightarrow> v | None \<Rightarrow> '''')"

section \<open>Redaction\<close>

record TerminalUserInfo =
  tui_Id :: "string option"
  tui_Passkey :: "string option"
  tui_Uid :: "int option"
  tui_Gid :: "int option"
  tui_Fd :: "int option"

definition TerminalUserInfo_GetId :: "TerminalUserInfo option \<Rightarrow> string" where
  "TerminalUserInfo_GetId x =
     (case x of None \<Rightarrow> '''' | Some m \<Rightarrow> (case tui_Id m of Some v \<Rightarrow> v | None \<Rightarrow> ''''))"
definition TerminalUserInfo_GetUid :: "TerminalUserInfo option \<Rightarrow> int" where
  "TerminalUserInfo_GetUid x =
     (case x of None \<Rightarrow> 0 | Some m \<Rightarrow> (case tui_Uid m of Some v \<Rightarrow> v | None \<Rightarrow> 0))"
definition TerminalUserInfo_GetGid :: "TerminalUserInfo option \<Rightarrow> int" where
  "TerminalUserInfo_GetGid x =
     (case x of None \<Rightarrow> 0 | Some m \<Rightarrow> (case tui_Gid m of Some v \<Rightarrow> v | None \<Rightarrow> 0))"
definition TerminalUserInfo_GetFd :: "TerminalUserInfo option \<Rightarrow> int" where
  "TerminalUserInfo_GetFd x =
     (case x of None \<Rightarrow> 0 | Some m \<Rightarrow> (case tui_Fd m of Some v \<Rightarrow> v | None \<Rightarrow> 0))"

text \<open>A nil message is \<open>None\<close>; \<open>quote\<close> is \<^verbatim>\<open>strconv.Quote\<close>, the \<^verbatim>\<open>%q\<close> verb.\<close>

definition TerminalUserInfo_Format ::
  "(string \<Rightarrow> string) \<Rightarrow> TerminalUserInfo option \<Rightarrow> string" where
  "TerminalUserInfo_Format quote x =
     (case x of None \<Rightarrow> ''<nil>''
      | Some _ \<Rightarrow> ''TerminalUserInfo{id:'' @ quote (TerminalUserInfo_GetId x)
          @ '' passkey:REDACTED uid:'' @ itoa (TerminalUserInfo_GetUid x)
          @ '' gid:'' @ itoa (TerminalUserInfo_GetGid x)
          @ '' fd:'' @ itoa (TerminalUserInfo_GetFd x) @ ''}'')"

definition TerminalUserInfo_LogValue :: "TerminalUserInfo option \<Rightarrow> slog_group" where
  "TerminalUserInfo_LogValue x =
     [(''id'', SlogString (TerminalUserInfo_GetId x)),
      (''passkey'', SlogString ''REDACTED''),
      (''uid'', SlogInt (TerminalUserInfo_GetUid x)),
      (''gid'', SlogInt (TerminalUserInfo_GetGid x)),
      (''fd'', SlogInt (TerminalUserInfo_GetFd x))]"

section \<open>Accessor laws\<close>

lemmas message_defs =
  new_ConnectRequest_def ConnectRequest_GetClientId_def ConnectRequest_GetVersion_def
  ConnectRequest_SetClientId_def ConnectRequest_SetVersion_def
  new_ConnectResponse_def ConnectResponse_GetStatus_def ConnectResponse_GetError_def
  ConnectResponse_SetStatus_def ConnectResponse_SetError_def
  new_SequenceHeader_def SequenceHeader_GetSequenceNumber_def SequenceHeader_SetSequenceNumber_def
  new_CatchupBuffer_def CatchupBuffer_GetBuffer_def CatchupBuffer_SetBuffer_def
  new_TerminalBuffer_def TerminalBuffer_GetBuffer_def TerminalBuffer_SetBuffer_def
  TerminalBuffer_GetIsStderr_def

lemma SequenceHeader_get_set [simp]:
  "SequenceHeader_GetSequenceNumber (SequenceHeader_SetSequenceNumber v x) = v"
  by (simp add: message_defs)

lemma CatchupBuffer_get_set [simp]: "CatchupBuffer_GetBuffer (CatchupBuffer_SetBuffer v x) = v"
  by (simp add: message_defs)

lemma ConnectResponse_status_get_set [simp]:
  "ConnectResponse_GetStatus (ConnectResponse_SetStatus v x) = v"
  by (simp add: message_defs)

lemma TerminalBuffer_get_set [simp]: "TerminalBuffer_GetBuffer (TerminalBuffer_SetBuffer v x) = v"
  by (simp add: message_defs)

lemma ConnectRequest_get_set [simp]:
  "ConnectRequest_GetClientId (ConnectRequest_SetVersion w (ConnectRequest_SetClientId v x)) = v"
  "ConnectRequest_GetVersion (ConnectRequest_SetVersion w y) = w"
  by (simp_all add: message_defs)

section \<open>Properties\<close>

lemma Header_String_default:
  assumes "h \<notin> {0, 1, 2, 11, 12, 252, 253}"
  shows "Header_String h = ''Header('' @ itoa (uint h) @ '')''"
proof -
  have "h \<noteq> 0" "h \<noteq> 1" "h \<noteq> 2" "h \<noteq> 11" "h \<noteq> 12" "h \<noteq> 252" "h \<noteq> 253"
    using assms by auto
  then have "\<not> h \<le> 2" "\<not> (11 \<le> h \<and> h \<le> 12)" "\<not> (252 \<le> h \<and> h \<le> 253)"
    by (unat_arith, unat_arith, unat_arith)
  then show ?thesis unfolding Header_String_def by (simp only: if_False)
qed

lemma Header_String_named:
  "Header_String HeaderKeepAlive = ''KeepAlive''"
  "Header_String HeaderTerminalBuffer = ''TerminalBuffer''"
  "Header_String HeaderTerminalInfo = ''TerminalInfo''"
  "Header_String HeaderTerminalClose = ''TerminalClose''"
  "Header_String HeaderTerminalExitStatus = ''TerminalExitStatus''"
  "Header_String HeaderInitialResponse = ''InitialResponse''"
  "Header_String HeaderInitialPayload = ''InitialPayload''"
  by code_simp+

end
