(* ===== verification/ET_Wire.thy ===== *)
theory ET_Wire
  imports ET_Protocol
begin

text \<open>
  Package \<^verbatim>\<open>internal/wire\<close>: stream frames (4-byte big-endian length), handshake messages (8-byte
  little-endian length, then protobuf) and the packet layout (flag byte, header byte, payload).

  A byte buffer that the code reuses is its contents and its capacity. Readers and writers are
  those of the prelude. The protobuf runtime is the parameter \<open>proto_codec\<close>.
\<close>

section \<open>Limits and error classification (wire.go)\<close>

definition MaxMessageSize :: nat where "MaxMessageSize = 134217728"
definition MaxFrameSize :: nat where "MaxFrameSize = 16777216"
definition growChunk :: nat where "growChunk = 65536"

definition headerErr :: "nat \<Rightarrow> go_error \<Rightarrow> go_error" where
  "headerErr n e =
     (if \<not> errors_Is e EOF then e else if n = 0 then EOF else ErrUnexpectedEOF)"

definition bodyErr :: "go_error \<Rightarrow> go_error" where
  "bodyErr e = headerErr 1 e"

text \<open>
  The growing half of \<^verbatim>\<open>readBody\<close>: the buffer so far, its capacity, and the length to reach.
  The result is the error that stopped it, if any, the buffer, its capacity and the reader.
\<close>

function readBody_loop ::
  "reader \<Rightarrow> bytes \<Rightarrow> nat \<Rightarrow> nat \<Rightarrow> go_error option \<times> bytes \<times> nat \<times> reader" where
  "readBody_loop r buf cp n =
     (if length buf < n then
        (let nxt = min n (max (2 * length buf) growChunk);
             cp' = (if cp < nxt then min (max nxt (2 * cp)) (max n growChunk) else cp)
         in case io_ReadFull r (nxt - length buf) of
              (p, Some e, r') \<Rightarrow> (Some e, buf @ p, cp', r')
            | (p, None, r') \<Rightarrow> readBody_loop r' (buf @ p) cp' n)
      else (None, buf, cp, r))"
  by pat_completeness auto
termination
proof (relation "measure (\<lambda>(r, buf, cp, n). n - length buf)", goal_cases)
  case 1
  show ?case by simp
next
  case (2 r buf cp n nxt cp' p y e r')
  then have "io_ReadFull r (nxt - length buf) = (p, None, r')" by simp
  then have "length p = nxt - length buf" using io_ReadFull_split by blast
  moreover have "length buf < nxt" "nxt \<le> n" using 2(1,2) by (auto simp: growChunk_def)
  ultimately show ?case by simp
qed

declare readBody_loop.simps [simp del]

definition readBody :: "reader \<Rightarrow> nat \<Rightarrow> nat \<Rightarrow> (bytes \<times> nat) result \<times> reader" where
  "readBody r cp n =
     (if n \<le> cp then
        (case io_ReadFull r n of
           (p, Some e, r') \<Rightarrow> (Inl (bodyErr e), r')
         | (p, None, r') \<Rightarrow> (Inr (p, cp), r'))
      else
        (case readBody_loop r [] cp n of
           (Some e, b, c, r') \<Rightarrow> (Inl (bodyErr e), r')
         | (None, b, c, r') \<Rightarrow> (Inr (b, c), r')))"

section \<open>Frames (frame.go)\<close>

definition AppendFrame :: "bytes \<Rightarrow> bytes \<Rightarrow> bytes \<times> go_error option" where
  "AppendFrame dst frame =
     (if MaxFrameSize < length frame
      then (dst, Some (Wrap ''wire: frame of bytes'' [ErrTooLarge]))
      else (BigEndian_AppendUint32 dst (of_nat (length frame)) @ frame, None))"

definition writeChecked :: "'w writer \<Rightarrow> 'w \<Rightarrow> bytes \<Rightarrow> 'w \<times> go_error option" where
  "writeChecked wr w buf =
     (case wr w buf of
        (w', n, e) \<Rightarrow> (w', if e = None \<and> n \<noteq> length buf then Some ErrShortWrite else e))"

definition WriteFrame :: "'w writer \<Rightarrow> 'w \<Rightarrow> bytes \<Rightarrow> 'w \<times> go_error option" where
  "WriteFrame wr w frame =
     (if MaxFrameSize < length frame
      then (w, Some (Wrap ''wire: frame of bytes'' [ErrTooLarge]))
      else (case AppendFrame [] frame of
              (buf, Some e) \<Rightarrow> (w, Some e)
            | (buf, None) \<Rightarrow>
                (case writeChecked wr w buf of
                   (w', Some e) \<Rightarrow> (w', Some (Wrap ''wire: write frame'' [e]))
                 | (w', None) \<Rightarrow> (w', None))))"

text \<open>
  \<^verbatim>\<open>ReadFrame\<close> with a buffer of capacity \<open>cp\<close>; \<^verbatim>\<open>slices.Grow\<close> makes room for the length (it
  may round the capacity up further, which the result does not depend on).
\<close>

definition ReadFrame :: "reader \<Rightarrow> nat \<Rightarrow> (bytes \<times> nat) result \<times> reader" where
  "ReadFrame r cp =
     (let cp = max cp 4 in
      case io_ReadFull r 4 of
        (p, Some e, r1) \<Rightarrow>
          (let e' = headerErr (length p) e in
           (if errors_Is e' EOF then Inl EOF else Inl (Wrap ''wire: read frame length'' [e']), r1))
      | (p, None, r1) \<Rightarrow>
          (let n = BigEndian_Uint32 p in
           if of_nat MaxFrameSize < n
           then (Inl (Wrap ''wire: read frame length'' [ErrTooLarge]), r1)
           else (case readBody r1 cp (unat n) of
                   (Inl e, r2) \<Rightarrow> (Inl (Wrap ''wire: read frame body'' [e]), r2)
                 | (Inr b, r2) \<Rightarrow> (Inr b, r2))))"

section \<open>Handshake messages (message.go)\<close>

text \<open>
  The protobuf runtime for one message type: \<^verbatim>\<open>proto.Size\<close>, \<^verbatim>\<open>MarshalOptions.MarshalAppend\<close>
  (the appended bytes) and \<^verbatim>\<open>proto.Unmarshal\<close>.
\<close>

record 'm proto_codec =
  pb_size :: "'m \<Rightarrow> nat"
  pb_marshal :: "'m \<Rightarrow> bytes result"
  pb_unmarshal :: "bytes \<Rightarrow> 'm result"

definition proto_laws :: "'m proto_codec \<Rightarrow> bool" where
  "proto_laws pb \<longleftrightarrow>
     (\<forall>m. \<exists>b. pb_marshal pb m = Inr b \<and> length b = pb_size pb m \<and> pb_unmarshal pb b = Inr m)"

definition WriteMessage ::
  "'m proto_codec \<Rightarrow> 'w writer \<Rightarrow> 'w \<Rightarrow> 'm \<Rightarrow> 'w \<times> go_error option" where
  "WriteMessage pb wr w m =
     (if MaxMessageSize < pb_size pb m then (w, Some (Wrap ''wire: write'' [ErrTooLarge]))
      else (case pb_marshal pb m of
              Inl e \<Rightarrow> (w, Some (Wrap ''wire: marshal'' [e]))
            | Inr body \<Rightarrow>
                (if MaxMessageSize < length body then (w, Some (Wrap ''wire: write'' [ErrTooLarge]))
                 else (case writeChecked wr w
                              (LittleEndian_PutUint64 (of_nat (length body)) @ body) of
                         (w', Some e) \<Rightarrow> (w', Some (Wrap ''wire: write'' [e]))
                       | (w', None) \<Rightarrow> (w', None)))))"

definition ReadMessage :: "'m proto_codec \<Rightarrow> reader \<Rightarrow> 'm result \<times> reader" where
  "ReadMessage pb r =
     (case io_ReadFull r 8 of
        (p, Some e, r1) \<Rightarrow> (Inl (Wrap ''wire: read length'' [headerErr (length p) e]), r1)
      | (p, None, r1) \<Rightarrow>
          (let n = sint (LittleEndian_Uint64 p) in
           if n < 0 \<or> int MaxMessageSize < n
           then (Inl (Wrap ''wire: read length'' [ErrTooLarge]), r1)
           else (case readBody r1 0 (nat n) of
                   (Inl e, r2) \<Rightarrow> (Inl (Wrap ''wire: read body'' [e]), r2)
                 | (Inr (body, _), r2) \<Rightarrow>
                     (case pb_unmarshal pb body of
                        Inl e \<Rightarrow> (Inl (Wrap ''wire: unmarshal'' [ErrMalformed, e]), r2)
                      | Inr m \<Rightarrow> (Inr m, r2)))))"

section \<open>Packets (packet.go)\<close>

definition AppendPacket :: "bytes \<Rightarrow> bool \<Rightarrow> Header \<Rightarrow> bytes \<Rightarrow> bytes" where
  "AppendPacket b encrypted h payload = b @ [if encrypted then 1 else 0, h] @ payload"

definition ParsePacket :: "bytes \<Rightarrow> (bool \<times> Header \<times> bytes) result" where
  "ParsePacket b =
     (if length b < 2 then Inl ErrShortPacket else Inr (b ! 0 \<noteq> 0, b ! 1, drop 2 b))"

section \<open>Specification: the frame stream\<close>

text \<open>The bytes of a frame on the wire, and taking one frame off the front of received bytes.\<close>

definition frame_bytes :: "bytes \<Rightarrow> bytes" where
  "frame_bytes f = fst (AppendFrame [] f)"

definition take_frame :: "bytes \<Rightarrow> (bytes \<times> bytes) option" where
  "take_frame bs =
     (case ReadFrame \<lparr>avail = bs, rend = EOF\<rparr> 0 of
        (Inr (f, _), r) \<Rightarrow> Some (f, avail r)
      | _ \<Rightarrow> None)"

definition frame_ok :: "bytes \<Rightarrow> bool" where
  "frame_ok f = (length f \<le> MaxFrameSize)"

section \<open>Reading bodies\<close>

text \<open>What \<^verbatim>\<open>readBody\<close>'s growing loop reads is what one read of the whole length would.\<close>

lemma readBody_loop_enough:
  assumes "length buf \<le> n" and "n - length buf \<le> length (avail r)"
  shows "\<exists>c. readBody_loop r buf cp n =
    (None, buf @ take (n - length buf) (avail r), c, r\<lparr>avail := drop (n - length buf) (avail r)\<rparr>)"
  using assms
proof (induction r buf cp n rule: readBody_loop.induct)
  case (1 r buf cp n)
  show ?case
  proof (cases "length buf < n")
    case False
    with "1.prems" show ?thesis by (simp add: readBody_loop.simps)
  next
    case True
    define nxt where "nxt = min n (max (2 * length buf) growChunk)"
    have nxt: "length buf < nxt" "nxt \<le> n"
      using True by (auto simp: nxt_def growChunk_def)
    define k where "k = nxt - length buf"
    define cp' where "cp' = (if cp < nxt then min (max nxt (2 * cp)) (max n growChunk) else cp)"
    have rd: "io_ReadFull r k = (take k (avail r), None, r\<lparr>avail := drop k (avail r)\<rparr>)"
      using "1.prems" nxt by (simp add: io_ReadFull_def k_def)
    have len: "length (buf @ take k (avail r)) = nxt" "n - nxt \<le> length (drop k (avail r))"
      using "1.prems" nxt by (auto simp: k_def)
    obtain c where c: "readBody_loop (r\<lparr>avail := drop k (avail r)\<rparr>) (buf @ take k (avail r)) cp' n =
      (None, (buf @ take k (avail r)) @ take (n - nxt) (drop k (avail r)), c,
       r\<lparr>avail := drop (n - nxt) (drop k (avail r))\<rparr>)"
      using "1.IH" [OF True nxt_def cp'_def, folded k_def, OF rd [symmetric] refl refl]
        len nxt "1.prems" by (auto simp: k_def)
    have "k + (n - nxt) = n - length buf" using nxt by (simp add: k_def)
    then have "take k (avail r) @ take (n - nxt) (drop k (avail r)) = take (n - length buf) (avail r)"
      and "drop (n - nxt) (drop k (avail r)) = drop (n - length buf) (avail r)"
      by (simp_all flip: take_add add: add.commute)
    with c True rd show ?thesis
      by (subst readBody_loop.simps) (simp add: Let_def flip: nxt_def k_def cp'_def)
  qed
qed

lemma bodyErr_short:
  "bodyErr (if rend r = EOF \<and> xs \<noteq> [] then ErrUnexpectedEOF else rend r) = bodyErr (rend r)"
  by (simp add: bodyErr_def headerErr_def)

lemma readBody_loop_short:
  assumes "length buf \<le> n" and "length (avail r) < n - length buf"
  shows "\<exists>e c. readBody_loop r buf cp n = (Some e, buf @ avail r, c, r\<lparr>avail := []\<rparr>)
    \<and> bodyErr e = bodyErr (rend r)"
  using assms
proof (induction r buf cp n rule: readBody_loop.induct)
  case (1 r buf cp n)
  define nxt where "nxt = min n (max (2 * length buf) growChunk)"
  define cp' where "cp' = (if cp < nxt then min (max nxt (2 * cp)) (max n growChunk) else cp)"
  define k where "k = nxt - length buf"
  have True: "length buf < n" using "1.prems" by simp
  then have nxt: "length buf < nxt" "nxt \<le> n"
    by (auto simp: nxt_def growChunk_def)
  show ?case
  proof (cases "k \<le> length (avail r)")
    case False
    then have "io_ReadFull r k =
      (avail r, Some (if rend r = EOF \<and> avail r \<noteq> [] then ErrUnexpectedEOF else rend r),
       r\<lparr>avail := []\<rparr>)"
      by (simp add: io_ReadFull_short)
    with True bodyErr_short [of r "avail r"] show ?thesis
      by (subst readBody_loop.simps) (simp add: Let_def flip: nxt_def k_def cp'_def)
  next
    case k: True
    then have rd: "io_ReadFull r k = (take k (avail r), None, r\<lparr>avail := drop k (avail r)\<rparr>)"
      by (simp add: io_ReadFull_def)
    have "length (buf @ take k (avail r)) = nxt" "length (drop k (avail r)) < n - nxt"
      using "1.prems" k nxt by (auto simp: k_def)
    then obtain e c where "readBody_loop (r\<lparr>avail := drop k (avail r)\<rparr>) (buf @ take k (avail r)) cp' n =
      (Some e, buf @ avail r, c, r\<lparr>avail := []\<rparr>)" "bodyErr e = bodyErr (rend r)"
      using "1.IH" [OF True nxt_def cp'_def, folded k_def, OF rd [symmetric] refl refl] nxt
      by auto
    with True rd show ?thesis
      by (subst readBody_loop.simps) (simp add: Let_def flip: nxt_def k_def cp'_def)
  qed
qed

lemma readBody_enough:
  "n \<le> length (avail r) \<Longrightarrow>
   \<exists>c. readBody r cp n = (Inr (take n (avail r), c), r\<lparr>avail := drop n (avail r)\<rparr>)"
  using readBody_loop_enough [of "[]" n r cp] by (auto simp: readBody_def io_ReadFull_def)

lemma readBody_short:
  assumes "length (avail r) < n"
  shows "readBody r cp n = (Inl (bodyErr (rend r)), r\<lparr>avail := []\<rparr>)"
  using readBody_loop_short [of "[]" n r cp] assms bodyErr_short [of r "avail r"]
  by (auto simp: readBody_def io_ReadFull_def)

lemma bodyErr_EOF [simp]: "bodyErr EOF = ErrUnexpectedEOF"
  by (simp add: bodyErr_def headerErr_def)

text \<open>The capacity after the growing loop, on success and on failure alike.\<close>

lemma readBody_loop_cap:
  assumes "readBody_loop r buf cp n = (e, b, c, r')"
  shows "length buf \<le> length b \<and> c \<le> max cp (max (2 * growChunk) (4 * length b))
    \<and> c \<le> max cp (max n growChunk)"
  using assms
proof (induction r buf cp n rule: readBody_loop.induct)
  case (1 r buf cp n)
  define nxt where "nxt = min n (max (2 * length buf) growChunk)"
  define cp' where "cp' = (if cp < nxt then min (max nxt (2 * cp)) (max n growChunk) else cp)"
  have cp': "cp' \<le> max cp (max (2 * growChunk) (4 * length buf))" "cp' \<le> max cp (max n growChunk)"
    by (auto simp: cp'_def nxt_def)
  show ?case
  proof (cases "length buf < n")
    case False
    with "1.prems" show ?thesis by (simp add: readBody_loop.simps)
  next
    case True
    obtain p oe r1 where rd: "io_ReadFull r (nxt - length buf) = (p, oe, r1)"
      by (cases "io_ReadFull r (nxt - length buf)") auto
    show ?thesis
    proof (cases oe)
      case (Some err)
      with "1.prems" True rd have "b = buf @ p" "c = cp'"
        by (subst (asm) readBody_loop.simps, simp add: Let_def flip: nxt_def cp'_def)+
      with cp' show ?thesis by auto
    next
      case None
      with "1.prems" True rd have "readBody_loop r1 (buf @ p) cp' n = (e, b, c, r')"
        by (subst (asm) readBody_loop.simps) (simp add: Let_def flip: nxt_def cp'_def)
      from "1.IH" [OF True nxt_def cp'_def rd [unfolded None, symmetric] refl refl this] cp'
      show ?thesis by (auto simp: le_max_iff_disj)
    qed
  qed
qed

section \<open>Frames\<close>

lemma frame_bytes_ok:
  "frame_ok f \<Longrightarrow> frame_bytes f = BigEndian_AppendUint32 [] (of_nat (length f)) @ f"
  by (simp add: frame_bytes_def frame_ok_def AppendFrame_def)

lemma AppendFrame_ok: "frame_ok f \<Longrightarrow> AppendFrame dst f = (dst @ frame_bytes f, None)"
  by (simp add: frame_bytes_def frame_ok_def AppendFrame_def BigEndian_AppendUint32_def)

lemma length_frame_bytes [bytes_simps]: "frame_ok f \<Longrightarrow> length (frame_bytes f) = 4 + length f"
  by (simp add: frame_bytes_ok)

lemma frame_length_word:
  assumes "frame_ok f"
  shows "unat (BigEndian_Uint32 (BigEndian_AppendUint32 [] (of_nat (length f)))) = length f"
    and "\<not> of_nat MaxFrameSize < BigEndian_Uint32 (BigEndian_AppendUint32 [] (of_nat (length f)))"
proof -
  show len: "unat (BigEndian_Uint32 (BigEndian_AppendUint32 [] (of_nat (length f)))) = length f"
    using assms by (intro BigEndian_roundtrip_nat) (simp add: frame_ok_def MaxFrameSize_def)
  show "\<not> of_nat MaxFrameSize < BigEndian_Uint32 (BigEndian_AppendUint32 [] (of_nat (length f)))"
    using assms by (simp add: word_less_nat_alt len frame_ok_def MaxFrameSize_def)
qed

text \<open>Reading back what \<^verbatim>\<open>AppendFrame\<close> wrote, whatever the caller's buffer and whatever follows.\<close>

lemma ReadFrame_frame_bytes:
  assumes "frame_ok f"
  shows "\<exists>c. ReadFrame \<lparr>avail = frame_bytes f @ rest, rend = e\<rparr> cp
    = (Inr (f, c), \<lparr>avail = rest, rend = e\<rparr>)"
proof -
  let ?h = "BigEndian_AppendUint32 [] (of_nat (length f) :: 32 word)"
  have rd: "io_ReadFull \<lparr>avail = frame_bytes f @ rest, rend = e\<rparr> 4
      = (?h, None, \<lparr>avail = f @ rest, rend = e\<rparr>)"
    using io_ReadFull_enough [of 4 ?h "f @ rest" e] by (simp add: frame_bytes_ok [OF assms])
  obtain c where "readBody \<lparr>avail = f @ rest, rend = e\<rparr> (max cp 4) (length f)
      = (Inr (f, c), \<lparr>avail = rest, rend = e\<rparr>)"
    using readBody_enough [of "length f" "\<lparr>avail = f @ rest, rend = e\<rparr>" "max cp 4"] by auto
  with frame_length_word [OF assms] show ?thesis
    by (simp add: ReadFrame_def rd)
qed

text \<open>A stream that ends inside a frame.\<close>

lemma ReadFrame_cut:
  assumes "frame_ok f" and "n < length (frame_bytes f)"
  shows "fst (ReadFrame \<lparr>avail = take n (frame_bytes f), rend = EOF\<rparr> cp) =
    (if n = 0 then Inl EOF
     else if n < 4 then Inl (Wrap ''wire: read frame length'' [ErrUnexpectedEOF])
     else Inl (Wrap ''wire: read frame body'' [ErrUnexpectedEOF]))"
proof (cases "n < 4")
  case True
  have len: "length (take n (frame_bytes f)) = n" using assms(2) by simp
  then have "io_ReadFull \<lparr>avail = take n (frame_bytes f), rend = EOF\<rparr> 4 =
    (take n (frame_bytes f), Some (if n = 0 then EOF else ErrUnexpectedEOF), \<lparr>avail = [], rend = EOF\<rparr>)"
    using True by (subst io_ReadFull_short) auto
  with True len show ?thesis by (simp add: ReadFrame_def headerErr_def)
next
  case False
  let ?h = "BigEndian_AppendUint32 [] (of_nat (length f) :: 32 word)"
  have tk: "take n (frame_bytes f) = ?h @ take (n - 4) f"
    using False by (simp add: frame_bytes_ok [OF assms(1)])
  have "n - 4 < length f" using assms False by (simp add: length_frame_bytes)
  then have "readBody \<lparr>avail = take (n - 4) f, rend = EOF\<rparr> (max cp 4) (length f) =
      (Inl ErrUnexpectedEOF, \<lparr>avail = [], rend = EOF\<rparr>)"
    by (simp add: readBody_short)
  with False frame_length_word [OF assms(1)] show ?thesis
    by (simp add: ReadFrame_def tk io_ReadFull_enough)
qed

lemma BigEndian_Append_of_bytes:
  "length p = 4 \<Longrightarrow> BigEndian_AppendUint32 [] (BigEndian_Uint32 p) = p"
proof -
  assume "length p = 4"
  then obtain a b c d where p: "p = [a, b, c, d]"
    by (auto simp: numeral_eq_Suc length_Suc_conv)
  have "ucast (drop_bit 24 (BigEndian_Uint32 p)) = a" "ucast (drop_bit 16 (BigEndian_Uint32 p)) = b"
    "ucast (drop_bit 8 (BigEndian_Uint32 p)) = c" "ucast (BigEndian_Uint32 p) = d"
    by (rule bit_word_eqI; auto simp: p BigEndian_Uint32_def bit_simps dest: bit_imp_le_length)+
  then show ?thesis by (simp add: BigEndian_AppendUint32_def p)
qed

text \<open>Whatever \<^verbatim>\<open>ReadFrame\<close> accepts is the encoding of the frame it returns.\<close>

lemma ReadFrame_sound:
  assumes "ReadFrame r cp = (Inr (f, c), r')"
  shows "frame_ok f \<and> avail r = frame_bytes f @ avail r'"
proof -
  obtain p oe r1 where rd: "io_ReadFull r 4 = (p, oe, r1)" by (cases "io_ReadFull r 4") auto
  with assms have oe: "oe = None" by (cases oe) (auto simp: ReadFrame_def Let_def split: if_splits)
  let ?n = "BigEndian_Uint32 p"
  from assms rd oe have small: "\<not> of_nat MaxFrameSize < ?n"
    and body: "readBody r1 (max cp 4) (unat ?n) = (Inr (f, c), r')"
    by (auto simp: ReadFrame_def Let_def split: if_splits sum.splits prod.splits)
  have r: "avail r = p @ avail r1" "length p = 4"
    using io_ReadFull_split rd oe by blast+
  have enough: "unat ?n \<le> length (avail r1)"
    using body readBody_short [of r1 "unat ?n" "max cp 4"] by (cases "unat ?n \<le> length (avail r1)") auto
  with body readBody_enough [of "unat ?n" r1 "max cp 4"]
  have f: "f = take (unat ?n) (avail r1)" "avail r' = drop (unat ?n) (avail r1)" by auto
  have "length f = unat ?n" using enough f(1) by simp
  moreover have "unat ?n \<le> MaxFrameSize"
    using small by (simp add: word_less_nat_alt MaxFrameSize_def)
  ultimately have "frame_ok f" "frame_bytes f = p @ f"
    by (auto simp: frame_ok_def frame_bytes_ok BigEndian_Append_of_bytes r(2))
  with f r show ?thesis by simp
qed

interpretation frames: codec frame_bytes take_frame frame_ok
proof
  fix f rest assume f: "frame_ok f"
  then show "take_frame (frame_bytes f @ rest) = Some (f, rest)"
    using ReadFrame_frame_bytes [OF f, of rest EOF 0] by (auto simp: take_frame_def)
next
  fix f n assume f: "frame_ok f" "n < length (frame_bytes f)"
  then show "take_frame (take n (frame_bytes f)) = None"
    using ReadFrame_cut [OF f, of 0]
    by (auto simp: take_frame_def split: prod.splits sum.splits if_splits)
next
  show "take_frame [] = None"
    by (simp add: take_frame_def ReadFrame_def io_ReadFull_def headerErr_def)
qed

lemma take_frame_shorter: "take_frame bs = Some (f, r) \<Longrightarrow> length r < length bs"
proof -
  assume "take_frame bs = Some (f, r)"
  then obtain c r' where "ReadFrame \<lparr>avail = bs, rend = EOF\<rparr> 0 = (Inr (f, c), r')" "avail r' = r"
    by (auto simp: take_frame_def split: prod.splits sum.splits)
  then show "length r < length bs"
    using ReadFrame_sound by (fastforce simp: length_frame_bytes)
qed

text \<open>The frames a reader gets before its stream ends: \<^verbatim>\<open>ReadFrame\<close> until it fails.\<close>

function read_frames :: "bytes \<Rightarrow> bytes list" where
  "read_frames bs =
     (case take_frame bs of None \<Rightarrow> [] | Some (f, r) \<Rightarrow> f # read_frames r)"
  by pat_completeness auto
termination
  by (relation "measure length") (auto dest: take_frame_shorter)

declare read_frames.simps [simp del]

lemma read_frames_take:
  assumes "list_all frame_ok fs"
  shows "\<exists>k. read_frames (take n (concat (map frame_bytes fs))) = take k fs
    \<and> length (concat (map frame_bytes (take k fs))) \<le> n
    \<and> (k < length fs \<longrightarrow> n < length (concat (map frame_bytes (take (Suc k) fs))))"
  using assms
proof (induction fs arbitrary: n)
  case Nil
  then show ?case by (subst read_frames.simps) (simp add: frames.dec_Nil)
next
  case (Cons f fs)
  then have f: "frame_ok f" by simp
  show ?case
  proof (cases "n < length (frame_bytes f)")
    case True
    with frames.dec_cut [OF f] show ?thesis
      by (intro exI [of _ 0], subst read_frames.simps) simp
  next
    case False
    let ?m = "n - length (frame_bytes f)"
    from Cons obtain k where k: "read_frames (take ?m (concat (map frame_bytes fs))) = take k fs"
      "length (concat (map frame_bytes (take k fs))) \<le> ?m"
      "k < length fs \<longrightarrow> ?m < length (concat (map frame_bytes (take (Suc k) fs)))"
      by (metis list.pred_inject(2))
    with False frames.dec_enc [OF f] show ?thesis
      by (intro exI [of _ "Suc k"], subst read_frames.simps) auto
  qed
qed

section \<open>Messages\<close>

definition message_bytes :: "bytes \<Rightarrow> bytes" where
  "message_bytes body = LittleEndian_PutUint64 (of_nat (length body)) @ body"

lemma ReadMessage_message_bytes:
  assumes "length body \<le> MaxMessageSize"
  shows "ReadMessage pb \<lparr>avail = message_bytes body @ rest, rend = e\<rparr> =
    (case pb_unmarshal pb body of
       Inl err \<Rightarrow> Inl (Wrap ''wire: unmarshal'' [ErrMalformed, err])
     | Inr m \<Rightarrow> Inr m, \<lparr>avail = rest, rend = e\<rparr>)"
proof -
  let ?h = "LittleEndian_PutUint64 (of_nat (length body))"
  have rd: "io_ReadFull \<lparr>avail = message_bytes body @ rest, rend = e\<rparr> 8 =
      (?h, None, \<lparr>avail = body @ rest, rend = e\<rparr>)"
    using io_ReadFull_enough [of 8 ?h "body @ rest" e] by (simp add: message_bytes_def)
  have n: "sint (LittleEndian_Uint64 ?h) = int (length body)"
    using assms by (intro LittleEndian_roundtrip_int) (simp add: MaxMessageSize_def)
  obtain c where "readBody \<lparr>avail = body @ rest, rend = e\<rparr> 0 (length body) =
      (Inr (body, c), \<lparr>avail = rest, rend = e\<rparr>)"
    using readBody_enough [of "length body" "\<lparr>avail = body @ rest, rend = e\<rparr>" 0] by auto
  with assms show ?thesis
    by (simp add: ReadMessage_def rd n Let_def split: sum.splits)
qed

lemma WriteMessage_ok:
  assumes "pb_marshal pb m = Inr body" and "length body = pb_size pb m"
    and "length body \<le> MaxMessageSize"
    and "wr w (message_bytes body) = (w', length (message_bytes body), None)"
  shows "WriteMessage pb wr w m = (w', None)"
  using assms by (simp add: WriteMessage_def writeChecked_def message_bytes_def)

text \<open>The identity codec on byte strings, for the witnesses.\<close>

definition bytes_codec :: "bytes proto_codec" where
  "bytes_codec = \<lparr>pb_size = length, pb_marshal = Inr, pb_unmarshal = Inr\<rparr>"

lemma bytes_codec_laws: "proto_laws bytes_codec"
  by (simp add: proto_laws_def bytes_codec_def)

section \<open>Packets\<close>

lemma ParsePacket_AppendPacket [simp]:
  "ParsePacket (AppendPacket [] enc h payload) = Inr (enc, h, payload)"
  by (simp add: ParsePacket_def AppendPacket_def)

lemma length_AppendPacket [simp, bytes_simps]:
  "length (AppendPacket b enc h payload) = length b + 2 + length payload"
  by (simp add: AppendPacket_def)

lemma ParsePacket_InrD:
  "ParsePacket b = Inr (enc, h, payload) \<Longrightarrow> \<exists>f. b = f # h # payload \<and> enc = (f \<noteq> 0)"
  by (cases b; cases "tl b") (auto simp: ParsePacket_def split: if_splits)

section \<open>Properties\<close>

text \<open>
  C34. Frame stream under a cut: a peer writes frames back to back and the connection dies after
  any number of bytes. Reading frames until the stream ends yields exactly the frames whose bytes
  arrived completely, in order: a prefix of what was sent, and the longest one possible.
\<close>

theorem frame_stream_cut:
  assumes "list_all frame_ok fs"
  shows "\<exists>k. read_frames (take n (concat (map frame_bytes fs))) = take k fs
    \<and> length (concat (map frame_bytes (take k fs))) \<le> n
    \<and> (k < length fs \<longrightarrow> n < length (concat (map frame_bytes (take (Suc k) fs))))"
  using assms by (rule read_frames_take)

theorem frame_stream_cut_witness:
  "\<exists>k. read_frames (take 9 (concat (map frame_bytes [[1, 2], [3, 4, 5], [6]]))) = take k [[1, 2], [3, 4, 5], [6]]
    \<and> length (concat (map frame_bytes (take k [[1, 2], [3, 4, 5], [6]]))) \<le> 9
    \<and> (k < length [[1, 2], [3, 4, 5], [6 :: byte]] \<longrightarrow>
        9 < length (concat (map frame_bytes (take (Suc k) [[1, 2], [3, 4, 5], [6]]))))"
  by (rule frame_stream_cut) (simp add: frame_ok_def MaxFrameSize_def)

text \<open>
  C35. \<^verbatim>\<open>ReadFrame\<close> decides every input: it returns a frame only for bytes that are that frame's
  encoding, leaving the rest unread; it returns a bare \<^verbatim>\<open>io.EOF\<close> exactly when the stream ends
  before the first byte; a declared length above \<^verbatim>\<open>MaxFrameSize\<close> is refused with
  \<^verbatim>\<open>ErrTooLarge\<close> after reading the four length bytes and nothing else; every other end of
  stream is \<^verbatim>\<open>io.ErrUnexpectedEOF\<close>. The caller's buffer plays no part.
\<close>

theorem ReadFrame_total:
  assumes "rend r = EOF"
  shows "case ReadFrame r cp of
      (Inr (f, c), r') \<Rightarrow> frame_ok f \<and> avail r = frame_bytes f @ avail r'
    | (Inl e, r') \<Rightarrow>
        if avail r = [] then e = EOF
        else if 4 \<le> length (avail r) \<and> MaxFrameSize < unat (BigEndian_Uint32 (take 4 (avail r)))
        then errors_Is e ErrTooLarge \<and> \<not> errors_Is e EOF \<and> avail r' = drop 4 (avail r)
        else errors_Is e ErrUnexpectedEOF \<and> \<not> errors_Is e EOF \<and> \<not> errors_Is e ErrTooLarge
          \<and> avail r' = []"
proof (cases "ReadFrame r cp")
  case (Pair res r')
  show ?thesis
  proof (cases res)
    case (Inr b)
    then show ?thesis using Pair ReadFrame_sound by (cases b) auto
  next
    case (Inl e)
    show ?thesis
    proof (cases "4 \<le> length (avail r)")
      case False
      then have "io_ReadFull r 4 =
          (avail r, Some (if avail r = [] then EOF else ErrUnexpectedEOF), r\<lparr>avail := []\<rparr>)"
        using assms by (simp add: io_ReadFull_def)
      with False Inl Pair show ?thesis
        by (auto simp: ReadFrame_def headerErr_def Let_def split: if_splits)
    next
      case True
      let ?n = "BigEndian_Uint32 (take 4 (avail r))"
      have rd: "io_ReadFull r 4 = (take 4 (avail r), None, r\<lparr>avail := drop 4 (avail r)\<rparr>)"
        using True by (simp add: io_ReadFull_def)
      have big: "of_nat MaxFrameSize < ?n \<longleftrightarrow> MaxFrameSize < unat ?n"
        by (simp add: word_less_nat_alt MaxFrameSize_def)
      show ?thesis
      proof (cases "MaxFrameSize < unat ?n")
        case large: True
        with True Inl Pair rd big show ?thesis by (auto simp: ReadFrame_def Let_def)
      next
        case small: False
        let ?r1 = "r\<lparr>avail := drop 4 (avail r)\<rparr>"
        have "\<not> unat ?n \<le> length (avail ?r1)"
          using Inl Pair rd big small readBody_enough [of "unat ?n" ?r1 "max cp 4"]
          by (auto simp: ReadFrame_def Let_def)
        then have "readBody ?r1 (max cp 4) (unat ?n) = (Inl ErrUnexpectedEOF, r\<lparr>avail := []\<rparr>)"
          using assms by (simp add: readBody_short)
        with True small Inl Pair rd big show ?thesis by (auto simp: ReadFrame_def Let_def)
      qed
    qed
  qed
qed

theorem ReadFrame_total_witness:
  "case ReadFrame \<lparr>avail = [2, 0, 0, 0, 9], rend = EOF\<rparr> 64 of
      (Inr (f, c), r') \<Rightarrow> False
    | (Inl e, r') \<Rightarrow> errors_Is e ErrTooLarge \<and> \<not> errors_Is e EOF \<and> avail r' = [9]"
proof -
  have "MaxFrameSize < unat (BigEndian_Uint32 (take 4 [2, 0, 0, 0, 9 :: byte]))"
    by (simp add: MaxFrameSize_def BigEndian_Uint32_def)
  moreover have "fst (ReadFrame \<lparr>avail = [2, 0, 0, 0, 9], rend = EOF\<rparr> 64) =
      Inl (Wrap ''wire: read frame length'' [ErrTooLarge])"
    by (simp add: ReadFrame_def io_ReadFull_def BigEndian_Uint32_def MaxFrameSize_def)
  ultimately show ?thesis
    using ReadFrame_total [of "\<lparr>avail = [2, 0, 0, 0, 9], rend = EOF\<rparr>" 64]
    by (auto split: prod.splits sum.splits)
qed

text \<open>
  C37. Memory stays in proportion to what arrived: when \<^verbatim>\<open>readBody\<close> has to grow its buffer, the
  capacity it ends with, whether the body was complete or the stream was cut, is at most its
  old capacity, 128 KiB, or four times the bytes received, whichever is largest; and it never
  passes the declared length (or 64 KiB). The bytes it holds are the ones that arrived.
\<close>

theorem readBody_memory:
  assumes "readBody_loop r [] cp n = (e, b, c, r')"
  shows "b = take n (avail r) \<and> c \<le> max cp (max (2 * growChunk) (4 * length b))
    \<and> c \<le> max cp (max n growChunk)"
proof -
  have "b = take n (avail r)"
    using assms readBody_loop_enough [of "[]" n r cp] readBody_loop_short [of "[]" n r cp]
    by (cases "n \<le> length (avail r)") auto
  with readBody_loop_cap [OF assms] show ?thesis by simp
qed

theorem readBody_memory_witness:
  "\<exists>e b c r'. readBody_loop \<lparr>avail = [1, 2, 3], rend = EOF\<rparr> [] 4 100000 = (e, b, c, r')
    \<and> b = [1, 2, 3] \<and> c \<le> 131072"
proof -
  obtain e b c r' where h: "readBody_loop \<lparr>avail = [1, 2, 3], rend = EOF\<rparr> [] 4 100000 = (e, b, c, r')"
    by (cases "readBody_loop \<lparr>avail = [1, 2, 3], rend = EOF\<rparr> [] 4 100000") auto
  from readBody_memory [OF h] h show ?thesis by (auto simp: growChunk_def)
qed

text \<open>
  C36. Handshake messages round trip: a message the sender's \<^verbatim>\<open>WriteMessage\<close> accepted, written to a
  connection that takes all of it, is read back by \<^verbatim>\<open>ReadMessage\<close> as the same message, and the
  reader stands right after it.
\<close>

theorem message_roundtrip:
  assumes "proto_laws pb" and "pb_size pb m \<le> MaxMessageSize"
    and "8 + pb_size pb m \<le> budget"
  shows "\<exists>out budget'. WriteMessage pb log_writer (log, budget) m = ((log @ out, budget'), None)
    \<and> ReadMessage pb \<lparr>avail = out @ rest, rend = e\<rparr> = (Inr m, \<lparr>avail = rest, rend = e\<rparr>)"
proof -
  obtain body where body: "pb_marshal pb m = Inr body" "length body = pb_size pb m"
    "pb_unmarshal pb body = Inr m"
    using assms(1) unfolding proto_laws_def by blast
  have fits: "length (message_bytes body) \<le> budget"
    using assms(3) body(2) by (simp add: message_bytes_def)
  then have "log_writer (log, budget) (message_bytes body) =
      ((log @ message_bytes body, budget - length (message_bytes body)), length (message_bytes body), None)"
    by (simp add: log_writer_def Let_def)
  then have "WriteMessage pb log_writer (log, budget) m =
      ((log @ message_bytes body, budget - length (message_bytes body)), None)"
    using body assms(2) by (intro WriteMessage_ok) auto
  with body assms(2) ReadMessage_message_bytes [of body pb rest e] show ?thesis by auto
qed

theorem message_roundtrip_witness:
  "\<exists>out budget'. WriteMessage bytes_codec log_writer ([], 100) [5, 6] = (([] @ out, budget'), None)
    \<and> ReadMessage bytes_codec \<lparr>avail = out @ [7], rend = EOF\<rparr> = (Inr [5, 6], \<lparr>avail = [7], rend = EOF\<rparr>)"
  by (rule message_roundtrip [OF bytes_codec_laws]) (simp_all add: bytes_codec_def MaxMessageSize_def)

text \<open>
  \<^verbatim>\<open>ReadMessage\<close> classifies a bad handshake message: a length that is negative as an int64 or
  above \<^verbatim>\<open>MaxMessageSize\<close> is \<^verbatim>\<open>ErrTooLarge\<close> with no byte of the body read; a cut stream
  is a wrapped \<^verbatim>\<open>io.EOF\<close> before the first byte and \<^verbatim>\<open>io.ErrUnexpectedEOF\<close> anywhere later,
  never \<^verbatim>\<open>ErrMalformed\<close>; \<^verbatim>\<open>ErrMalformed\<close> needs a complete body that does not decode.
\<close>

lemma ReadMessage_total:
  assumes "rend r = EOF" and "ReadMessage pb r = (Inl e, r')"
  shows "if length (avail r) < 8
    then (errors_Is e EOF \<longleftrightarrow> avail r = []) \<and> (errors_Is e ErrUnexpectedEOF \<longleftrightarrow> avail r \<noteq> [])
      \<and> \<not> errors_Is e ErrMalformed
    else let n = sint (LittleEndian_Uint64 (take 8 (avail r))) in
      if n < 0 \<or> int MaxMessageSize < n
      then errors_Is e ErrTooLarge \<and> \<not> errors_Is e ErrMalformed \<and> avail r' = drop 8 (avail r)
      else if length (avail r) < 8 + nat n
      then errors_Is e ErrUnexpectedEOF \<and> \<not> errors_Is e EOF \<and> \<not> errors_Is e ErrMalformed
      else errors_Is e ErrMalformed
        \<and> (\<exists>err. pb_unmarshal pb (take (nat n) (drop 8 (avail r))) = Inl err)"
proof (cases "length (avail r) < 8")
  case True
  with assms show ?thesis
    by (auto simp: ReadMessage_def io_ReadFull_def headerErr_def split: if_splits)
next
  case False
  let ?n = "sint (LittleEndian_Uint64 (take 8 (avail r)))"
  let ?r1 = "r\<lparr>avail := drop 8 (avail r)\<rparr>"
  have rd: "io_ReadFull r 8 = (take 8 (avail r), None, ?r1)"
    using False by (simp add: io_ReadFull_def)
  show ?thesis
  proof (cases "?n < 0 \<or> int MaxMessageSize < ?n")
    case True
    with False rd assms(2) show ?thesis by (auto simp: ReadMessage_def Let_def)
  next
    case ok: False
    show ?thesis
    proof (cases "length (avail r) < 8 + nat ?n")
      case True
      then have "readBody ?r1 0 (nat ?n) = (Inl ErrUnexpectedEOF, r\<lparr>avail := []\<rparr>)"
        using assms(1) False by (simp add: readBody_short)
      with True ok False rd assms(2) show ?thesis by (auto simp: ReadMessage_def Let_def)
    next
      case enough: False
      have "nat ?n \<le> length (avail ?r1)" using enough by simp
      then obtain c where "readBody ?r1 0 (nat ?n) =
          (Inr (take (nat ?n) (avail ?r1), c), ?r1\<lparr>avail := drop (nat ?n) (avail ?r1)\<rparr>)"
        using readBody_enough by blast
      with enough ok False rd assms(2) show ?thesis
        by (auto simp: ReadMessage_def Let_def split: sum.splits)
    qed
  qed
qed

lemma ReadMessage_total_witness:
  "\<exists>e r'. ReadMessage bytes_codec \<lparr>avail = [3, 0, 0, 0, 0, 0, 0, 0, 1], rend = EOF\<rparr> = (Inl e, r')
    \<and> errors_Is e ErrUnexpectedEOF \<and> \<not> errors_Is e EOF \<and> \<not> errors_Is e ErrMalformed"
proof -
  let ?r = "\<lparr>avail = [3, 0, 0, 0, 0, 0, 0, 0, 1], rend = EOF\<rparr>"
  have n: "sint (LittleEndian_Uint64 (take 8 (avail ?r))) = 3"
    by (simp add: LittleEndian_Uint64_def)
  have "readBody \<lparr>avail = [1], rend = EOF\<rparr> 0 3 = (Inl ErrUnexpectedEOF, \<lparr>avail = [], rend = EOF\<rparr>)"
    by (simp add: readBody_short)
  with n have "ReadMessage bytes_codec ?r =
      (Inl (Wrap ''wire: read body'' [ErrUnexpectedEOF]), \<lparr>avail = [], rend = EOF\<rparr>)"
    by (simp add: ReadMessage_def io_ReadFull_def MaxMessageSize_def Let_def)
  with ReadMessage_total [OF _ this] n show ?thesis by (simp add: MaxMessageSize_def)
qed

text \<open>
  \<^verbatim>\<open>WriteFrame\<close> reports success only when the writer took the whole frame, length prefix
  included, in a single \<^verbatim>\<open>Write\<close>; a short count without an error is \<^verbatim>\<open>io.ErrShortWrite\<close>, and an
  oversized frame never reaches the writer.
\<close>

lemma WriteFrame_outcome:
  "case WriteFrame wr w f of
     (w', None) \<Rightarrow> frame_ok f \<and> wr w (frame_bytes f) = (w', length (frame_bytes f), None)
   | (w', Some e) \<Rightarrow>
       if frame_ok f
       then (\<exists>n oe. wr w (frame_bytes f) = (w', n, oe)
              \<and> (case oe of
                     Some x \<Rightarrow> e = Wrap ''wire: write frame'' [x]
                   | None \<Rightarrow> n \<noteq> length (frame_bytes f)
                       \<and> e = Wrap ''wire: write frame'' [ErrShortWrite]))
       else errors_Is e ErrTooLarge \<and> w' = w"
proof (cases "frame_ok f")
  case False
  then show ?thesis by (simp add: WriteFrame_def frame_ok_def)
next
  case True
  obtain w' n oe where w: "wr w (frame_bytes f) = (w', n, oe)"
    by (cases "wr w (frame_bytes f)") auto
  with True AppendFrame_ok [OF True, of "[]"] show ?thesis
    by (auto simp: WriteFrame_def frame_ok_def writeChecked_def split: option.splits)
qed

end
