(* ===== verification/ET_Seal.thy ===== *)
theory ET_Seal
  imports ET_Prelude
begin

text \<open>
  Package \<^verbatim>\<open>internal/seal\<close>: one direction of the encrypted stream. The state is the key and the
  24-byte counter nonce; every \<^verbatim>\<open>Seal\<close> and \<^verbatim>\<open>Open\<close> first adds one to the nonce as a
  little-endian number.

  \<^verbatim>\<open>golang.org/x/crypto/nacl/secretbox\<close> is not part of the repository: it is the parameter
  \<open>secretbox\<close> of every definition that calls it, and what the code relies on is the
  predicate \<open>secretbox_laws\<close>.
\<close>

section \<open>Model\<close>

definition secretbox_Overhead :: nat where "secretbox_Overhead = 16"

text \<open>\<^verbatim>\<open>secretbox.Seal(out, message, nonce, key)\<close> and \<^verbatim>\<open>secretbox.Open\<close>, without the \<^verbatim>\<open>out\<close> prefix.\<close>

record secretbox =
  box_seal :: "bytes \<Rightarrow> bytes \<Rightarrow> bytes \<Rightarrow> bytes"
  box_open :: "bytes \<Rightarrow> bytes \<Rightarrow> bytes \<Rightarrow> bytes option"

text \<open>
  The documented contract: a box opens under the nonce and key it was sealed with, a box is
  16 bytes longer than its message, and a box that opens to a message under some nonce
  and key is the box that message seals to there.
\<close>

definition secretbox_laws :: "secretbox \<Rightarrow> bool" where
  "secretbox_laws sb \<longleftrightarrow>
     (\<forall>m n k. box_open sb (box_seal sb m n k) n k = Some m) \<and>
     (\<forall>m n k. length (box_seal sb m n k) = length m + secretbox_Overhead) \<and>
     (\<forall>b m n k. box_open sb b n k = Some m \<longrightarrow> b = box_seal sb m n k)"

type_synonym Direction = "8 word"

definition ClientToServer :: Direction where "ClientToServer = 0"
definition ServerToClient :: Direction where "ServerToClient = 1"

record stream =
  st_key :: bytes
  st_nonce :: bytes

text \<open>\<^verbatim>\<open>New\<close>: \<open>None\<close> is the panic on a direction that is neither constant.\<close>

definition seal_New :: "bytes \<Rightarrow> Direction \<Rightarrow> stream option" where
  "seal_New key d =
     (if d \<noteq> ClientToServer \<and> d \<noteq> ServerToClient then None
      else Some \<lparr>st_key = key, st_nonce = (replicate 24 0)[23 := d]\<rparr>)"

fun increment :: "bytes \<Rightarrow> bytes" where
  "increment [] = []"
| "increment (b # bs) = (if b + 1 \<noteq> 0 then (b + 1) # bs else (b + 1) # increment bs)"

definition Stream_Seal :: "secretbox \<Rightarrow> stream \<Rightarrow> bytes \<Rightarrow> bytes \<Rightarrow> stream \<times> bytes" where
  "Stream_Seal sb s dst plaintext =
     (let s' = s\<lparr>st_nonce := increment (st_nonce s)\<rparr>
      in (s', dst @ box_seal sb plaintext (st_nonce s') (st_key s')))"

definition Stream_Open :: "secretbox \<Rightarrow> stream \<Rightarrow> bytes \<Rightarrow> bytes \<Rightarrow> stream \<times> bytes result" where
  "Stream_Open sb s dst box =
     (let s' = s\<lparr>st_nonce := increment (st_nonce s)\<rparr>
      in case box_open sb box (st_nonce s') (st_key s') of
           None \<Rightarrow> (s', Inl ErrOpen)
         | Some out \<Rightarrow> (s', Inr (dst @ out)))"

text \<open>\<^verbatim>\<open>Format\<close> and \<^verbatim>\<open>LogValue\<close>; \<open>None\<close> is the zero \<^verbatim>\<open>Stream\<close>.\<close>

definition Stream_Format :: "stream option \<Rightarrow> string" where
  "Stream_Format s =
     (case s of None \<Rightarrow> ''seal.Stream{}''
      | Some st \<Rightarrow> ''seal.Stream{dir:'' @ itoa (uint (last (st_nonce st))) @ '' key:REDACTED}'')"

definition Stream_LogValue :: "stream option \<Rightarrow> slog_group" where
  "Stream_LogValue s =
     (case s of None \<Rightarrow> []
      | Some st \<Rightarrow> [(''dir'', SlogInt (uint (last (st_nonce st)))), (''key'', SlogString ''REDACTED'')])"

section \<open>Specification\<close>

text \<open>
  The nonce as a number, and the nonce a stream of direction \<open>d\<close> uses for its
  packet number \<open>i\<close> (counting from 0): \<open>i + 1\<close> increments after the start.
\<close>

fun le_value :: "bytes \<Rightarrow> nat" where
  "le_value [] = 0"
| "le_value (b # bs) = unat b + 256 * le_value bs"

definition nonce_at :: "bytes \<Rightarrow> nat \<Rightarrow> bytes" where
  "nonce_at n0 i = (increment ^^ Suc i) n0"

definition stream_wf :: "stream \<Rightarrow> bool" where
  "stream_wf s \<longleftrightarrow> length (st_nonce s) = 24 \<and> length (st_key s) = 32"

text \<open>
  The box of the \<open>i\<close>-th packet sealed by a stream that starts at \<open>s0\<close>, and the state
  of a stream after \<open>i\<close> packets.
\<close>

definition box_at :: "secretbox \<Rightarrow> stream \<Rightarrow> nat \<Rightarrow> bytes \<Rightarrow> bytes" where
  "box_at sb s0 i m = box_seal sb m (nonce_at (st_nonce s0) i) (st_key s0)"

definition stream_at :: "stream \<Rightarrow> nat \<Rightarrow> stream" where
  "stream_at s0 i = s0\<lparr>st_nonce := (increment ^^ i) (st_nonce s0)\<rparr>"

text \<open>A stream that seals one message after another: the nonce of each, and what it gave.\<close>

fun seal_run :: "secretbox \<Rightarrow> stream \<Rightarrow> bytes list \<Rightarrow> (bytes \<times> bytes) list" where
  "seal_run sb s [] = []"
| "seal_run sb s (m # ms) =
     (case Stream_Seal sb s [] m of (s', b) \<Rightarrow> (st_nonce s', b) # seal_run sb s' ms)"

text \<open>
  A secretbox for the witnesses: the tag is the start of the nonce, the message is in the
  clear. It satisfies \<open>secretbox_laws\<close>.
\<close>

definition demo_box :: secretbox where
  "demo_box =
     \<lparr>box_seal = (\<lambda>m n k. take 16 (n @ replicate 16 0) @ m),
      box_open = (\<lambda>b n k. if take 16 b = take 16 (n @ replicate 16 0) then Some (drop 16 b) else None)\<rparr>"

definition demo_key :: bytes where "demo_key = replicate 32 7"

section \<open>The counter\<close>

lemma length_increment [simp, bytes_simps]: "length (increment n) = length n"
  by (induction n) auto

lemma length_increment_pow [simp, bytes_simps]: "length ((increment ^^ k) n) = length n"
  by (induction k) auto

lemma unat_byte_bound: "unat (b::byte) < 256"
  using unsigned_less [of b] by simp

lemma le_value_bound: "le_value n < 256 ^ length n"
proof (induction n)
  case (Cons b bs)
  with unat_byte_bound [of b] show ?case by simp
qed simp

lemma unat_succ_byte: "(b::byte) + 1 \<noteq> 0 \<Longrightarrow> unat (b + 1) = unat b + 1"
  by (simp add: unatSuc add.commute)

lemma unat_max_byte: "(b::byte) + 1 = 0 \<Longrightarrow> unat b = 255"
proof -
  assume "b + 1 = 0"
  then have "b = - 1" by (simp add: eq_neg_iff_add_eq_0)
  then show "unat b = 255" by (simp add: unsigned_minus_1_eq_mask mask_eq_exp_minus_1)
qed

lemma le_value_increment: "le_value (increment n) = (le_value n + 1) mod 256 ^ length n"
proof (induction n)
  case (Cons b bs)
  show ?case
  proof (cases "b + 1 = 0")
    case True
    have "(256 * (le_value bs + 1)) mod (256 * 256 ^ length bs)
        = 256 * ((le_value bs + 1) mod 256 ^ length bs)"
      by (simp only: mult_mod_right)
    with True Cons.IH show ?thesis by (simp add: unat_max_byte)
  next
    case False
    with unat_byte_bound [of "b + 1"] le_value_bound [of bs]
    have "unat b + 1 + 256 * le_value bs < 256 * 256 ^ length bs"
      by (simp add: unat_succ_byte)
    with False show ?thesis by (simp add: unat_succ_byte)
  qed
qed simp

lemma le_value_increments: "le_value ((increment ^^ k) n) = (le_value n + k) mod 256 ^ length n"
proof (induction k)
  case 0
  show ?case using le_value_bound by simp
next
  case (Suc k)
  then show ?case by (simp add: le_value_increment mod_Suc_eq)
qed

lemma le_value_append: "le_value (xs @ ys) = le_value xs + 256 ^ length xs * le_value ys"
  by (induction xs) (auto simp: algebra_simps)

lemma le_value_zeros: "le_value (replicate k 0) = 0"
  by (induction k) auto

lemma seal_New_SomeD:
  assumes "seal_New key d = Some s"
  shows "st_key s = key" and "st_nonce s = replicate 23 0 @ [d]" and "d = 0 \<or> d = 1"
proof -
  have "(replicate 24 0)[23 := d] = replicate 23 0 @ [d]"
    by (simp add: numeral_eq_Suc)
  with assms show "st_key s = key" and "st_nonce s = replicate 23 0 @ [d]" and "d = 0 \<or> d = 1"
    by (auto simp: seal_New_def ClientToServer_def ServerToClient_def split: if_splits)
qed

lemma le_value_New: "seal_New key d = Some s \<Longrightarrow> le_value (st_nonce s) = 256 ^ 23 * unat d"
  using seal_New_SomeD(2) [of key d s] by (simp add: le_value_append le_value_zeros)

section \<open>Sealing and opening in step\<close>

lemma stream_at_0 [simp]: "stream_at s0 0 = s0"
  by (simp add: stream_at_def)

lemma stream_at_key [simp]: "st_key (stream_at s0 i) = st_key s0"
  by (simp add: stream_at_def)

lemma Stream_Seal_at:
  "Stream_Seal sb (stream_at s0 i) dst m = (stream_at s0 (Suc i), dst @ box_at sb s0 i m)"
  by (simp add: Stream_Seal_def stream_at_def box_at_def nonce_at_def)

lemma Stream_Open_at:
  assumes "secretbox_laws sb"
  shows "Stream_Open sb (stream_at s0 i) dst (box_at sb s0 i m) = (stream_at s0 (Suc i), Inr (dst @ m))"
  using assms
  by (simp add: Stream_Open_def stream_at_def box_at_def nonce_at_def secretbox_laws_def)

lemma Stream_Open_advances: "fst (Stream_Open sb (stream_at s0 i) dst b) = stream_at s0 (Suc i)"
  by (simp add: Stream_Open_def stream_at_def Let_def split: option.splits)

lemma length_box_at [bytes_simps]:
  "secretbox_laws sb \<Longrightarrow> length (box_at sb s0 i m) = length m + secretbox_Overhead"
  by (simp add: box_at_def secretbox_laws_def)

lemma demo_box_laws: "secretbox_laws demo_box"
  by (auto simp: secretbox_laws_def demo_box_def secretbox_Overhead_def)
    (metis append_take_drop_id append.assoc)

lemma nonce_value:
  assumes "seal_New key d = Some s" and "i + 1 < 256 ^ 23"
  shows "le_value (nonce_at (st_nonce s) i) = 256 ^ 23 * unat d + (i + 1)"
proof -
  have len: "length (st_nonce s) = 24" using seal_New_SomeD(2) [OF assms(1)] by simp
  have "256 ^ 23 * unat d + (i + 1) < (256::nat) ^ 24"
    using seal_New_SomeD(3) [OF assms(1)] assms(2) by auto
  with assms(1) len show ?thesis
    unfolding nonce_at_def le_value_increments by (simp add: le_value_New)
qed

lemma nonce_at_inj:
  assumes "seal_New k1 d1 = Some s1" and "seal_New k2 d2 = Some s2"
    and "i + 1 < 256 ^ 23" and "j + 1 < 256 ^ 23"
    and "nonce_at (st_nonce s1) i = nonce_at (st_nonce s2) j"
  shows "d1 = d2 \<and> i = j"
proof -
  have "256 ^ 23 * unat d1 + (i + 1) = 256 ^ 23 * unat d2 + (j + 1)"
    using nonce_value [OF assms(1,3)] nonce_value [OF assms(2,4)] assms(5) by simp
  then show ?thesis
    using assms(3,4) seal_New_SomeD(3) [OF assms(1)] seal_New_SomeD(3) [OF assms(2)]
    by auto
qed

lemma seal_run_nth:
  "length (seal_run sb (stream_at st i) ms) = length ms"
  "k < length ms \<Longrightarrow> seal_run sb (stream_at st i) ms ! k = (nonce_at (st_nonce st) (i + k), box_at sb st (i + k) (ms ! k))"
proof (induction ms arbitrary: i k)
  case (Cons m ms)
  have n: "st_nonce (stream_at st (Suc i)) = nonce_at (st_nonce st) i" for i
    by (simp add: stream_at_def nonce_at_def)
  { case 1 show ?case using Cons.IH(1) by (simp add: Stream_Seal_at) }
  { case 2 then show ?case using Cons.IH(2) n by (cases k) (simp_all add: Stream_Seal_at) }
qed simp_all

lemma seal_run_distinct:
  assumes "seal_New key d = Some s" and "length ms < 256 ^ 23"
  shows "distinct (map fst (seal_run sb s ms))"
  using seal_run_nth [where sb = sb and i = 0 and ms = ms and st = s] nonce_at_inj [OF assms(1) assms(1)] assms(2)
  by (fastforce simp: distinct_conv_nth)

section \<open>Properties\<close>

text \<open>
  C21. Over the whole life of a session no nonce is used twice: whatever the two ends of a connection
  seal, up to \<open>256 ^ 23 - 1\<close> packets each, the nonces of all of it are pairwise different; and each
  packet is sealed with the session's key under the nonce that counts for it.
\<close>

theorem nonces_never_repeat:
  assumes "seal_New key ClientToServer = Some s1" and "seal_New key ServerToClient = Some s2"
    and "length ms1 < 256 ^ 23" and "length ms2 < 256 ^ 23"
  shows "distinct (map fst (seal_run sb s1 ms1 @ seal_run sb s2 ms2))
    \<and> list_all2 (\<lambda>m (nonce, b). b = box_seal sb m nonce key) (ms1 @ ms2) (seal_run sb s1 ms1 @ seal_run sb s2 ms2)"
proof
  note n1 = seal_run_nth [where sb = sb and i = 0 and ms = ms1 and st = s1, simplified]
    and n2 = seal_run_nth [where sb = sb and i = 0 and ms = ms2 and st = s2, simplified]
  have "nonce_at (st_nonce s1) i \<noteq> nonce_at (st_nonce s2) j" if "i < length ms1" "j < length ms2" for i j
    using nonce_at_inj [OF assms(1,2), of i j] that assms(3,4) by (auto simp: ClientToServer_def ServerToClient_def)
  then have "fst ` set (seal_run sb s1 ms1) \<inter> fst ` set (seal_run sb s2 ms2) = {}"
    using n1 n2 by (auto simp: set_conv_nth)
  with seal_run_distinct [OF assms(1,3)] seal_run_distinct [OF assms(2,4)]
  show "distinct (map fst (seal_run sb s1 ms1 @ seal_run sb s2 ms2))" by simp
  have "st_key s1 = key" "st_key s2 = key" using seal_New_SomeD(1) assms(1,2) by blast+
  with n1 n2 show "list_all2 (\<lambda>m (nonce, b). b = box_seal sb m nonce key) (ms1 @ ms2)
      (seal_run sb s1 ms1 @ seal_run sb s2 ms2)"
    by (intro list_all2_appendI) (simp_all add: list_all2_conv_all_nth box_at_def)
qed

theorem nonces_never_repeat_witness:
  "\<exists>s1 s2. seal_New demo_key ClientToServer = Some s1 \<and> seal_New demo_key ServerToClient = Some s2
     \<and> distinct (map fst (seal_run demo_box s1 [[1], [1]] @ seal_run demo_box s2 [[1], [2]]))"
proof -
  obtain s1 s2 where s: "seal_New demo_key ClientToServer = Some s1" "seal_New demo_key ServerToClient = Some s2"
    by (simp add: seal_New_def)
  from nonces_never_repeat [OF s, of "[[1], [1]]" "[[1], [2]]" demo_box] s show ?thesis by auto
qed

end
