(* ===== verification/ET_Ring.thy ===== *)
theory ET_Ring
  imports ET_Prelude
begin

text \<open>
  \<^verbatim>\<open>internal/etcp/ring.go\<close>: the retained window of sealed outbound packets, and the interface it
  offers to the connection, the locale \<open>replay_log\<close>: a log that grows at the end, forgets
  at the front, and hands out slices of what it still holds. Sequence numbers are Go's
  \<^verbatim>\<open>int64\<close>; no session counts far enough to wrap one.
\<close>

section \<open>The interface\<close>

locale replay_log =
  fixes next_seq :: "'r \<Rightarrow> int"
    and lookup :: "'r \<Rightarrow> int \<Rightarrow> bytes option"
    and push :: "'r \<Rightarrow> bytes \<Rightarrow> 'r"
    and trim :: "'r \<Rightarrow> int \<Rightarrow> int \<Rightarrow> 'r"
    and since :: "'r \<Rightarrow> int \<Rightarrow> int \<Rightarrow> bytes list option"
    and invar :: "'r \<Rightarrow> bool"
  assumes invar_push: "invar r \<Longrightarrow> invar (push r d)"
    and invar_trim: "invar r \<Longrightarrow> invar (trim r k u)"
    and next_push: "invar r \<Longrightarrow> next_seq (push r d) = next_seq r + 1"
    and lookup_push: "invar r \<Longrightarrow> lookup (push r d) = (lookup r)(next_seq r \<mapsto> d)"
    and next_trim: "invar r \<Longrightarrow> next_seq (trim r k u) = next_seq r"
    and lookup_trim: "invar r \<Longrightarrow> lookup (trim r k u) s = Some d \<Longrightarrow> lookup r s = Some d"
    and trim_keeps: "invar r \<Longrightarrow> k \<le> s \<Longrightarrow> lookup (trim r k u) s = lookup r s"
    and lookup_range: "invar r \<Longrightarrow> lookup r s = Some d \<Longrightarrow> 0 \<le> s \<and> s < next_seq r"
    and since_Some: "invar r \<Longrightarrow> since r a b = Some xs \<Longrightarrow>
          0 \<le> a \<and> a \<le> b \<and> b \<le> next_seq r \<and> length xs = nat (b - a)
          \<and> (\<forall>i < length xs. lookup r (a + int i) = Some (xs ! i))"
begin

text \<open>
  \<open>logs r L\<close>: everything ever pushed is \<open>L\<close>, and what the log still holds under a
  sequence number is the packet pushed with that number.
\<close>

definition logs :: "'r \<Rightarrow> bytes list \<Rightarrow> bool" where
  "logs r L \<longleftrightarrow> next_seq r = int (length L) \<and> (\<forall>s d. lookup r s = Some d \<longrightarrow> d = L ! nat s)"

lemma logs_push: "invar r \<Longrightarrow> logs r L \<Longrightarrow> logs (push r d) (L @ [d])"
  using lookup_range [of r]
  by (force simp: logs_def next_push lookup_push nth_append split: if_splits)

lemma logs_trim: "invar r \<Longrightarrow> logs r L \<Longrightarrow> logs (trim r k u) L"
  using lookup_trim by (auto simp: logs_def next_trim)

text \<open>A slice handed out is the slice of the full log: a replay resends identical bytes.\<close>

lemma since_logs:
  assumes "invar r" and "logs r L" and "since r a b = Some xs"
  shows "0 \<le> a \<and> a \<le> b \<and> nat b \<le> length L \<and> xs = take (nat b - nat a) (drop (nat a) L)"
proof -
  from since_Some [OF assms(1,3)] assms(2)
  have ab: "0 \<le> a" "a \<le> b" "nat b \<le> length L" "length xs = nat b - nat a"
    and at: "\<And>i. i < length xs \<Longrightarrow> lookup r (a + int i) = Some (xs ! i)"
    by (auto simp: logs_def)
  have "xs = take (nat b - nat a) (drop (nat a) L)"
  proof (rule nth_equalityI)
    show "length xs = length (take (nat b - nat a) (drop (nat a) L))" using ab by simp
  next
    fix i assume i: "i < length xs"
    with at assms(2) have "xs ! i = L ! nat (a + int i)" by (auto simp: logs_def)
    with i ab show "xs ! i = take (nat b - nat a) (drop (nat a) L) ! i"
      by (simp add: nat_add_distrib)
  qed
  with ab show ?thesis by simp
qed

end

section \<open>Model\<close>

record ring =
  rg_first :: int
  rg_entries :: "bytes list"
  rg_bytes :: int
  rg_limit :: int
  rg_held :: bool
  rg_hold :: int

definition ring_next :: "ring \<Rightarrow> int" where
  "ring_next r = rg_first r + int (length (rg_entries r))"

definition ring_push :: "ring \<Rightarrow> bytes \<Rightarrow> ring" where
  "ring_push r data =
     r\<lparr>rg_entries := rg_entries r @ [data], rg_bytes := rg_bytes r + int (length data)\<rparr>"

text \<open>The loop of \<^verbatim>\<open>trim\<close>: the entries not yet examined, how many were dropped, the bytes left.\<close>

fun trim_loop :: "ring \<Rightarrow> int \<Rightarrow> int \<Rightarrow> bytes list \<Rightarrow> nat \<Rightarrow> int \<Rightarrow> nat \<times> int" where
  "trim_loop r keep unsent [] n b = (n, b)"
| "trim_loop r keep unsent (e # es) n b =
     (if b - unsent > rg_limit r \<and> rg_first r + int n < keep then
        (if rg_held r \<and> rg_first r + int n \<ge> rg_hold r \<and> b - unsent \<le> 2 * rg_limit r then (n, b)
         else trim_loop r keep unsent es (n + 1) (b - int (length e)))
      else (n, b))"

definition ring_trim :: "ring \<Rightarrow> int \<Rightarrow> int \<Rightarrow> ring" where
  "ring_trim r keep unsent =
     (case trim_loop r keep unsent (rg_entries r) 0 (rg_bytes r) of
        (n, b) \<Rightarrow> r\<lparr>rg_entries := drop n (rg_entries r), rg_first := rg_first r + int n, rg_bytes := b\<rparr>)"

definition ring_appendRange :: "ring \<Rightarrow> bytes list \<Rightarrow> int \<Rightarrow> int \<Rightarrow> bytes list" where
  "ring_appendRange r dst from to =
     dst @ go_slice (rg_entries r) (nat (from - rg_first r)) (nat (to - rg_first r))"

definition ring_since :: "ring \<Rightarrow> int \<Rightarrow> int \<Rightarrow> bytes list option" where
  "ring_since r from to =
     (if from < rg_first r \<or> from > to \<or> to > ring_next r then None
      else Some (ring_appendRange r [] from to))"

definition ring_bytesBetween :: "ring \<Rightarrow> int \<Rightarrow> int \<Rightarrow> int" where
  "ring_bytesBetween r from to =
     (\<Sum>e\<leftarrow>go_slice (rg_entries r) (nat (from - rg_first r)) (nat (to - rg_first r)). int (length e))"

section \<open>Specification\<close>

definition ring_lookup :: "ring \<Rightarrow> int \<Rightarrow> bytes option" where
  "ring_lookup r s =
     (if rg_first r \<le> s \<and> s < ring_next r then Some (rg_entries r ! nat (s - rg_first r)) else None)"

definition ring_wf :: "ring \<Rightarrow> bool" where
  "ring_wf r \<longleftrightarrow> 0 \<le> rg_first r \<and> 0 \<le> rg_limit r
     \<and> rg_bytes r = (\<Sum>e\<leftarrow>rg_entries r. int (length e))"

text \<open>The bytes of the entries from \<open>keep\<close> on, which the caller of \<^verbatim>\<open>trim\<close> passes as \<open>unsent\<close>.\<close>

definition unsent_from :: "ring \<Rightarrow> int \<Rightarrow> int" where
  "unsent_from r keep = ring_bytesBetween r keep (ring_next r)"

text \<open>The ring without its \<open>n\<close> oldest entries.\<close>

definition ring_drop :: "ring \<Rightarrow> nat \<Rightarrow> ring" where
  "ring_drop r n =
     r\<lparr>rg_entries := drop n (rg_entries r), rg_first := rg_first r + int n,
       rg_bytes := rg_bytes r - (\<Sum>e\<leftarrow>take n (rg_entries r). int (length e))\<rparr>"

definition demo_ring :: ring where
  "demo_ring = \<lparr>rg_first = 0, rg_entries = replicate 10 (replicate 10 0), rg_bytes = 100,
     rg_limit = 25, rg_held = False, rg_hold = 0\<rparr>"

section \<open>The trim loop\<close>

lemma trim_loop_spec:
  assumes "trim_loop r keep unsent es n b = (m, b')"
  shows "n \<le> m \<and> m - n \<le> length es \<and> b' = b - (\<Sum>e\<leftarrow>take (m - n) es. int (length e))
    \<and> (m > n \<longrightarrow> rg_first r + int m \<le> keep)"
  using assms
proof (induction r keep unsent es n b rule: trim_loop.induct)
  case (1 r keep unsent n b)
  then show ?case by simp
next
  case (2 r keep unsent e es n b)
  show ?case
  proof (cases "(b - unsent > rg_limit r \<and> rg_first r + int n < keep)
      \<and> \<not> (rg_held r \<and> rg_first r + int n \<ge> rg_hold r \<and> b - unsent \<le> 2 * rg_limit r)")
    case True
    with "2.prems" have "trim_loop r keep unsent es (n + 1) (b - int (length e)) = (m, b')" by auto
    with "2.IH" True have IH: "n + 1 \<le> m" "m - (n + 1) \<le> length es"
      "b' = b - int (length e) - (\<Sum>e\<leftarrow>take (m - (n + 1)) es. int (length e))"
      "m > n + 1 \<longrightarrow> rg_first r + int m \<le> keep"
      by auto
    then have "take (m - n) (e # es) = e # take (m - (n + 1)) es"
      by (simp add: take_Cons')
    with IH True show ?thesis by (cases "m = n + 1") auto
  next
    case False
    with "2.prems" have "m = n" "b' = b" by (auto split: if_splits)
    then show ?thesis by simp
  qed
qed

text \<open>Why the loop stopped, and what held just before the last drop.\<close>

lemma trim_loop_stop:
  assumes "trim_loop r keep unsent es n b = (m, b')"
  shows "m - n = length es \<or> b' - unsent \<le> rg_limit r \<or> keep \<le> rg_first r + int m
    \<or> (rg_held r \<and> rg_hold r \<le> rg_first r + int m \<and> b' - unsent \<le> 2 * rg_limit r)"
  using assms
proof (induction r keep unsent es n b rule: trim_loop.induct)
  case (2 r keep unsent e es n b)
  from "2.prems" trim_loop_spec [of r keep unsent es "n + 1" "b - int (length e)" m b'] "2.IH"
  show ?case by (auto split: if_splits)
qed auto

lemma trim_loop_needed:
  assumes "trim_loop r keep unsent es n b = (m, b')" and "n \<le> i" and "i < m"
  shows "rg_first r + int i < keep
    \<and> b - unsent - (\<Sum>e\<leftarrow>take (i - n) es. int (length e)) > rg_limit r
    \<and> (rg_held r \<and> rg_hold r \<le> rg_first r + int i
         \<longrightarrow> b - unsent - (\<Sum>e\<leftarrow>take (i - n) es. int (length e)) > 2 * rg_limit r)"
  using assms
proof (induction r keep unsent es n b rule: trim_loop.induct)
  case (2 r keep unsent e es n b)
  have go: "b - unsent > rg_limit r" "rg_first r + int n < keep"
    "\<not> (rg_held r \<and> rg_first r + int n \<ge> rg_hold r \<and> b - unsent \<le> 2 * rg_limit r)"
    "trim_loop r keep unsent es (n + 1) (b - int (length e)) = (m, b')"
    using "2.prems" by (auto split: if_splits)
  show ?case
  proof (cases "i = n")
    case True
    with go show ?thesis by auto
  next
    case False
    then have "take (i - n) (e # es) = e # take (i - (n + 1)) es"
      using "2.prems"(2) by (simp add: take_Cons')
    with False "2.IH" go "2.prems" show ?thesis by (auto simp: algebra_simps)
  qed
qed auto

section \<open>The ring implements the interface\<close>

lemma ring_trim_eq:
  "\<exists>n. ring_trim r keep unsent = ring_drop r n \<and> n \<le> length (rg_entries r)
     \<and> (n > 0 \<longrightarrow> rg_first r + int n \<le> keep)
     \<and> trim_loop r keep unsent (rg_entries r) 0 (rg_bytes r) = (n, rg_bytes (ring_drop r n))"
proof -
  obtain n b where t: "trim_loop r keep unsent (rg_entries r) 0 (rg_bytes r) = (n, b)"
    by (cases "trim_loop r keep unsent (rg_entries r) 0 (rg_bytes r)") auto
  from trim_loop_spec [OF t] t show ?thesis
    by (intro exI [of _ n]) (auto simp: ring_trim_def ring_drop_def)
qed

lemma ring_drop_fields [simp]:
  "rg_limit (ring_drop r n) = rg_limit r" "rg_held (ring_drop r n) = rg_held r"
  "rg_hold (ring_drop r n) = rg_hold r" "rg_first (ring_drop r n) = rg_first r + int n"
  "rg_entries (ring_drop r n) = drop n (rg_entries r)"
  by (simp_all add: ring_drop_def)

lemma ring_next_drop [simp]: "n \<le> length (rg_entries r) \<Longrightarrow> ring_next (ring_drop r n) = ring_next r"
  by (simp add: ring_next_def)

lemma ring_wf_drop: "ring_wf r \<Longrightarrow> ring_wf (ring_drop r n)"
  using sum_list_take_drop [of "\<lambda>e. int (length e)" n "rg_entries r"]
  by (simp add: ring_wf_def ring_drop_def)

lemma ring_lookup_drop:
  "n \<le> length (rg_entries r) \<Longrightarrow>
   ring_lookup (ring_drop r n) s = (if rg_first r + int n \<le> s then ring_lookup r s else None)"
proof -
  have "nat (s - rg_first r) = n + nat (s - (rg_first r + int n))" if "rg_first r + int n \<le> s"
    using that by simp
  then show "n \<le> length (rg_entries r) \<Longrightarrow> ?thesis"
    by (auto simp: ring_lookup_def ring_next_def)
qed

lemma ring_wf_push [inv_rules]: "ring_wf r \<Longrightarrow> ring_wf (ring_push r d)"
  by (simp add: ring_wf_def ring_push_def)

lemma ring_wf_trim [inv_rules]: "ring_wf r \<Longrightarrow> ring_wf (ring_trim r keep unsent)"
  using ring_trim_eq [of r keep unsent] ring_wf_drop by auto

lemma ring_trim_fields [simp]:
  "rg_limit (ring_trim r k u) = rg_limit r" "rg_held (ring_trim r k u) = rg_held r"
  "rg_hold (ring_trim r k u) = rg_hold r"
  by (simp_all add: ring_trim_def split: prod.splits)

lemma ring_next_trim [simp]: "ring_next (ring_trim r keep unsent) = ring_next r"
  using ring_trim_eq [of r keep unsent] by auto

lemma ring_lookup_trim:
  "ring_lookup (ring_trim r keep unsent) s =
     (if rg_first (ring_trim r keep unsent) \<le> s then ring_lookup r s else None)"
  using ring_trim_eq [of r keep unsent] by (auto simp: ring_lookup_drop)

lemma ring_trim_first:
  "rg_first r \<le> rg_first (ring_trim r keep unsent)
   \<and> rg_first (ring_trim r keep unsent) \<le> max (rg_first r) (min keep (ring_next r))"
proof -
  obtain n where "ring_trim r keep unsent = ring_drop r n" "n \<le> length (rg_entries r)"
    "n > 0 \<longrightarrow> rg_first r + int n \<le> keep"
    using ring_trim_eq by blast
  then show ?thesis by (cases "n = 0") (auto simp: ring_next_def)
qed

text \<open>Offsets into the entries for a range of sequence numbers inside the window.\<close>

lemma window_offsets:
  assumes "rg_first r \<le> a" and "a \<le> b" and "b \<le> ring_next r"
  obtains i j where "a = rg_first r + int i" and "b = rg_first r + int j" and "i \<le> j"
    and "j \<le> length (rg_entries r)"
proof (rule that [of "nat (a - rg_first r)" "nat (b - rg_first r)"])
  show "nat (b - rg_first r) \<le> length (rg_entries r)" using assms by (simp add: ring_next_def)
qed (use assms in simp_all)

lemma length_ring_range:
  assumes "rg_first r \<le> a" and "a \<le> b" and "b \<le> ring_next r"
  shows "length (ring_appendRange r [] a b) = nat (b - a)
     \<and> (\<forall>i < nat (b - a). ring_lookup r (a + int i) = Some (ring_appendRange r [] a b ! i))"
proof -
  obtain i j where ij: "a = rg_first r + int i" "b = rg_first r + int j" "i \<le> j"
    "j \<le> length (rg_entries r)"
    using window_offsets [OF assms] by blast
  have "nat (int i + int k) = i + k" for k by simp
  with ij show ?thesis
    by (auto simp: ring_appendRange_def go_slice_def ring_lookup_def ring_next_def)
qed

lemma bytesBetween_offsets:
  "i \<le> j \<Longrightarrow> j \<le> length (rg_entries r) \<Longrightarrow>
   ring_bytesBetween r (rg_first r + int i) (rg_first r + int j) =
     (\<Sum>e\<leftarrow>take j (rg_entries r). int (length e)) - (\<Sum>e\<leftarrow>take i (rg_entries r). int (length e))"
proof -
  assume ij: "i \<le> j" "j \<le> length (rg_entries r)"
  have "take j (rg_entries r) = take i (rg_entries r) @ take (j - i) (drop i (rg_entries r))"
    using ij by (simp add: take_append_take_drop)
  then have "map (\<lambda>e. int (length e)) (take j (rg_entries r)) =
      map (\<lambda>e. int (length e)) (take i (rg_entries r))
      @ map (\<lambda>e. int (length e)) (take (j - i) (drop i (rg_entries r)))"
    by (metis map_append)
  then show ?thesis by (simp add: ring_bytesBetween_def go_slice_def)
qed

lemma bytesBetween_split:
  assumes "rg_first r \<le> a" and "a \<le> b" and "b \<le> c" and "c \<le> ring_next r"
  shows "ring_bytesBetween r a c = ring_bytesBetween r a b + ring_bytesBetween r b c"
proof -
  obtain i j where ij: "a = rg_first r + int i" "b = rg_first r + int j" "i \<le> j"
    "j \<le> length (rg_entries r)"
    using window_offsets [of r a b] assms by auto
  obtain k where k: "c = rg_first r + int k" "j \<le> k" "k \<le> length (rg_entries r)"
    using window_offsets [of r b c] assms ij by auto
  show ?thesis using ij k by (simp add: bytesBetween_offsets)
qed

lemma bytesBetween_nonneg: "0 \<le> ring_bytesBetween r a b"
  unfolding ring_bytesBetween_def by (rule sum_list_lengths_nonneg)

lemma bytesBetween_same [simp]: "ring_bytesBetween r a a = 0"
  by (simp add: ring_bytesBetween_def go_slice_def)

lemma ring_bytes_all: "ring_wf r \<Longrightarrow> ring_bytesBetween r (rg_first r) (ring_next r) = rg_bytes r"
  by (simp add: ring_bytesBetween_def go_slice_def ring_next_def ring_wf_def)

lemma bytesBetween_drop:
  assumes "n \<le> length (rg_entries r)" and "rg_first r + int n \<le> a" and "a \<le> b" and "b \<le> ring_next r"
  shows "ring_bytesBetween (ring_drop r n) a b = ring_bytesBetween r a b"
proof -
  obtain i j where ij: "a = rg_first r + int i" "b = rg_first r + int j" "i \<le> j"
    "j \<le> length (rg_entries r)"
    using window_offsets [of r a b] assms by auto
  with assms(2) have "n \<le> i" by simp
  then have "nat (int j - int n) = j - n" "nat (int i - int n) = i - n" using ij(3) by auto
  with ij \<open>n \<le> i\<close> show ?thesis by (simp add: ring_bytesBetween_def go_slice_def)
qed

lemma bytesBetween_trim:
  assumes "rg_first (ring_trim r k u) \<le> a" and "a \<le> b" and "b \<le> ring_next r"
  shows "ring_bytesBetween (ring_trim r k u) a b = ring_bytesBetween r a b"
  using ring_trim_eq [of r k u] assms bytesBetween_drop by auto

lemma bytesBetween_push:
  assumes "rg_first r \<le> a" and "a \<le> ring_next r"
  shows "ring_bytesBetween (ring_push r d) a (ring_next r + 1) =
    ring_bytesBetween r a (ring_next r) + int (length d)"
proof -
  obtain i j where ij: "a = rg_first r + int i" "ring_next r = rg_first r + int j" "i \<le> j"
    "j \<le> length (rg_entries r)"
    using window_offsets [of r a "ring_next r"] assms by auto
  then have "j = length (rg_entries r)" by (simp add: ring_next_def)
  with ij show ?thesis
    by (simp add: ring_bytesBetween_def go_slice_def ring_push_def ring_next_def nat_add_distrib
        Suc_diff_le flip: of_nat_Suc)
qed

interpretation ring: replay_log ring_next ring_lookup ring_push ring_trim ring_since ring_wf
proof
  fix r :: ring and d and k u s a b xs
  assume wf: "ring_wf r"
  show "ring_wf (ring_push r d)" "ring_wf (ring_trim r k u)"
    using wf by (auto intro: inv_rules)
  show "ring_next (ring_push r d) = ring_next r + 1"
    by (simp add: ring_next_def ring_push_def)
  show "ring_lookup (ring_push r d) = (ring_lookup r)(ring_next r \<mapsto> d)"
    by (rule ext) (auto simp: ring_lookup_def ring_next_def ring_push_def nth_append)
  show "ring_next (ring_trim r k u) = ring_next r" by simp
  show "ring_lookup (ring_trim r k u) s = Some d \<Longrightarrow> ring_lookup r s = Some d"
    by (auto simp: ring_lookup_trim split: if_splits)
  show "k \<le> s \<Longrightarrow> ring_lookup (ring_trim r k u) s = ring_lookup r s"
    using ring_trim_first [of r k u]
    by (auto simp: ring_lookup_trim) (auto simp: ring_lookup_def)
  show "ring_lookup r s = Some d \<Longrightarrow> 0 \<le> s \<and> s < ring_next r"
    using wf by (auto simp: ring_lookup_def ring_wf_def split: if_splits)
  assume "ring_since r a b = Some xs"
  then have r: "rg_first r \<le> a" "a \<le> b" "b \<le> ring_next r" "xs = ring_appendRange r [] a b"
    by (auto simp: ring_since_def split: if_splits)
  with length_ring_range [of r a b] wf
  show "0 \<le> a \<and> a \<le> b \<and> b \<le> ring_next r \<and> length xs = nat (b - a)
      \<and> (\<forall>i < length xs. ring_lookup r (a + int i) = Some (xs ! i))"
    by (auto simp: ring_wf_def)
qed

section \<open>Properties\<close>

lemma trim_written_bytes:
  assumes "ring_wf r" and "rg_first r \<le> s" and "s \<le> keep" and "keep \<le> ring_next r"
    and "s = rg_first r + int i"
  shows "rg_bytes r - unsent_from r keep - (\<Sum>e\<leftarrow>take i (rg_entries r). int (length e))
    = ring_bytesBetween r s keep"
proof -
  have i: "i \<le> length (rg_entries r)" using assms by (simp add: ring_next_def)
  have "rg_bytes r = ring_bytesBetween r (rg_first r) s + ring_bytesBetween r s keep
      + unsent_from r keep"
    using assms bytesBetween_split [of r "rg_first r" s keep]
      bytesBetween_split [of r "rg_first r" keep "ring_next r"] ring_bytes_all [of r]
    by (simp add: unsent_from_def)
  moreover have "ring_bytesBetween r (rg_first r) s = (\<Sum>e\<leftarrow>take i (rg_entries r). int (length e))"
    using bytesBetween_offsets [of 0 i r] i assms(5) by simp
  ultimately show ?thesis by simp
qed

text \<open>What \<^verbatim>\<open>trim\<close> leaves of the written packets.\<close>

lemma ring_trim_bound:
  assumes "ring_wf r" and "rg_first r \<le> keep" and "keep \<le> ring_next r"
  defines "r' \<equiv> ring_trim r keep (unsent_from r keep)"
  shows "rg_bytes r' - unsent_from r keep = ring_bytesBetween r' (rg_first r') keep"
    and "ring_bytesBetween r' (rg_first r') keep \<le> rg_limit r
       \<or> rg_held r \<and> rg_hold r \<le> rg_first r'
          \<and> ring_bytesBetween r' (rg_first r') keep \<le> 2 * rg_limit r"
proof -
  let ?u = "unsent_from r keep"
  obtain n where n: "r' = ring_drop r n" "n \<le> length (rg_entries r)"
    "n > 0 \<longrightarrow> rg_first r + int n \<le> keep"
    and loop: "trim_loop r keep ?u (rg_entries r) 0 (rg_bytes r) = (n, rg_bytes (ring_drop r n))"
    using ring_trim_eq unfolding r'_def by blast
  have le: "rg_first r + int n \<le> keep" using n(3) assms(2) by (cases "n = 0") auto
  have lim: "0 \<le> rg_limit r" using assms(1) by (simp add: ring_wf_def)
  show after: "rg_bytes r' - ?u = ring_bytesBetween r' (rg_first r') keep"
    using trim_written_bytes [of r "rg_first r + int n" keep n] assms(1,3) le
      bytesBetween_drop [of n r "rg_first r + int n" keep] n(1,2)
    by (simp add: ring_drop_def)
  have "n = length (rg_entries r) \<or> keep \<le> rg_first r + int n \<Longrightarrow>
      ring_bytesBetween r' (rg_first r') keep = 0"
    using le n(1) assms(3) by (auto simp: ring_next_def)
  then show "ring_bytesBetween r' (rg_first r') keep \<le> rg_limit r
       \<or> rg_held r \<and> rg_hold r \<le> rg_first r'
          \<and> ring_bytesBetween r' (rg_first r') keep \<le> 2 * rg_limit r"
    using trim_loop_stop [OF loop] after n(1) lim by auto
qed

lemma ring_trim_dropped:
  assumes "ring_wf r" and "rg_first r \<le> keep" and "keep \<le> ring_next r"
    and "rg_first r \<le> s" and "s < rg_first (ring_trim r keep (unsent_from r keep))"
  shows "ring_bytesBetween r s keep >
    (if rg_held r \<and> rg_hold r \<le> s then 2 * rg_limit r else rg_limit r)"
proof -
  let ?u = "unsent_from r keep"
  obtain n where n: "ring_trim r keep ?u = ring_drop r n" "n > 0 \<longrightarrow> rg_first r + int n \<le> keep"
    and loop: "trim_loop r keep ?u (rg_entries r) 0 (rg_bytes r) = (n, rg_bytes (ring_drop r n))"
    using ring_trim_eq by blast
  from assms(4,5) n(1) obtain i where i: "s = rg_first r + int i" "i < n"
    by (metis add_less_cancel_left of_nat_less_iff ring_drop_fields(4) zle_iff_zadd)
  with trim_loop_needed [OF loop, of i] trim_written_bytes [of r s keep i] assms(1,3,4) n(2)
  show ?thesis by auto
qed

text \<open>
  C25. \<^verbatim>\<open>trim\<close> in full: called with the written position and the size of the backlog past it, it
  keeps every packet from its new start on, unchanged, and never one it must keep (nothing at
  or after \<open>keep\<close> goes); afterwards the written packets it still holds are within the
  limit, or within twice the limit when only unacknowledged held packets are left; and it dropped
  nothing needlessly: from each dropped packet on, the written packets exceeded the limit,
  and exceeded twice the limit if that packet was held.
\<close>

theorem ring_trim_correct:
  assumes "ring_wf r" and "rg_first r \<le> keep" and "keep \<le> ring_next r"
  defines "r' \<equiv> ring_trim r keep (unsent_from r keep)"
  shows "rg_first r \<le> rg_first r' \<and> rg_first r' \<le> keep \<and> ring_next r' = ring_next r
    \<and> (\<forall>s. ring_lookup r' s = (if rg_first r' \<le> s then ring_lookup r s else None))
    \<and> (ring_bytesBetween r' (rg_first r') keep \<le> rg_limit r
       \<or> rg_held r \<and> rg_hold r \<le> rg_first r'
          \<and> ring_bytesBetween r' (rg_first r') keep \<le> 2 * rg_limit r)
    \<and> (\<forall>s. rg_first r \<le> s \<longrightarrow> s < rg_first r' \<longrightarrow>
         ring_bytesBetween r s keep >
           (if rg_held r \<and> rg_hold r \<le> s then 2 * rg_limit r else rg_limit r))"
proof -
  have "rg_first r' \<le> keep" "rg_first r \<le> rg_first r'"
    using ring_trim_first [of r keep "unsent_from r keep"] assms(2,3) by (auto simp: r'_def)
  moreover have "ring_lookup r' s = (if rg_first r' \<le> s then ring_lookup r s else None)" for s
    unfolding r'_def by (rule ring_lookup_trim)
  ultimately show ?thesis
    using ring_trim_bound(2) [OF assms(1-3)] ring_trim_dropped [OF assms(1-3)]
    by (simp add: r'_def)
qed

theorem ring_trim_correct_witness:
  "rg_first (ring_trim demo_ring 4 60) = 2 \<and> unsent_from demo_ring 4 = 60
    \<and> ring_bytesBetween demo_ring 1 4 > 25"
proof -
  have h: "ring_wf demo_ring" "rg_first demo_ring \<le> 4" "4 \<le> ring_next demo_ring"
    by code_simp+
  have u: "unsent_from demo_ring 4 = 60" by code_simp
  have f: "rg_first (ring_trim demo_ring 4 60) = 2" by code_simp
  from ring_trim_correct [OF h] have "ring_bytesBetween demo_ring 1 4 > 25"
    unfolding u f by (auto simp: demo_ring_def)
  with u f show ?thesis by simp
qed

text \<open>
  The recover window: \<^verbatim>\<open>since\<close> answers exactly when the peer's position lies in the retained
  window, and then with the packets the peer is missing, as they were first sealed: the slice
  of everything ever pushed.
\<close>

lemma ring_since_correct:
  assumes "ring_wf r" and "ring.logs r L"
  shows "(case ring_since r from (ring_next r) of
            None \<Rightarrow> from < rg_first r \<or> int (length L) < from
          | Some xs \<Rightarrow> rg_first r \<le> from \<and> from \<le> int (length L) \<and> xs = drop (nat from) L)"
proof (cases "ring_since r from (ring_next r)")
  case None
  then show ?thesis using assms(2) by (auto simp: ring_since_def ring.logs_def split: if_splits)
next
  case (Some xs)
  have "ring_next r = int (length L)" using assms(2) by (simp add: ring.logs_def)
  with ring.since_logs [OF assms Some] Some show ?thesis
    by (auto simp: ring_since_def split: if_splits)
qed

lemma ring_since_correct_witness:
  "ring_since (ring_push (ring_push \<lparr>rg_first = 0, rg_entries = [], rg_bytes = 0, rg_limit = 9,
      rg_held = False, rg_hold = 0\<rparr> [1]) [2]) 1 2 = Some [[2]]"
proof -
  let ?r0 = "\<lparr>rg_first = 0, rg_entries = [], rg_bytes = 0, rg_limit = 9, rg_held = False, rg_hold = 0\<rparr>"
  have wf: "ring_wf ?r0" by (simp add: ring_wf_def)
  have l0: "ring.logs ?r0 []" by (simp add: ring.logs_def ring_next_def ring_lookup_def)
  have l2: "ring.logs (ring_push (ring_push ?r0 [1]) [2]) [[1], [2]]"
    using ring.logs_push [OF ring_wf_push [OF wf] ring.logs_push [OF wf l0]] by simp
  have "ring_next (ring_push (ring_push ?r0 [1]) [2]) = 2" by (simp add: ring_next_def ring_push_def)
  with ring_since_correct [OF ring_wf_push [OF ring_wf_push [OF wf]] l2, of 1] show ?thesis
    by (auto simp: ring_push_def split: option.splits)
qed

end
