(* ===== verification/ET_Conn.thy ===== *)
theory ET_Conn
  imports ET_Wire ET_Seal ET_Ring
begin

text \<open>
  \<^verbatim>\<open>internal/etcp/conn.go\<close> and \<^verbatim>\<open>internal/etcp/link.go\<close>: the state of a \<^verbatim>\<open>Conn\<close> and what its
  callers and the three goroutines of a link (reader, writer, watcher) do to it.

  Each critical section under \<^verbatim>\<open>c.mu\<close> and each pass of a goroutine's loop is one function on the
  state. Where the code waits in a \<^verbatim>\<open>select\<close>, the function takes the case that was chosen as an
  argument, so every schedule is covered. A channel of capacity 1 that carries no data is a
  \<open>bool\<close>; \<^verbatim>\<open>inbox\<close> is its queued packets; a context is the cause it ended with, if it did.
\<close>

section \<open>State\<close>

definition inboxSize :: nat where "inboxSize = 64"

definition maxPayload :: nat where "maxPayload = MaxFrameSize - 2 - secretbox_Overhead"

definition writeBufSize :: nat where "writeBufSize = 65536"

definition maxBatchEntries :: nat where
  "maxBatchEntries = writeBufSize div (4 + 2 + secretbox_Overhead) + 1"

definition progressChunk :: nat where "progressChunk = 4096"

definition errClosed :: go_error where "errClosed = NetErrClosed"
definition errLinkDead :: go_error where "errLinkDead = ErrLinkDead"

record conn =
  cn_addr :: string
  cn_id :: string
  cn_keepAlive :: int
  cn_probe :: packet
  cn_cause :: "go_error option"
  cn_out :: stream
  cn_ring :: ring
  cn_flushed :: int
  cn_unsent :: int
  cn_lastProbe :: int
  cn_in :: stream
  cn_recvSeq :: int
  cn_pending :: "packet list"
  cn_readerDone :: bool
  cn_inbox :: "packet list"
  cn_wake :: bool
  cn_space :: bool

record link =
  lk_alive :: bool
  lk_delivering :: bool

definition newLink :: link where
  "newLink = \<lparr>lk_alive = False, lk_delivering = False\<rparr>"

text \<open>A \<^verbatim>\<open>CancelCauseFunc\<close> keeps the first cause it is given.\<close>

definition conn_cancel :: "conn \<Rightarrow> go_error \<Rightarrow> conn" where
  "conn_cancel c e = (case cn_cause c of None \<Rightarrow> c\<lparr>cn_cause := Some e\<rparr> | Some _ \<Rightarrow> c)"

definition conn_fail :: "conn \<Rightarrow> go_error \<Rightarrow> conn \<times> go_error" where
  "conn_fail c e = (conn_cancel c e, e)"

section \<open>The caller's side (conn.go)\<close>

definition enqueueLocked :: "secretbox \<Rightarrow> conn \<Rightarrow> packet \<Rightarrow> conn" where
  "enqueueLocked sb c p =
     (case Stream_Seal sb (cn_out c) (AppendPacket [] True (pkt_header p) []) (pkt_payload p) of
        (s', data) \<Rightarrow>
          c\<lparr>cn_out := s', cn_ring := ring_push (cn_ring c) data,
            cn_unsent := cn_unsent c + int (length data)\<rparr>)"

datatype write_result = Queued | WriteFailed go_error | WouldBlock

text \<open>The checks of \<^verbatim>\<open>WritePacket\<close> before its loop; \<open>ctx\<close> is the cause of the caller's context.\<close>

definition WritePacket_enter :: "go_error option \<Rightarrow> packet \<Rightarrow> go_error option" where
  "WritePacket_enter ctx p =
     (if maxPayload < length (pkt_payload p)
      then Some (Wrap ''etcp: packet payload of bytes'' [ErrTooLarge])
      else ctx)"

text \<open>One pass of its loop.\<close>

definition WritePacket_pass :: "secretbox \<Rightarrow> conn \<Rightarrow> packet \<Rightarrow> conn \<times> write_result" where
  "WritePacket_pass sb c p =
     (case cn_cause c of
        Some e \<Rightarrow> (c, WriteFailed e)
      | None \<Rightarrow>
          if cn_unsent c \<le> rg_limit (cn_ring c) then
            (let c1 = enqueueLocked sb c p;
                 room = (cn_unsent c1 \<le> rg_limit (cn_ring c1));
                 c2 = c1\<lparr>cn_wake := True\<rparr>;
                 c3 = (if room then c2\<lparr>cn_space := True\<rparr> else c2)
             in (c3, Queued))
          else (c, WouldBlock))"

datatype wait_event = GotSpace | CallerEnded go_error | ConnEnded go_error

definition WritePacket_wait :: "conn \<Rightarrow> wait_event \<Rightarrow> conn \<times> go_error option" where
  "WritePacket_wait c ev =
     (case ev of
        GotSpace \<Rightarrow> (c\<lparr>cn_space := False\<rparr>, None)
      | CallerEnded e \<Rightarrow> (c, Some e)
      | ConnEnded e \<Rightarrow> (c, Some e))"

text \<open>
  The whole call, over the wake-ups it gets: each is the event that ended the wait and the state
  other goroutines left at that moment. With no further wake-up the call is still blocked.
\<close>

fun WritePacket_loop ::
  "secretbox \<Rightarrow> conn \<Rightarrow> packet \<Rightarrow> (wait_event \<times> conn) list \<Rightarrow> conn \<times> write_result" where
  "WritePacket_loop sb c p [] = WritePacket_pass sb c p"
| "WritePacket_loop sb c p ((ev, c1) # wakes) =
     (case WritePacket_pass sb c p of
        (c', WouldBlock) \<Rightarrow>
          (case WritePacket_wait c1 ev of
             (c2, Some e) \<Rightarrow> (c2, WriteFailed e)
           | (c2, None) \<Rightarrow> WritePacket_loop sb c2 p wakes)
      | done \<Rightarrow> done)"

definition WritePacket ::
  "secretbox \<Rightarrow> go_error option \<Rightarrow> conn \<Rightarrow> packet \<Rightarrow> (wait_event \<times> conn) list \<Rightarrow> conn \<times> write_result" where
  "WritePacket sb ctx c p wakes =
     (case WritePacket_enter ctx p of
        Some e \<Rightarrow> (c, WriteFailed e)
      | None \<Rightarrow> WritePacket_loop sb c p wakes)"

text \<open>
  \<^verbatim>\<open>ReadPacket\<close> with the \<^verbatim>\<open>select\<close> case that was taken; \<open>None\<close> when that case is not ready. Once the
  \<^verbatim>\<open>Conn\<close> has ended, the call waits for \<^verbatim>\<open>readerDone\<close> and then drains inbox and pending; if the
  caller's context ends during that wait, the outcome is that of \<open>CallerDone\<close>.
\<close>

datatype read_choice = TakeInbox | CallerDone | ConnDone

definition ReadPacket ::
  "go_error option \<Rightarrow> read_choice \<Rightarrow> conn \<Rightarrow> (conn \<times> packet result) option" where
  "ReadPacket ctx ch c =
     (case ch of
        TakeInbox \<Rightarrow>
          (case cn_inbox c of [] \<Rightarrow> None | p # ps \<Rightarrow> Some (c\<lparr>cn_inbox := ps\<rparr>, Inr p))
      | CallerDone \<Rightarrow> (case ctx of None \<Rightarrow> None | Some e \<Rightarrow> Some (c, Inl e))
      | ConnDone \<Rightarrow>
          (case cn_cause c of
             None \<Rightarrow> None
           | Some e \<Rightarrow>
               if \<not> cn_readerDone c then None
               else (case cn_inbox c of
                       p # ps \<Rightarrow> Some (c\<lparr>cn_inbox := ps\<rparr>, Inr p)
                     | [] \<Rightarrow>
                         (case cn_pending c of
                            p # ps \<Rightarrow> Some (c\<lparr>cn_pending := ps\<rparr>, Inr p)
                          | [] \<Rightarrow> Some (c, Inl e)))))"

definition conn_Close :: "conn \<Rightarrow> conn" where
  "conn_Close c = (conn_cancel c errClosed)\<lparr>cn_readerDone := True\<rparr>"

definition sealedNone :: "conn \<Rightarrow> bool" where
  "sealedNone c = (ring_next (cn_ring c) = 0)"

definition probeOnce :: "secretbox \<Rightarrow> conn \<Rightarrow> conn" where
  "probeOnce sb c =
     (if cn_flushed c \<le> cn_lastProbe c then c
      else (enqueueLocked sb (c\<lparr>cn_lastProbe := ring_next (cn_ring c)\<rparr>) (cn_probe c))\<lparr>cn_wake := True\<rparr>)"

definition releaseLocked :: "conn \<Rightarrow> conn \<times> bool" where
  "releaseLocked c =
     (let r = ring_trim (cn_ring c) (cn_flushed c) (cn_unsent c)
      in (c\<lparr>cn_ring := r\<rparr>, cn_unsent c \<le> rg_limit r))"

section \<open>The reader (link.go)\<close>

definition handOver_enter :: "link \<Rightarrow> link" where
  "handOver_enter l = l\<lparr>lk_delivering := True\<rparr>"

text \<open>
  \<^verbatim>\<open>handOver\<close> waits with the link marked as delivering (\<open>handOver_enter\<close>), which is what the
  watcher sees meanwhile, and unmarks it on return. \<open>hand\<close> is \<open>None\<close> when the send on \<^verbatim>\<open>inbox\<close> was taken, which needs room, and the
  link's cause when the link ended first. The outer \<open>None\<close>: neither case is ready.
\<close>

definition handOver ::
  "conn \<Rightarrow> link \<Rightarrow> packet \<Rightarrow> go_error option \<Rightarrow> (conn \<times> link \<times> go_error option) option" where
  "handOver c l p hand =
     (let l' = (handOver_enter l)\<lparr>lk_delivering := False\<rparr> in
      case hand of
        None \<Rightarrow>
          if length (cn_inbox c) < inboxSize
          then Some (c\<lparr>cn_inbox := cn_inbox c @ [p]\<rparr>, l', None) else None
      | Some e \<Rightarrow> Some (c, l', Some e))"

definition releaseHold :: "conn \<Rightarrow> conn" where
  "releaseHold c =
     (if rg_held (cn_ring c) then
        (let r = (cn_ring c)\<lparr>rg_held := False\<rparr>
         in c\<lparr>cn_ring := ring_trim r (cn_flushed c) (cn_unsent c)\<rparr>)
      else c)"

definition deliver ::
  "secretbox \<Rightarrow> conn \<Rightarrow> link \<Rightarrow> bytes \<Rightarrow> go_error option \<Rightarrow> (conn \<times> link \<times> go_error option) option" where
  "deliver sb c l b hand =
     (if MaxFrameSize < length b then
        (case conn_fail c (Wrap ''packet of bytes'' [ErrIntegrity, ErrTooLarge]) of
           (c', e) \<Rightarrow> Some (c', l, Some e))
      else
        (case ParsePacket b of
           Inl e \<Rightarrow> (case conn_fail c (Wrap '''' [ErrIntegrity, e]) of (c', e') \<Rightarrow> Some (c', l, Some e'))
         | Inr (encrypted, h, payload) \<Rightarrow>
             if \<not> encrypted then
               (case conn_fail c (Wrap ''unencrypted packet'' [ErrIntegrity]) of
                  (c', e) \<Rightarrow> Some (c', l, Some e))
             else
               (case Stream_Open sb (cn_in c) [] payload of
                  (s', Inl e) \<Rightarrow>
                    (case conn_fail (c\<lparr>cn_in := s'\<rparr>) (Wrap '''' [ErrIntegrity, e]) of
                       (c', e') \<Rightarrow> Some (c', l, Some e'))
                | (s', Inr plain) \<Rightarrow>
                    (let c1 = c\<lparr>cn_in := s', cn_recvSeq := cn_recvSeq c + 1\<rparr>;
                         p = \<lparr>pkt_header = h, pkt_payload = plain\<rparr>
                     in case handOver c1 l p hand of
                          None \<Rightarrow> None
                        | Some (c2, l2, None) \<Rightarrow> Some (c2, l2, None)
                        | Some (c2, l2, Some e) \<Rightarrow>
                            Some (c2\<lparr>cn_pending := cn_pending c2 @ [p]\<rparr>, l2, Some e)))))"

text \<open>
  The local state of \<^verbatim>\<open>readLoop\<close>: the catchup entries not yet delivered, the stream, whether the
  hold was released, and the capacity of the reused frame buffer. One pass of whichever of its
  three loops is running: pending packets first, then the catchup, then frames.
\<close>

record link_reader =
  rd_catchup :: "bytes list"
  rd_stream :: reader
  rd_released :: bool
  rd_cap :: nat

definition newLinkReader :: "bytes list \<Rightarrow> reader \<Rightarrow> link_reader" where
  "newLinkReader catchup r = \<lparr>rd_catchup = catchup, rd_stream = r, rd_released = False, rd_cap = 0\<rparr>"

definition readLoop_pass ::
  "secretbox \<Rightarrow> conn \<Rightarrow> link \<Rightarrow> link_reader \<Rightarrow> go_error option
     \<Rightarrow> (conn \<times> link \<times> link_reader \<times> go_error option) option" where
  "readLoop_pass sb c l rd hand =
     (case cn_pending c of
        p # ps \<Rightarrow>
          (case handOver c l p hand of
             None \<Rightarrow> None
           | Some (c', l', Some e) \<Rightarrow> Some (c', l', rd, Some e)
           | Some (c', l', None) \<Rightarrow> Some (c'\<lparr>cn_pending := ps\<rparr>, l', rd, None))
      | [] \<Rightarrow>
          (case rd_catchup rd of
             b # bs \<Rightarrow>
               (case deliver sb c l b hand of
                  None \<Rightarrow> None
                | Some (c', l', Some e) \<Rightarrow> Some (c', l', rd, Some e)
                | Some (c', l', None) \<Rightarrow> Some (c', l', rd\<lparr>rd_catchup := bs\<rparr>, None))
           | [] \<Rightarrow>
               (case ReadFrame (rd_stream rd) (rd_cap rd) of
                  (Inl e, r') \<Rightarrow>
                    if errors_Is e ErrTooLarge then
                      (case conn_fail c (Wrap '''' [ErrIntegrity, e]) of
                         (c', e') \<Rightarrow> Some (c', l, rd\<lparr>rd_stream := r'\<rparr>, Some e'))
                    else Some (c, l, rd\<lparr>rd_stream := r'\<rparr>, Some (Wrap ''etcp: read'' [e]))
                | (Inr (frame, cp), r') \<Rightarrow>
                    (let l1 = l\<lparr>lk_alive := True\<rparr>;
                         c1 = (if rd_released rd then c else releaseHold c);
                         rd1 = rd\<lparr>rd_stream := r', rd_cap := cp, rd_released := True\<rparr>
                     in case deliver sb c1 l1 frame hand of
                          None \<Rightarrow> None
                        | Some (c', l', oe) \<Rightarrow> Some (c', l', rd1, oe)))))"

section \<open>The writer (link.go)\<close>

text \<open>The entries one pass of \<^verbatim>\<open>writeLoop\<close> takes, under the lock.\<close>

definition writeLoop_take :: "conn \<Rightarrow> bytes list" where
  "writeLoop_take c =
     ring_appendRange (cn_ring c) [] (cn_flushed c)
       (min (ring_next (cn_ring c)) (cn_flushed c + int maxBatchEntries))"

text \<open>Framing the batch: the buffer, how many entries and bytes it holds, and the probe's offset.\<close>

fun frame_batch ::
  "int \<Rightarrow> int \<Rightarrow> bytes list \<Rightarrow> bytes \<Rightarrow> nat \<Rightarrow> nat \<Rightarrow> int \<Rightarrow> (bytes \<times> nat \<times> nat \<times> int) result" where
  "frame_batch base probe [] buf sent n probeAt = Inr (buf, sent, n, probeAt)"
| "frame_batch base probe (f # fs) buf sent n probeAt =
     (if sent > 0 \<and> length buf + 4 + length f > writeBufSize then Inr (buf, sent, n, probeAt)
      else
        (let probeAt' = (if base + int sent = probe then int (length buf) else probeAt)
         in case AppendFrame buf f of
              (_, Some e) \<Rightarrow> Inl (Wrap '''' [ErrIntegrity, e])
            | (buf', None) \<Rightarrow> frame_batch base probe fs buf' (sent + 1) (n + length f) probeAt'))"

definition probeBehind :: "int \<Rightarrow> int \<Rightarrow> int \<Rightarrow> nat \<Rightarrow> bool" where
  "probeBehind lastProbe end probeAt written =
     (if probeAt \<ge> 0 then int written \<le> probeAt else lastProbe \<ge> end)"

text \<open>
  Sending the buffer in pieces of \<^verbatim>\<open>progressChunk\<close>. \<open>lp\<close> gives the value of \<^verbatim>\<open>c.lastProbe\<close> seen
  after each piece, which the watcher may change meanwhile.
\<close>

function write_pieces ::
  "'w writer \<Rightarrow> (nat \<Rightarrow> int) \<Rightarrow> int \<Rightarrow> int \<Rightarrow> bytes \<Rightarrow> nat \<Rightarrow> 'w \<Rightarrow> link \<Rightarrow> 'w \<times> link \<times> go_error option" where
  "write_pieces wr lp end probeAt buf written w l =
     (if written < length buf then
        (let piece = go_slice buf written (min (length buf) (written + progressChunk))
         in case wr w piece of
              (w', m, oe) \<Rightarrow>
                if oe \<noteq> None \<or> m \<noteq> length piece then
                  (w', l, Some (Wrap ''etcp: write'' [case oe of Some e \<Rightarrow> e | None \<Rightarrow> ErrShortWrite]))
                else
                  (let written' = written + length piece;
                       l' = (if probeBehind (lp written') end probeAt written'
                             then l\<lparr>lk_alive := True\<rparr> else l)
                   in write_pieces wr lp end probeAt buf written' w' l'))
      else (w, l, None))"
  by pat_completeness auto
termination
  by (relation "measure (\<lambda>(wr, lp, end, probeAt, buf, written, w, l). length buf - written)")
    (auto simp: go_slice_def progressChunk_def)

declare write_pieces.simps [simp del]

text \<open>The bookkeeping after a successful batch.\<close>

definition writeLoop_commit :: "conn \<Rightarrow> nat \<Rightarrow> nat \<Rightarrow> conn" where
  "writeLoop_commit c sent n =
     (case releaseLocked (c\<lparr>cn_flushed := cn_flushed c + int sent, cn_unsent := cn_unsent c - int n\<rparr>) of
        (c', room) \<Rightarrow> if room then c'\<lparr>cn_space := True\<rparr> else c')"

text \<open>
  One pass of \<^verbatim>\<open>writeLoop\<close>. \<open>None\<close>: nothing to send, it waits on \<^verbatim>\<open>wake\<close>. \<open>upd\<close> is what the
  other goroutines did to the state while the batch was being written.
\<close>

definition writeLoop_pass ::
  "'w writer \<Rightarrow> (nat \<Rightarrow> int) \<Rightarrow> (conn \<Rightarrow> conn) \<Rightarrow> conn \<Rightarrow> link \<Rightarrow> 'w
     \<Rightarrow> (conn \<times> link \<times> 'w \<times> go_error option) option" where
  "writeLoop_pass wr lp upd c l w =
     (let base = cn_flushed c; batch = writeLoop_take c in
      if batch = [] then None
      else Some (case frame_batch base (cn_lastProbe c) batch [] 0 0 (- 1) of
             Inl e \<Rightarrow> (case conn_fail c e of (c', e') \<Rightarrow> (c', l, w, Some e'))
           | Inr (buf, sent, n, probeAt) \<Rightarrow>
               (case write_pieces wr lp (base + int sent) probeAt buf 0 w l of
                  (w', l', Some e) \<Rightarrow> (upd c, l', w', Some e)
                | (w', l', None) \<Rightarrow> (writeLoop_commit (upd c) sent n, l', w', None))))"

section \<open>The watcher (link.go)\<close>

datatype watch_event = WatchCtxDone go_error | WatchAlive | WatchTimer

definition watch_pass ::
  "secretbox \<Rightarrow> conn \<Rightarrow> link \<Rightarrow> bool \<Rightarrow> watch_event \<Rightarrow> conn \<times> link \<times> bool result" where
  "watch_pass sb c l probed ev =
     (case ev of
        WatchCtxDone e \<Rightarrow> (c, l, Inl e)
      | WatchAlive \<Rightarrow> (c, l\<lparr>lk_alive := False\<rparr>, Inr False)
      | WatchTimer \<Rightarrow>
          if lk_delivering l then (c, l, Inr False)
          else if sealedNone c then (c, l, Inr False)
          else if probed then (c, l, Inl errLinkDead)
          else (probeOnce sb c, l, Inr True))"

section \<open>Specification\<close>

text \<open>
  The invariant of a \<^verbatim>\<open>Conn\<close>: the ring is well formed, \<^verbatim>\<open>flushed\<close> is inside its window, \<^verbatim>\<open>unsent\<close>
  is the size of what lies past it, every entry fits in a frame.
\<close>

definition conn_wf :: "conn \<Rightarrow> bool" where
  "conn_wf c \<longleftrightarrow> ring_wf (cn_ring c) \<and> rg_first (cn_ring c) \<le> cn_flushed c
     \<and> cn_flushed c \<le> ring_next (cn_ring c)
     \<and> cn_unsent c = unsent_from (cn_ring c) (cn_flushed c)
     \<and> - 1 \<le> cn_lastProbe c \<and> cn_lastProbe c < ring_next (cn_ring c)
     \<and> list_all frame_ok (rg_entries (cn_ring c))
     \<and> length (cn_inbox c) \<le> inboxSize
     \<and> length (pkt_payload (cn_probe c)) \<le> maxPayload"

text \<open>The bytes of the probe while it waits to be written, and the bound on the backlog.\<close>

definition probe_bytes :: "conn \<Rightarrow> int" where
  "probe_bytes c =
     (if cn_flushed c \<le> cn_lastProbe c
      then ring_bytesBetween (cn_ring c) (cn_lastProbe c) (cn_lastProbe c + 1) else 0)"

definition backlog_ok :: "conn \<Rightarrow> bool" where
  "backlog_ok c \<longleftrightarrow> cn_unsent c - probe_bytes c \<le> rg_limit (cn_ring c) + int MaxFrameSize"

text \<open>The bound on the written packets kept for replay.\<close>

definition window_ok :: "conn \<Rightarrow> bool" where
  "window_ok c \<longleftrightarrow> rg_bytes (cn_ring c) - cn_unsent c
     \<le> (if rg_held (cn_ring c) then 2 * rg_limit (cn_ring c) else rg_limit (cn_ring c))"

definition conn_inv :: "conn \<Rightarrow> bool" where
  "conn_inv c \<longleftrightarrow> conn_wf c \<and> backlog_ok c \<and> window_ok c"

text \<open>
  What the goroutines other than the writer leave alone while a batch is being written: the
  written position and the packets from it on.
\<close>

definition keeps_unsent :: "conn \<Rightarrow> conn \<Rightarrow> bool" where
  "keeps_unsent c c' \<longleftrightarrow> cn_flushed c' = cn_flushed c
     \<and> ring_next (cn_ring c) \<le> ring_next (cn_ring c')
     \<and> (\<forall>s. cn_flushed c \<le> s \<longrightarrow> s < ring_next (cn_ring c)
          \<longrightarrow> ring_lookup (cn_ring c') s = ring_lookup (cn_ring c) s)"

text \<open>A \<^verbatim>\<open>Conn\<close> for the witnesses: two packets queued, none written.\<close>

definition demo_conn :: conn where
  "demo_conn =
     \<lparr>cn_addr = ''host:2022'', cn_id = ''id'', cn_keepAlive = 5000, cn_probe = zero_packet,
      cn_cause = None, cn_out = \<lparr>st_key = demo_key, st_nonce = replicate 24 0\<rparr>,
      cn_ring = \<lparr>rg_first = 0, rg_entries = [[1], [2, 3]], rg_bytes = 3,
        rg_limit = 25, rg_held = False, rg_hold = 0\<rparr>,
      cn_flushed = 0, cn_unsent = 3, cn_lastProbe = -1,
      cn_in = \<lparr>st_key = demo_key, st_nonce = replicate 23 0 @ [1]\<rparr>, cn_recvSeq = 0,
      cn_pending = [], cn_readerDone = False, cn_inbox = [], cn_wake = False, cn_space = False\<rparr>"

section \<open>Rings under a hold\<close>

lemma ring_hold_irrel [simp]:
  "ring_next (r\<lparr>rg_held := h\<rparr>) = ring_next r" "ring_next (r\<lparr>rg_hold := k\<rparr>) = ring_next r"
  "ring_bytesBetween (r\<lparr>rg_held := h\<rparr>) = ring_bytesBetween r"
  "ring_bytesBetween (r\<lparr>rg_hold := k\<rparr>) = ring_bytesBetween r"
  "ring_lookup (r\<lparr>rg_held := h\<rparr>) = ring_lookup r" "ring_lookup (r\<lparr>rg_hold := k\<rparr>) = ring_lookup r"
  "ring_wf (r\<lparr>rg_held := h\<rparr>) = ring_wf r" "ring_wf (r\<lparr>rg_hold := k\<rparr>) = ring_wf r"
  by (auto simp: ring_next_def ring_bytesBetween_def ring_lookup_def ring_wf_def fun_eq_iff)

lemma ring_push_fields [simp]:
  "rg_limit (ring_push r d) = rg_limit r" "rg_held (ring_push r d) = rg_held r"
  "rg_bytes (ring_push r d) = rg_bytes r + int (length d)" "rg_first (ring_push r d) = rg_first r"
  "rg_entries (ring_push r d) = rg_entries r @ [d]"
  by (simp_all add: ring_push_def)

lemma ring_trim_entries: "set (rg_entries (ring_trim r k u)) \<subseteq> set (rg_entries r)"
  by (auto simp: ring_trim_def split: prod.splits dest: in_set_dropD)

lemma list_all_trim: "list_all P (rg_entries r) \<Longrightarrow> list_all P (rg_entries (ring_trim r k u))"
  using ring_trim_entries [of r k u] by (auto simp: list_all_iff)

text \<open>
  The one way the written position moves: forward, with the size of what it passes taken off
  the backlog and the ring trimmed. The writer, a recovery and the end of a hold all do this.
\<close>

lemma conn_inv_advance:
  assumes inv: "conn_inv c" and f: "cn_flushed c \<le> f" "f \<le> ring_next (cn_ring c)"
    and u: "u = cn_unsent c - ring_bytesBetween (cn_ring c) (cn_flushed c) f"
    and r: "r = (cn_ring c)\<lparr>rg_held := h, rg_hold := k\<rparr>"
  shows "conn_inv (c\<lparr>cn_flushed := f, cn_unsent := u, cn_ring := ring_trim r f u\<rparr>)" (is "conn_inv ?c")
proof -
  let ?o = "cn_ring c" and ?t = "ring_trim r f u"
  note wf = inv [unfolded conn_inv_def conn_wf_def]
  have first: "rg_first ?t \<le> f"
    using ring_trim_first [of r f u] wf f r by (auto simp: max_def split: if_splits)
  have split: "unsent_from ?o (cn_flushed c) = ring_bytesBetween ?o (cn_flushed c) f + unsent_from ?o f"
    using bytesBetween_split [of ?o "cn_flushed c" f "ring_next ?o"] wf f by (simp add: unsent_from_def)
  have bb: "ring_bytesBetween ?t a b = ring_bytesBetween ?o a b"
    if "f \<le> a" "a \<le> b" "b \<le> ring_next ?o" for a b
    using bytesBetween_trim [of r f u a b] first that r by simp
  have un: "u = unsent_from ?t f"
    using u wf split bb [of f "ring_next ?o"] f r by (simp add: unsent_from_def)
  have "conn_wf ?c"
    using wf f first un r by (simp add: conn_wf_def list_all_trim ring_wf_trim)
  moreover have "backlog_ok ?c"
  proof (cases "f \<le> cn_lastProbe c")
    case True
    with wf f have "probe_bytes ?c = probe_bytes c"
      using bb [of "cn_lastProbe c" "cn_lastProbe c + 1"] by (simp add: probe_bytes_def)
    with wf u bytesBetween_nonneg [of ?o "cn_flushed c" f] r show ?thesis by (simp add: backlog_ok_def)
  next
    case False
    then have "probe_bytes ?c = 0" by (simp add: probe_bytes_def)
    moreover have "probe_bytes c \<le> ring_bytesBetween ?o (cn_flushed c) f"
    proof (cases "cn_flushed c \<le> cn_lastProbe c")
      case True
      then show ?thesis
        using False wf f bytesBetween_split [of ?o "cn_flushed c" "cn_lastProbe c" f]
          bytesBetween_split [of ?o "cn_lastProbe c" "cn_lastProbe c + 1" f]
          bytesBetween_nonneg [of ?o "cn_flushed c" "cn_lastProbe c"]
          bytesBetween_nonneg [of ?o "cn_lastProbe c + 1" f]
        by (simp add: probe_bytes_def)
    qed (simp add: probe_bytes_def bytesBetween_nonneg)
    ultimately show ?thesis using wf u r by (simp add: backlog_ok_def)
  qed
  moreover have "u = unsent_from r f"
    using u wf split r by (simp add: unsent_from_def)
  then have "window_ok ?c"
    using ring_trim_bound [of r f] wf f r by (auto simp: window_ok_def ring_wf_def)
  ultimately show ?thesis by (simp add: conn_inv_def)
qed

text \<open>The other way the outbound state changes: a sealed packet is appended.\<close>

lemma conn_wf_push:
  assumes "conn_wf c" and "frame_ok d"
  shows "conn_wf (c\<lparr>cn_ring := ring_push (cn_ring c) d, cn_unsent := cn_unsent c + int (length d)\<rparr>)"
  using assms bytesBetween_push [of "cn_ring c" "cn_flushed c" d] ring.next_push [of "cn_ring c" d]
  by (simp add: conn_wf_def unsent_from_def ring_wf_push)

definition sealed_packet :: "secretbox \<Rightarrow> stream \<Rightarrow> packet \<Rightarrow> bytes" where
  "sealed_packet sb s p = snd (Stream_Seal sb s (AppendPacket [] True (pkt_header p) []) (pkt_payload p))"

lemma enqueueLocked_eq:
  "enqueueLocked sb c p =
     (let d = sealed_packet sb (cn_out c) p
      in c\<lparr>cn_out := (cn_out c)\<lparr>st_nonce := increment (st_nonce (cn_out c))\<rparr>,
           cn_ring := ring_push (cn_ring c) d, cn_unsent := cn_unsent c + int (length d)\<rparr>)"
  by (simp add: enqueueLocked_def sealed_packet_def Stream_Seal_def Let_def)

lemma length_sealed_packet [bytes_simps]:
  "secretbox_laws sb \<Longrightarrow> length (sealed_packet sb s p) = 2 + secretbox_Overhead + length (pkt_payload p)"
  by (simp add: sealed_packet_def Stream_Seal_def secretbox_laws_def Let_def)

lemma sealed_packet_fits:
  "secretbox_laws sb \<Longrightarrow> length (pkt_payload p) \<le> maxPayload \<Longrightarrow> frame_ok (sealed_packet sb s p)"
  by (simp add: frame_ok_def bytes_simps maxPayload_def MaxFrameSize_def secretbox_Overhead_def)

lemma conn_inv_signals [simp]:
  "conn_inv (c\<lparr>cn_wake := b\<rparr>) = conn_inv c" "conn_inv (c\<lparr>cn_space := b\<rparr>) = conn_inv c"
  "conn_inv (c\<lparr>cn_out := st\<rparr>) = conn_inv c" "conn_inv (c\<lparr>cn_in := st\<rparr>) = conn_inv c"
  "conn_inv (c\<lparr>cn_recvSeq := n\<rparr>) = conn_inv c" "conn_inv (c\<lparr>cn_pending := ps\<rparr>) = conn_inv c"
  "conn_inv (c\<lparr>cn_cause := e\<rparr>) = conn_inv c" "conn_inv (c\<lparr>cn_readerDone := b\<rparr>) = conn_inv c"
  by (simp_all add: conn_inv_def conn_wf_def backlog_ok_def window_ok_def probe_bytes_def)

lemma conn_inv_cong:
  "conn_inv c \<Longrightarrow> cn_ring c' = cn_ring c \<Longrightarrow> cn_flushed c' = cn_flushed c \<Longrightarrow> cn_unsent c' = cn_unsent c
   \<Longrightarrow> cn_lastProbe c' = cn_lastProbe c \<Longrightarrow> cn_inbox c' = cn_inbox c \<Longrightarrow> cn_probe c' = cn_probe c
   \<Longrightarrow> conn_inv c'"
  by (auto simp: conn_inv_def conn_wf_def backlog_ok_def window_ok_def probe_bytes_def)

lemma conn_inv_cancel [simp]: "conn_inv (conn_cancel c e) = conn_inv c"
  by (simp add: conn_cancel_def split: option.splits)

lemma conn_inv_inbox: "conn_inv c \<Longrightarrow> length q \<le> inboxSize \<Longrightarrow> conn_inv (c\<lparr>cn_inbox := q\<rparr>)"
  by (auto simp: conn_inv_def conn_wf_def backlog_ok_def window_ok_def probe_bytes_def)

lemma probe_bytes_push:
  assumes "conn_wf c"
  shows "probe_bytes (c\<lparr>cn_ring := ring_push (cn_ring c) d, cn_unsent := u\<rparr>) = probe_bytes c"
proof -
  have "go_slice (xs @ [d]) i j = go_slice xs i j" if "j \<le> length xs" for xs :: "bytes list" and i j
    using that by (simp add: go_slice_def)
  moreover have "nat (cn_lastProbe c + 1 - rg_first (cn_ring c)) \<le> length (rg_entries (cn_ring c))"
    using assms by (auto simp: conn_wf_def ring_next_def)
  ultimately show ?thesis
    by (simp add: probe_bytes_def ring_bytesBetween_def ring_push_def)
qed

lemma conn_inv_enqueue:
  assumes "conn_inv c" and "secretbox_laws sb" and "length (pkt_payload p) \<le> maxPayload"
    and "cn_unsent c \<le> rg_limit (cn_ring c)"
  shows "conn_inv (enqueueLocked sb c p)"
proof -
  let ?d = "sealed_packet sb (cn_out c) p"
  let ?c = "c\<lparr>cn_ring := ring_push (cn_ring c) ?d, cn_unsent := cn_unsent c + int (length ?d)\<rparr>"
  have fits: "frame_ok ?d" using assms sealed_packet_fits by blast
  have "0 \<le> probe_bytes c" by (simp add: probe_bytes_def bytesBetween_nonneg)
  moreover have "int (length ?d) \<le> int MaxFrameSize" using fits by (simp add: frame_ok_def)
  ultimately have "conn_inv ?c"
    using assms conn_wf_push [of c ?d] fits probe_bytes_push [of c _ ?d]
    by (auto simp: conn_inv_def backlog_ok_def window_ok_def)
  then show ?thesis by (rule conn_inv_cong) (simp_all add: enqueueLocked_eq Let_def)
qed

text \<open>A probe may pass the limit, but its own bytes are all it adds, and only one waits at a time.\<close>

lemma conn_inv_probeOnce [inv_rules]:
  assumes "conn_inv c" and "secretbox_laws sb"
  shows "conn_inv (probeOnce sb c)"
proof (cases "cn_flushed c \<le> cn_lastProbe c")
  case True
  then show ?thesis using assms by (simp add: probeOnce_def)
next
  case False
  let ?d = "sealed_packet sb (cn_out c) (cn_probe c)" and ?r = "cn_ring c"
  let ?c = "c\<lparr>cn_ring := ring_push ?r ?d, cn_unsent := cn_unsent c + int (length ?d)\<rparr>"
  let ?c' = "?c\<lparr>cn_lastProbe := ring_next ?r\<rparr>"
  have wf: "conn_wf c" using assms by (simp add: conn_inv_def)
  have fits: "frame_ok ?d" using assms wf sealed_packet_fits by (simp add: conn_wf_def)
  have nx: "ring_next (ring_push ?r ?d) = ring_next ?r + 1"
    using wf ring.next_push by (simp add: conn_wf_def)
  have "conn_wf ?c" using conn_wf_push [OF wf fits] .
  then have wf': "conn_wf ?c'"
    using nx wf by (simp add: conn_wf_def)
  have "probe_bytes ?c' = int (length ?d)"
    using wf nx bytesBetween_push [of ?r "ring_next ?r" ?d]
    by (simp add: probe_bytes_def conn_wf_def)
  moreover have "probe_bytes c = 0" using False by (simp add: probe_bytes_def)
  ultimately have "conn_inv ?c'"
    using wf' assms by (auto simp: conn_inv_def backlog_ok_def window_ok_def)
  then show ?thesis
    by (rule conn_inv_cong) (use False in \<open>simp_all add: probeOnce_def enqueueLocked_eq Let_def\<close>)
qed

lemma conn_inv_WritePacket_pass [inv_rules]:
  assumes "conn_inv c" and "secretbox_laws sb" and "length (pkt_payload p) \<le> maxPayload"
  shows "conn_inv (fst (WritePacket_pass sb c p))"
  using assms conn_inv_enqueue [of c sb p]
  by (auto simp: WritePacket_pass_def Let_def split: option.splits)

lemma conn_inv_releaseHold [inv_rules]: "conn_inv c \<Longrightarrow> conn_inv (releaseHold c)"
proof (cases "rg_held (cn_ring c)")
  case True
  assume inv: "conn_inv c"
  then have "cn_flushed c \<le> ring_next (cn_ring c)" by (simp add: conn_inv_def conn_wf_def)
  from conn_inv_advance [OF inv order.refl this, where u = "cn_unsent c" and h = False
      and k = "rg_hold (cn_ring c)"]
  have "conn_inv (c\<lparr>cn_flushed := cn_flushed c, cn_unsent := cn_unsent c,
      cn_ring := ring_trim ((cn_ring c)\<lparr>rg_held := False\<rparr>) (cn_flushed c) (cn_unsent c)\<rparr>)" by simp
  then show ?thesis by (rule conn_inv_cong) (simp_all add: releaseHold_def True Let_def)
qed (simp add: releaseHold_def)

lemma conn_inv_handOver:
  "conn_inv c \<Longrightarrow> handOver c l p hand = Some (c', l', oe) \<Longrightarrow> conn_inv c'"
  by (auto simp: handOver_def Let_def conn_inv_inbox split: option.splits if_splits)

lemma conn_inv_deliver:
  "conn_inv c \<Longrightarrow> deliver sb c l b hand = Some (c', l', oe) \<Longrightarrow> conn_inv c'"
  using conn_inv_handOver [of "c\<lparr>cn_in := st, cn_recvSeq := k\<rparr>" for st k]
  by (auto simp: deliver_def conn_fail_def Let_def split: if_splits sum.splits prod.splits option.splits)

lemma conn_inv_readLoop_pass [inv_rules]:
  assumes "conn_inv c" and "readLoop_pass sb c l rd hand = Some (c', l', rd', oe)"
  shows "conn_inv c'"
proof (cases "cn_pending c")
  case (Cons p ps)
  with assms conn_inv_handOver [OF assms(1)] show ?thesis
    by (auto simp: readLoop_pass_def split: option.splits)
next
  case Nil
  with assms conn_inv_releaseHold [of c] show ?thesis
    by (auto simp: readLoop_pass_def conn_fail_def Let_def
        dest: conn_inv_deliver [rotated]
        split: option.splits list.splits prod.splits sum.splits if_splits)
qed

lemma conn_inv_ReadPacket [inv_rules]:
  assumes "conn_inv c" and "ReadPacket ctx ch c = Some (c', res)"
  shows "conn_inv c'"
proof -
  have "length (cn_inbox c) \<le> inboxSize" using assms by (simp add: conn_inv_def conn_wf_def)
  with assms show ?thesis
    by (auto simp: ReadPacket_def conn_inv_inbox
        split: read_choice.splits list.splits option.splits if_splits)
qed

lemma conn_inv_watch_pass [inv_rules]:
  "conn_inv c \<Longrightarrow> secretbox_laws sb \<Longrightarrow> conn_inv (fst (watch_pass sb c l probed ev))"
  by (auto simp: watch_pass_def intro: inv_rules split: watch_event.splits)

lemma conn_inv_Close [inv_rules]: "conn_inv c \<Longrightarrow> conn_inv (conn_Close c)"
  by (simp add: conn_Close_def)

section \<open>The writer's pass\<close>

text \<open>
  The contract of an \<^verbatim>\<open>io.Writer\<close>: \<open>taken\<close> is what it has taken so far, and a call takes a
  prefix of its argument, of the length it reports, whatever error it returns.
\<close>

definition io_Writer :: "'w writer \<Rightarrow> ('w \<Rightarrow> bytes) \<Rightarrow> bool" where
  "io_Writer wr taken \<longleftrightarrow> (\<forall>w p. case wr w p of (w', m, oe) \<Rightarrow> m \<le> length p \<and> taken w' = taken w @ take m p)"

lemma io_WriterD: "io_Writer wr taken \<Longrightarrow> wr w p = (w', m, oe) \<Longrightarrow> m \<le> length p \<and> taken w' = taken w @ take m p"
  unfolding io_Writer_def by (metis (mono_tags, lifting) case_prod_conv)

lemma io_Writer_log: "io_Writer log_writer fst"
  by (auto simp: io_Writer_def log_writer_def Let_def)

text \<open>Pieces: on success the whole buffer was taken, otherwise a prefix of it.\<close>

lemma write_pieces_spec:
  assumes "io_Writer wr taken" and "write_pieces wr lp end pa buf written w l = (w', l', oe)"
  shows "\<exists>k. taken w' = taken w @ take k (drop written buf) \<and> (oe = None \<longrightarrow> length buf - written \<le> k)"
  using assms(2)
proof (induction "length buf - written" arbitrary: written w l rule: less_induct)
  case less
  define piece where "piece = go_slice buf written (min (length buf) (written + progressChunk))"
  show ?case
  proof (cases "written < length buf")
    case False
    with less.prems show ?thesis by (auto simp: write_pieces.simps)
  next
    case True
    obtain w1 m o1 where wr: "wr w piece = (w1, m, o1)" by (cases "wr w piece")
    have m: "m \<le> length piece" "taken w1 = taken w @ take m piece"
      using io_WriterD [OF assms(1) wr] by simp_all
    have piece: "piece = take (length piece) (drop written buf)" "0 < length piece"
      using True by (auto simp: piece_def go_slice_def progressChunk_def)
    show ?thesis
    proof (cases "o1 \<noteq> None \<or> m \<noteq> length piece")
      case fail: True
      with less.prems True wr have "w' = w1" "oe \<noteq> None"
        by (auto simp: write_pieces.simps [of _ _ _ _ _ written] Let_def simp flip: piece_def)
      moreover have "take m piece = take m (drop written buf)"
        using m(1) piece(1) by (metis min.absorb1 take_take)
      ultimately show ?thesis using m(2) by auto
    next
      case False
      define l1 where "l1 = (if probeBehind (lp (written + length piece)) end pa (written + length piece)
        then l\<lparr>lk_alive := True\<rparr> else l)"
      have "write_pieces wr lp end pa buf (written + length piece) w1 l1 = (w', l', oe)"
        using less.prems True wr False
        by (auto simp: write_pieces.simps [of _ _ _ _ _ written] Let_def l1_def simp flip: piece_def)
      moreover have "length buf - (written + length piece) < length buf - written"
        using True piece(2) by linarith
      ultimately obtain k where k: "taken w' = taken w1 @ take k (drop (written + length piece) buf)"
        "oe = None \<longrightarrow> length buf - (written + length piece) \<le> k"
        using less.hyps by blast
      have "take (length piece + k) (drop written buf) =
          piece @ take k (drop (written + length piece) buf)"
        using piece(1) by (metis add.commute drop_drop take_add)
      with k m False show ?thesis by (intro exI [of _ "length piece + k"]) auto
    qed
  qed
qed

text \<open>Framing: a non-empty batch puts at least one entry in the buffer, and only whole frames.\<close>

lemma frame_batch_spec:
  assumes "list_all frame_ok fs"
  shows "\<exists>k pa'. frame_batch base probe fs buf sent n pa =
      Inr (buf @ concat (map frame_bytes (take k fs)), sent + k,
           n + sum_list (map length (take k fs)), pa')
    \<and> k \<le> length fs \<and> (sent = 0 \<longrightarrow> fs \<noteq> [] \<longrightarrow> 0 < k)"
  using assms
proof (induction base probe fs buf sent n pa rule: frame_batch.induct)
  case (2 base probe f fs buf sent n pa)
  show ?case
  proof (cases "sent > 0 \<and> length buf + 4 + length f > writeBufSize")
    case True
    then show ?thesis by (intro exI [of _ "0::nat"] exI [of _ pa]) auto
  next
    case False
    have app: "AppendFrame buf f = (buf @ frame_bytes f, None)"
      using "2.prems" by (simp add: AppendFrame_ok)
    obtain k pa' where "frame_batch base probe fs (buf @ frame_bytes f) (sent + 1) (n + length f)
        (if base + int sent = probe then int (length buf) else pa) =
      Inr ((buf @ frame_bytes f) @ concat (map frame_bytes (take k fs)), sent + 1 + k,
           n + length f + sum_list (map length (take k fs)), pa') \<and> k \<le> length fs"
      using "2.IH" [OF False refl app [symmetric]] "2.prems" by auto
    with False app show ?thesis
      by (intro exI [of _ "Suc k"] exI [of _ pa']) (auto simp: Let_def)
  qed
qed simp

lemma ring_range_take:
  assumes "rg_first r \<le> a" and "a \<le> b" and "int k \<le> b - a"
  shows "take k (ring_appendRange r [] a b) = ring_appendRange r [] a (a + int k)"
proof -
  have "min k (nat (b - rg_first r) - nat (a - rg_first r)) = nat (a + int k - rg_first r) - nat (a - rg_first r)"
    using assms by linarith
  then show ?thesis by (simp add: ring_appendRange_def go_slice_def)
qed

lemma bytesBetween_range:
  "ring_bytesBetween r a b = (\<Sum>e\<leftarrow>ring_appendRange r [] a b. int (length e))"
  by (simp add: ring_bytesBetween_def ring_appendRange_def)

lemma ring_range_cong:
  assumes "rg_first r \<le> a" and "a \<le> b" and "b \<le> ring_next r"
    and "rg_first r' \<le> a" and "b \<le> ring_next r'"
    and "\<And>s. a \<le> s \<Longrightarrow> s < b \<Longrightarrow> ring_lookup r' s = ring_lookup r s"
  shows "ring_appendRange r' [] a b = ring_appendRange r [] a b"
proof (rule nth_equalityI)
  show "length (ring_appendRange r' [] a b) = length (ring_appendRange r [] a b)"
    using assms length_ring_range by metis
next
  fix i assume i: "i < length (ring_appendRange r' [] a b)"
  have "length (ring_appendRange r' [] a b) = nat (b - a)" using assms length_ring_range by blast
  with i have "i < nat (b - a)" by simp
  moreover from this have "ring_lookup r' (a + int i) = ring_lookup r (a + int i)"
    using assms(6) by simp
  ultimately show "ring_appendRange r' [] a b ! i = ring_appendRange r [] a b ! i"
    using length_ring_range [OF assms(1-3)] length_ring_range [OF assms(4,2,5)] by simp
qed

text \<open>The entries still to be written, and what one pass takes of them.\<close>

definition unsent_entries :: "conn \<Rightarrow> bytes list" where
  "unsent_entries c = ring_appendRange (cn_ring c) [] (cn_flushed c) (ring_next (cn_ring c))"

lemma unsent_entries_ok: "conn_wf c \<Longrightarrow> list_all frame_ok (unsent_entries c)"
  by (auto simp: unsent_entries_def ring_appendRange_def go_slice_def conn_wf_def list_all_iff
      dest: in_set_takeD in_set_dropD)

lemma length_unsent_entries:
  "conn_wf c \<Longrightarrow> int (length (unsent_entries c)) = ring_next (cn_ring c) - cn_flushed c"
  using length_ring_range [of "cn_ring c" "cn_flushed c" "ring_next (cn_ring c)"]
  by (simp add: unsent_entries_def conn_wf_def)

lemma writeLoop_take_eq:
  assumes "conn_wf c"
  shows "writeLoop_take c = take maxBatchEntries (unsent_entries c)"
proof -
  let ?a = "cn_flushed c" and ?b = "ring_next (cn_ring c)"
  have "min ?b (?a + int maxBatchEntries) = ?a + int (min maxBatchEntries (length (unsent_entries c)))"
    using length_unsent_entries [OF assms] by (simp add: min_def)
  then have "writeLoop_take c = take (min maxBatchEntries (length (unsent_entries c))) (unsent_entries c)"
    using ring_range_take [of "cn_ring c" ?a ?b "min maxBatchEntries (length (unsent_entries c))"] assms
      length_unsent_entries [OF assms]
    by (simp add: writeLoop_take_def unsent_entries_def conn_wf_def)
  then show ?thesis by (simp add: min_def)
qed

lemma int_sum_lengths: "int (sum_list (map length es)) = (\<Sum>e\<leftarrow>es. int (length e))"
  by (induction es) auto

lemma conn_inv_commit:
  assumes "conn_inv c" and "k \<le> length (unsent_entries c)"
    and "n = sum_list (map length (take k (unsent_entries c)))"
  shows "conn_inv (writeLoop_commit c k n)" and "cn_flushed (writeLoop_commit c k n) = cn_flushed c + int k"
proof -
  have wf: "conn_wf c" using assms(1) by (simp add: conn_inv_def)
  let ?f = "cn_flushed c + int k" and ?u = "cn_unsent c - int n"
  have f: "cn_flushed c \<le> ?f" "?f \<le> ring_next (cn_ring c)"
    using assms(2) length_unsent_entries [OF wf] by simp_all
  have "int n = ring_bytesBetween (cn_ring c) (cn_flushed c) ?f"
    using ring_range_take [of "cn_ring c" "cn_flushed c" "ring_next (cn_ring c)" k] wf f assms(3)
    by (simp add: bytesBetween_range unsent_entries_def conn_wf_def int_sum_lengths)
  from conn_inv_advance [OF assms(1) f, where u = ?u and r = "cn_ring c"
      and h = "rg_held (cn_ring c)" and k = "rg_hold (cn_ring c)"] this
  have "conn_inv (c\<lparr>cn_flushed := ?f, cn_unsent := ?u, cn_ring := ring_trim (cn_ring c) ?f ?u\<rparr>)"
    by simp
  then show "conn_inv (writeLoop_commit c k n)"
    by (rule conn_inv_cong) (simp_all add: writeLoop_commit_def releaseLocked_def Let_def)
  show "cn_flushed (writeLoop_commit c k n) = ?f"
    by (simp add: writeLoop_commit_def releaseLocked_def Let_def)
qed

lemma keeps_unsent_prefix:
  assumes "conn_wf c" and "conn_wf c'" and "keeps_unsent c c'"
  shows "take (length (unsent_entries c)) (unsent_entries c') = unsent_entries c"
proof -
  have "take (length (unsent_entries c)) (unsent_entries c')
      = ring_appendRange (cn_ring c') [] (cn_flushed c) (ring_next (cn_ring c))"
    using ring_range_take [of "cn_ring c'" "cn_flushed c'" "ring_next (cn_ring c')"
        "length (unsent_entries c)"] assms length_unsent_entries [OF assms(1)]
    by (simp add: unsent_entries_def [of c'] conn_wf_def keeps_unsent_def)
  also have "\<dots> = unsent_entries c"
    unfolding unsent_entries_def
    by (rule ring_range_cong) (use assms in \<open>auto simp: conn_wf_def keeps_unsent_def\<close>)
  finally show ?thesis .
qed

section \<open>Properties\<close>

text \<open>
  C24. One pass of \<^verbatim>\<open>writeLoop\<close>, with other goroutines queueing packets and releasing a hold
  meanwhile: it waits only when everything was written; it never fails the \<^verbatim>\<open>Conn\<close> over a frame
  that is too large; when it succeeds, the socket took exactly the frames of the next
  \<open>k > 0\<close> packets, the written position moved by \<open>k\<close>, and the invariant holds again;
  when the socket fails, the socket took a prefix of those frames and the written position and
  the backlog are untouched, so every packet of the batch is replayed after the reconnect.
\<close>

theorem writeLoop_pass_correct:
  assumes inv: "conn_inv c" "conn_inv (upd c)" "keeps_unsent c (upd c)" and wr: "io_Writer wr taken"
  shows "case writeLoop_pass wr lp upd c l w of
      None \<Rightarrow> cn_flushed c = ring_next (cn_ring c)
    | Some (c', l', w', None) \<Rightarrow>
        conn_inv c' \<and> (\<exists>k > 0. k \<le> length (unsent_entries c) \<and> cn_flushed c' = cn_flushed c + int k
          \<and> taken w' = taken w @ concat (map frame_bytes (take k (unsent_entries c))))
    | Some (c', l', w', Some e) \<Rightarrow>
        c' = upd c \<and> (\<exists>j. taken w' = taken w @ take j (concat (map frame_bytes (unsent_entries c))))"
proof (cases "writeLoop_take c = []")
  case True
  have wf: "conn_wf c" using inv by (simp add: conn_inv_def)
  have "unsent_entries c = []" using True writeLoop_take_eq [OF wf] by (simp add: maxBatchEntries_def)
  with length_unsent_entries [OF wf] True show ?thesis by (simp add: writeLoop_pass_def)
next
  case False
  have wf: "conn_wf c" "conn_wf (upd c)" using inv by (simp_all add: conn_inv_def)
  let ?b = "writeLoop_take c" and ?u = "unsent_entries c"
  have b: "?b = take maxBatchEntries ?u" using writeLoop_take_eq [OF wf(1)] .
  have ok: "list_all frame_ok ?b" using unsent_entries_ok [OF wf(1)] b by (simp add: list_all_take)
  obtain k pa where fb: "frame_batch (cn_flushed c) (cn_lastProbe c) ?b [] 0 0 (- 1) =
      Inr (concat (map frame_bytes (take k ?b)), k, sum_list (map length (take k ?b)), pa)"
    and k: "k \<le> length ?b" "0 < k"
    using frame_batch_spec [OF ok, of _ _ "[]" 0 0] False by fastforce
  have tk: "take k ?b = take k ?u" "k \<le> length ?u" using k b by auto
  let ?buf = "concat (map frame_bytes (take k ?u))"
  obtain w' l' oe where wp: "write_pieces wr lp (cn_flushed c + int k) pa ?buf 0 w l = (w', l', oe)"
    by (metis prod_cases3)
  then obtain j where j: "taken w' = taken w @ take j ?buf" "oe = None \<longrightarrow> length ?buf \<le> j"
    using write_pieces_spec [OF wr wp] by auto
  show ?thesis
  proof (cases oe)
    case None
    have pre: "take k (unsent_entries (upd c)) = take k ?u"
      using keeps_unsent_prefix [OF wf inv(3)] tk(2) by (metis min.absorb1 take_take)
    moreover have "k \<le> length (unsent_entries (upd c))"
      using pre tk(2) by (metis length_take min.absorb2 min.cobounded1)
    ultimately have "conn_inv (writeLoop_commit (upd c) k (sum_list (map length (take k ?u))))"
      "cn_flushed (writeLoop_commit (upd c) k (sum_list (map length (take k ?u)))) = cn_flushed c + int k"
      using conn_inv_commit [OF inv(2), of k] inv(3) by (simp_all add: keeps_unsent_def)
    with None j k tk show ?thesis
      by (auto simp: writeLoop_pass_def Let_def False fb tk wp)
  next
    case (Some e)
    have "concat (map frame_bytes ?u) = ?buf @ concat (map frame_bytes (drop k ?u))"
      by (metis append_take_drop_id concat_append map_append)
    then have "take j ?buf = take (min j (length ?buf)) (concat (map frame_bytes ?u))"
      by (simp add: min_def)
    with Some j(1) show ?thesis
      by (auto simp: writeLoop_pass_def Let_def False fb tk wp simp del: take_append)
  qed
qed

lemmas demo_simps = demo_conn_def demo_key_def zero_packet_def newLink_def ring_next_def
  ring_bytesBetween_def ring_appendRange_def go_slice_def

lemma demo_conn_inv: "conn_inv demo_conn"
  by (simp add: demo_simps conn_inv_def conn_wf_def backlog_ok_def window_ok_def probe_bytes_def
      ring_wf_def unsent_from_def frame_ok_def MaxFrameSize_def maxPayload_def inboxSize_def
      numeral_2_eq_2)

theorem writeLoop_pass_correct_witness:
  "case writeLoop_pass log_writer (\<lambda>_. -1) id demo_conn newLink ([], 100) of
     Some (c', l', w', None) \<Rightarrow> conn_inv c' \<and> cn_flushed c' = 2
   | _ \<Rightarrow> False"
proof -
  note inv = demo_conn_inv
  have keeps: "keeps_unsent demo_conn (id demo_conn)" by (simp add: keeps_unsent_def)
  let ?buf = "[0, 0, 0, 1, 1, 0, 0, 0, 2, 2, 3] :: bytes"
  have take: "writeLoop_take demo_conn = [[1], [2, 3]]"
    by (simp add: demo_simps writeLoop_take_def maxBatchEntries_def writeBufSize_def
        secretbox_Overhead_def)
  have fb: "frame_batch 0 (- 1) [[1], [2, 3]] [] 0 0 (- 1) = Inr (?buf, 2, 3, - 1)"
    by (simp add: AppendFrame_def MaxFrameSize_def BigEndian_AppendUint32_def writeBufSize_def)
  have wp: "write_pieces log_writer (\<lambda>_. -1) 2 (- 1) ?buf 0 ([], 100) newLink = ((?buf, 89), newLink, None)"
    by (subst write_pieces.simps, simp add: go_slice_def progressChunk_def log_writer_def probeBehind_def)
      (subst write_pieces.simps, simp)
  have run: "(case writeLoop_pass log_writer (\<lambda>_. -1) id demo_conn newLink ([], 100) of
      Some (c', l', w', None) \<Rightarrow> cn_flushed c' = 2 | _ \<Rightarrow> False)"
  proof -
    have "cn_flushed demo_conn = 0" "cn_lastProbe demo_conn = - 1" by (simp_all add: demo_conn_def)
    then show ?thesis
      using take fb wp
      by (simp add: writeLoop_pass_def writeLoop_commit_def releaseLocked_def Let_def)
  qed
  from writeLoop_pass_correct [where c = demo_conn and upd = id and lp = "\<lambda>_. -1" and l = newLink
      and w = "([], 100)", OF inv _ keeps io_Writer_log] inv run
  show ?thesis by (auto split: option.splits prod.splits)
qed

text \<open>
  C23. \<^verbatim>\<open>deliver\<close> in full, on a reader in step with the peer's stream (packet \<open>i\<close> is next, nothing
  pending): bytes that are the \<open>i\<close>-th sealed packet of the peer, within the frame limit, are
  counted once and handed on behind everything handed on before, whether the link survives or not;
  any other bytes deliver nothing, count nothing, and end the \<^verbatim>\<open>Conn\<close> with an integrity error.
\<close>

theorem deliver_correct:
  assumes sb: "secretbox_laws sb" and sync: "cn_in c = stream_at s0 i" "cn_pending c = []"
    and d: "deliver sb c l b hand = Some (c', l', oe)"
  shows "if \<exists>f h m. f \<noteq> 0 \<and> b = f # h # box_at sb s0 i m \<and> length b \<le> MaxFrameSize
    then \<exists>f m. b = f # (b ! 1) # box_at sb s0 i m \<and> cn_in c' = stream_at s0 (Suc i)
      \<and> cn_recvSeq c' = cn_recvSeq c + 1 \<and> cn_cause c' = cn_cause c \<and> oe = hand
      \<and> cn_inbox c' @ cn_pending c' = cn_inbox c @ [\<lparr>pkt_header = b ! 1, pkt_payload = m\<rparr>]
    else cn_recvSeq c' = cn_recvSeq c \<and> cn_inbox c' = cn_inbox c \<and> cn_pending c' = []
      \<and> (\<exists>e. oe = Some e \<and> errors_Is e ErrIntegrity
          \<and> cn_cause c' = Some (case cn_cause c of None \<Rightarrow> e | Some e' \<Rightarrow> e'))"
proof (cases "\<exists>f h m. f \<noteq> 0 \<and> b = f # h # box_at sb s0 i m \<and> length b \<le> MaxFrameSize")
  case True
  then obtain f h m where b: "f \<noteq> 0" "b = f # h # box_at sb s0 i m" "length b \<le> MaxFrameSize" by blast
  then have "ParsePacket b = Inr (True, h, box_at sb s0 i m)" by (simp add: ParsePacket_def)
  with d b(3) sync Stream_Open_at [OF sb, of s0 i "[]" m]
  have "cn_in c' = stream_at s0 (Suc i) \<and> cn_recvSeq c' = cn_recvSeq c + 1 \<and> cn_cause c' = cn_cause c
      \<and> oe = hand \<and> cn_inbox c' @ cn_pending c' = cn_inbox c @ [\<lparr>pkt_header = h, pkt_payload = m\<rparr>]"
    by (auto simp: deliver_def handOver_def Let_def split: option.splits if_splits)
  with True b(2) show ?thesis by auto
next
  case False
  have no_open: "box_open sb (drop 2 b) (st_nonce (stream_at s0 (Suc i))) (st_key s0) = None"
    if "length b \<le> MaxFrameSize" "2 \<le> length b" "b ! 0 \<noteq> 0"
  proof (rule ccontr)
    assume "\<not> ?thesis"
    then obtain m where "box_open sb (drop 2 b) (st_nonce (stream_at s0 (Suc i))) (st_key s0) = Some m"
      by auto
    then have "drop 2 b = box_at sb s0 i m"
      using sb by (auto simp: secretbox_laws_def box_at_def nonce_at_def stream_at_def)
    moreover from that obtain f h rest where "b = f # h # rest"
      by (metis Suc_le_length_iff numeral_2_eq_2)
    ultimately show False using False that by auto
  qed
  have op: "Stream_Open sb (stream_at s0 i) [] (drop 2 b) = (stream_at s0 (Suc i), Inl ErrOpen)"
    if "length b \<le> MaxFrameSize" "2 \<le> length b" "b ! 0 \<noteq> 0"
    using no_open [OF that] by (simp add: Stream_Open_def stream_at_def Let_def)
  have "cn_recvSeq c' = cn_recvSeq c \<and> cn_inbox c' = cn_inbox c \<and> cn_pending c' = []
      \<and> (\<exists>e. oe = Some e \<and> errors_Is e ErrIntegrity
          \<and> cn_cause c' = Some (case cn_cause c of None \<Rightarrow> e | Some e' \<Rightarrow> e'))"
    using d sync op
    by (auto simp: deliver_def ParsePacket_def conn_fail_def conn_cancel_def
        split: if_splits option.splits)
  with False show ?thesis by simp
qed

theorem deliver_correct_witness:
  "\<exists>c' l'. deliver demo_box demo_conn newLink (1 # 6 # box_at demo_box (cn_in demo_conn) 0 [65]) None
     = Some (c', l', None) \<and> cn_recvSeq c' = 1"
proof -
  let ?b = "1 # 6 # box_at demo_box (cn_in demo_conn) 0 [65] :: bytes"
  have len: "length ?b \<le> MaxFrameSize"
    by (simp add: length_box_at [OF demo_box_laws] secretbox_Overhead_def MaxFrameSize_def)
  obtain c' l' oe where d: "deliver demo_box demo_conn newLink ?b None = Some (c', l', oe)"
    using len Stream_Open_at [OF demo_box_laws, of "cn_in demo_conn" 0 "[]" "[65]"]
    by (simp add: deliver_def ParsePacket_def handOver_def Let_def)
      (simp add: demo_conn_def inboxSize_def)
  have "cn_recvSeq demo_conn = 0" "cn_pending demo_conn = []" by (simp_all add: demo_conn_def)
  with deliver_correct [OF demo_box_laws, of demo_conn "cn_in demo_conn" 0, OF _ _ d] d len
  show ?thesis by (auto split: if_splits)
qed

text \<open>The watcher over a run: each event with the state of the \<^verbatim>\<open>Conn\<close> and of the link it meets.\<close>

fun watch_run :: "secretbox \<Rightarrow> bool \<Rightarrow> (watch_event \<times> conn \<times> link) list \<Rightarrow> go_error option" where
  "watch_run sb probed [] = None"
| "watch_run sb probed ((ev, c, l) # es) =
     (case watch_pass sb c l probed ev of
        (_, _, Inl e) \<Rightarrow> Some e
      | (_, _, Inr probed') \<Rightarrow> watch_run sb probed' es)"

text \<open>A keepalive period that ran out with no sign of life, no delivery under way and something sent.\<close>

fun quiet_period :: "watch_event \<times> conn \<times> link \<Rightarrow> bool" where
  "quiet_period (ev, c, l) \<longleftrightarrow> ev = WatchTimer \<and> \<not> lk_delivering l \<and> \<not> sealedNone c"

lemma watch_run_dead:
  assumes "watch_run sb probed es = Some e" and "\<forall>c l. (WatchCtxDone e, c, l) \<notin> set es"
  shows "e = errLinkDead \<and> (\<exists>xs a b ys. quiet_period b
    \<and> (es = xs @ a # b # ys \<and> quiet_period a \<or> probed \<and> xs = [] \<and> es = b # ys))"
  using assms
proof (induction sb probed es rule: watch_run.induct)
  case (2 sb probed ev c l es)
  show ?case
  proof (cases "\<exists>p. snd (snd (watch_pass sb c l probed ev)) = Inr p")
    case False
    then obtain c1 l1 e1 where p: "watch_pass sb c l probed ev = (c1, l1, Inl e1)"
      by (metis prod.collapse sumE)
    with "2.prems"(1) have "e1 = e" by simp
    moreover have "ev \<noteq> WatchCtxDone e" using "2.prems"(2) by auto
    ultimately have "e = errLinkDead" "probed" "quiet_period (ev, c, l)"
      using p by (auto simp: watch_pass_def split: watch_event.splits if_splits)
    then show ?thesis by blast
  next
    case True
    then obtain c1 l1 p where p: "watch_pass sb c l probed ev = (c1, l1, Inr p)"
      by (metis prod.collapse)
    with "2.prems" have run: "watch_run sb p es = Some e" by simp
    have "\<forall>c l. (WatchCtxDone e, c, l) \<notin> set es" using "2.prems"(2) by auto
    from "2.IH" [OF p [symmetric] refl refl run this] obtain xs a b ys
      where IH: "e = errLinkDead" "quiet_period b"
        "es = xs @ a # b # ys \<and> quiet_period a \<or> p \<and> es = b # ys"
      by blast
    have "p \<Longrightarrow> quiet_period (ev, c, l)"
      using p by (auto simp: watch_pass_def split: watch_event.splits if_splits)
    with IH show ?thesis by (metis append_Cons append_Nil)
  qed
qed simp

text \<open>
  The watcher ends a link for silence exactly as documented. If it reports the link dead, two
  consecutive keepalive periods ran out, in neither was the reader blocked on a slow caller,
  and something had been sent before the first; no sign of life came between them. And a run that
  was still going ends at the second of two such periods.
\<close>

lemma watch_two_quiet_periods:
  assumes "\<forall>e c l. (WatchCtxDone e, c, l) \<notin> set es"
  shows "(watch_run sb False es \<noteq> None \<longrightarrow> watch_run sb False es = Some errLinkDead
      \<and> (\<exists>xs a b ys. es = xs @ a # b # ys \<and> quiet_period a \<and> quiet_period b))
    \<and> (\<forall>xs a b ys. es = xs @ a # b # ys \<longrightarrow> quiet_period a \<longrightarrow> quiet_period b
        \<longrightarrow> watch_run sb False es = Some errLinkDead)"
proof (intro conjI impI allI)
  assume "watch_run sb False es \<noteq> None"
  then obtain e where e: "watch_run sb False es = Some e" by auto
  have "\<forall>c l. (WatchCtxDone e, c, l) \<notin> set es" using assms by blast
  from watch_run_dead [OF e this] e show "watch_run sb False es = Some errLinkDead"
    and "\<exists>xs a b ys. es = xs @ a # b # ys \<and> quiet_period a \<and> quiet_period b" by blast+
next
  fix xs a b ys
  assume es: "es = xs @ a # b # ys" and q: "quiet_period a" "quiet_period b"
  have two: "watch_run sb p (a # b # ys) = Some errLinkDead" for p
    using q by (cases a; cases b) (auto simp: watch_pass_def)
  have "watch_run sb p (xs @ a # b # ys) = Some errLinkDead"
    if "\<forall>e c l. (WatchCtxDone e, c, l) \<notin> set xs" for p
    using that
  proof (induction xs arbitrary: p)
    case Nil
    show ?case using two by simp
  next
    case (Cons x xs)
    obtain ev c l where x: "x = (ev, c, l)" by (cases x)
    from Cons x have "ev \<noteq> WatchCtxDone e" for e by auto
    with Cons x show ?case
      by (auto simp: watch_pass_def split: watch_event.splits)
  qed
  with assms es show "watch_run sb False es = Some errLinkDead" by auto
qed

lemma watch_two_quiet_periods_witness:
  "watch_run demo_box False
     [(WatchAlive, demo_conn, newLink), (WatchTimer, demo_conn, handOver_enter newLink),
      (WatchTimer, demo_conn, newLink), (WatchTimer, demo_conn, newLink)] = Some errLinkDead"
  (is "watch_run demo_box False ?es = _")
proof -
  have "\<forall>e c l. (WatchCtxDone e, c, l) \<notin> set ?es" by simp
  from watch_two_quiet_periods [OF this, of demo_box]
  have "\<And>xs a b ys. ?es = xs @ a # b # ys \<Longrightarrow> quiet_period a \<Longrightarrow> quiet_period b
      \<Longrightarrow> watch_run demo_box False ?es = Some errLinkDead" by blast
  from this [of "[(WatchAlive, demo_conn, newLink), (WatchTimer, demo_conn, handOver_enter newLink)]"
      "(WatchTimer, demo_conn, newLink)" "(WatchTimer, demo_conn, newLink)" "[]"]
  show ?thesis by (simp add: demo_simps sealedNone_def)
qed

end
