(* ===== verification/ET_Recover.thy ===== *)
theory ET_Recover
  imports Complex_Main ET_Conn
begin

text \<open>
  \<^verbatim>\<open>internal/etcp/backoff.go\<close> (the redial schedule), \<^verbatim>\<open>internal/etcp/idleconn.go\<close> (handshake I/O in
  pieces) and the recover exchange of \<^verbatim>\<open>internal/etcp/recover.go\<close>.

  Durations are nanoseconds. The jitter is an exact rational in \<open>[0, 1)\<close> and its product is exact:
  the rounding of \<^verbatim>\<open>float64\<close> is not modelled.
\<close>

section \<open>Backoff (backoff.go)\<close>

definition Millisecond :: int where "Millisecond = 1000000"
definition Second :: int where "Second = 1000000000"

definition backoffBase :: int where "backoffBase = 250 * Millisecond"
definition backoffMax :: int where "backoffMax = 5 * Second"
definition backoffReset :: int where "backoffReset = 30 * Second"

record backoff =
  bo_attempt :: nat

definition new_backoff :: backoff where "new_backoff = \<lparr>bo_attempt = 0\<rparr>"

text \<open>\<open>j\<close> is the value the jitter function returns.\<close>

definition backoff_next :: "rat \<Rightarrow> backoff \<Rightarrow> backoff \<times> int" where
  "backoff_next j b =
     (let n = bo_attempt b; b' = b\<lparr>bo_attempt := n + 1\<rparr> in
      if n = 0 then (b', 0)
      else
        (let d = min (push_bit (min (n - 1) 5) backoffBase) backoffMax;
             d' = \<lfloor>of_int d * (8 / 10 + 4 / 10 * j)\<rfloor>
         in (b', min d' backoffMax)))"

definition backoff_reset :: "backoff \<Rightarrow> backoff" where
  "backoff_reset b = b\<lparr>bo_attempt := 0\<rparr>"

section \<open>Handshake I/O (idleconn.go)\<close>

definition handshakeIdle :: int where "handshakeIdle = 30 * Second"
definition idleChunk :: nat where "idleChunk = 65536"

text \<open>The part of \<^verbatim>\<open>net.Conn\<close> the code uses, on a state that includes the clock.\<close>

record 'w net_conn =
  nc_Write :: "'w writer"
  nc_Read :: "'w \<Rightarrow> nat \<Rightarrow> 'w \<times> bytes \<times> go_error option"
  nc_SetReadDeadline :: "int \<Rightarrow> 'w \<Rightarrow> 'w \<times> go_error option"
  nc_SetWriteDeadline :: "int \<Rightarrow> 'w \<Rightarrow> 'w \<times> go_error option"
  nc_Now :: "'w \<Rightarrow> int"

definition idleConn_Read ::
  "'w net_conn \<Rightarrow> int \<Rightarrow> 'w \<Rightarrow> nat \<Rightarrow> 'w \<times> bytes \<times> go_error option" where
  "idleConn_Read nc timeout w len =
     (case nc_SetReadDeadline nc (nc_Now nc w + timeout) w of
        (w1, Some e) \<Rightarrow> (w1, [], Some e)
      | (w1, None) \<Rightarrow>
          (case nc_Read nc w1 len of
             (w2, p, oe) \<Rightarrow>
               (if p \<noteq> [] then fst (nc_SetWriteDeadline nc (nc_Now nc w2 + timeout) w2) else w2, p, oe)))"

text \<open>
  The loop of \<^verbatim>\<open>idleConn.Write\<close>; \<open>None\<close> is a loop that does not end, which a \<^verbatim>\<open>net.Conn\<close> that
  takes nothing and reports no error would cause.
\<close>

partial_function (option) idleConn_Write_loop ::
  "'w net_conn \<Rightarrow> int \<Rightarrow> 'w \<Rightarrow> bytes \<Rightarrow> nat \<Rightarrow> ('w \<times> nat \<times> go_error option) option" where
  "idleConn_Write_loop nc timeout w p n =
     (if p = [] then Some (w, n, None)
      else
        (case nc_SetWriteDeadline nc (nc_Now nc w + timeout) w of
           (w1, Some e) \<Rightarrow> Some (w1, n, Some e)
         | (w1, None) \<Rightarrow>
             (case nc_Write nc w1 (take (min (length p) idleChunk) p) of
                (w2, m, oe) \<Rightarrow>
                  (let w3 = (if m > 0 then fst (nc_SetReadDeadline nc (nc_Now nc w2 + timeout) w2) else w2)
                   in case oe of
                        Some e \<Rightarrow> Some (w3, n + m, Some e)
                      | None \<Rightarrow> idleConn_Write_loop nc timeout w3 (drop m p) (n + m)))))"

definition idleConn_Write ::
  "'w net_conn \<Rightarrow> int \<Rightarrow> 'w \<Rightarrow> bytes \<Rightarrow> ('w \<times> nat \<times> go_error option) option" where
  "idleConn_Write nc timeout w p = idleConn_Write_loop nc timeout w p 0"

section \<open>The recover exchange (recover.go)\<close>

text \<open>The protobuf runtime for the handshake's message types.\<close>

record codecs =
  pb_ConnectRequest :: "ConnectRequest proto_codec"
  pb_ConnectResponse :: "ConnectResponse proto_codec"
  pb_SequenceHeader :: "SequenceHeader proto_codec"
  pb_CatchupBuffer :: "CatchupBuffer proto_codec"

definition maxCatchupSize :: nat where "maxCatchupSize = MaxMessageSize"

definition math_MaxInt32 :: int where "math_MaxInt32 = 2 ^ 31 - 1"

definition readerErrWins :: "go_error \<Rightarrow> go_error \<Rightarrow> bool" where
  "readerErrWins err rerr =
     (if errors_Is rerr ErrTooLarge \<or> errors_Is rerr ErrMalformed then True
      else errors_Is err NetErrClosed \<or> errors_Is err ErrClosedPipe)"

text \<open>
  The reading goroutine: what it sends on \<^verbatim>\<open>gotSeq\<close> (the peer's message when there is no error),
  what it sends on \<^verbatim>\<open>gotAll\<close>, and the stream left over.
\<close>

definition recover_reader ::
  "codecs \<Rightarrow> reader \<Rightarrow> SequenceHeader result \<times> CatchupBuffer result \<times> reader" where
  "recover_reader pb r =
     (case ReadMessage (pb_SequenceHeader pb) r of
        (Inl e, r1) \<Rightarrow> (Inl e, Inl e, r1)
      | (Inr peer, r1) \<Rightarrow>
          (case ReadMessage (pb_CatchupBuffer pb) r1 of
             (Inl e, r2) \<Rightarrow> (Inr peer, Inl e, r2)
           | (Inr theirs, r2) \<Rightarrow> (Inr peer, Inr theirs, r2)))"

text \<open>
  The critical section of \<^verbatim>\<open>writeRecover\<close>: the snapshot of the send sequence and our catchup.
\<close>

definition recover_window :: "conn \<Rightarrow> SequenceHeader \<Rightarrow> (int \<times> bytes list) result" where
  "recover_window c peer =
     (let snap = ring_next (cn_ring c) in
      case ring_since (cn_ring c) (SequenceHeader_GetSequenceNumber peer) snap of
        None \<Rightarrow> Inl (Wrap ''peer is outside the retained window'' [ErrReplayExceeded])
      | Some ours \<Rightarrow> Inr (snap, ours))"

definition writeRecover ::
  "codecs \<Rightarrow> 'w writer \<Rightarrow> 'w \<Rightarrow> conn \<Rightarrow> SequenceHeader result \<Rightarrow> 'w \<times> int result" where
  "writeRecover pb wr w c gotSeq =
     (if cn_recvSeq c > math_MaxInt32
      then (w, Inl (Wrap ''received more packets than an int32 can express'' [ErrReplayExceeded]))
      else
        (let mine = SequenceHeader_SetSequenceNumber (int32 (cn_recvSeq c)) new_SequenceHeader in
         case WriteMessage (pb_SequenceHeader pb) wr w mine of
           (w1, Some e) \<Rightarrow> (w1, Inl (Wrap ''etcp: write sequence'' [e]))
         | (w1, None) \<Rightarrow>
             (case gotSeq of
                Inl e \<Rightarrow> (w1, Inl (Wrap ''etcp: read sequence'' [e]))
              | Inr peer \<Rightarrow>
                  (case recover_window c peer of
                     Inl e \<Rightarrow> (w1, Inl e)
                   | Inr (snap, ours) \<Rightarrow>
                       (let cb = CatchupBuffer_SetBuffer ours new_CatchupBuffer in
                        if pb_size (pb_CatchupBuffer pb) cb > maxCatchupSize
                        then (w1, Inl (Wrap ''catchup exceeds the message limit'' [ErrReplayExceeded]))
                        else (case WriteMessage (pb_CatchupBuffer pb) wr w1 cb of
                                (w2, Some e) \<Rightarrow> (w2, Inl (Wrap ''etcp: write catchup'' [e]))
                              | (w2, None) \<Rightarrow> (w2, Inr snap)))))))"

text \<open>The bookkeeping after a successful exchange, under the lock.\<close>

definition recover_commit :: "conn \<Rightarrow> int \<Rightarrow> SequenceHeader \<Rightarrow> conn" where
  "recover_commit c snap peer =
     (let c1 = c\<lparr>cn_unsent := cn_unsent c - ring_bytesBetween (cn_ring c) (cn_flushed c) snap,
                 cn_flushed := snap,
                 cn_ring := (cn_ring c)\<lparr>rg_held := True, rg_hold := SequenceHeader_GetSequenceNumber peer\<rparr>\<rparr>
      in case releaseLocked c1 of (c2, room) \<Rightarrow> if room then c2\<lparr>cn_space := True\<rparr> else c2)"

text \<open>
  \<^verbatim>\<open>recover\<close>: \<open>r\<close> is what arrives on the connection (up to its close, whoever closes it), \<open>wr\<close>
  takes what we write (and fails once it is closed), \<open>upd\<close> is what callers do to the \<^verbatim>\<open>Conn\<close>
  between the snapshot and the commit.
\<close>

definition conn_recover ::
  "codecs \<Rightarrow> 'w writer \<Rightarrow> (conn \<Rightarrow> conn) \<Rightarrow> conn \<Rightarrow> 'w \<Rightarrow> reader \<Rightarrow> conn \<times> 'w \<times> reader \<times> bytes list result" where
  "conn_recover pb wr upd c w r =
     (case recover_reader pb r of
        (gotSeq, gotAll, r') \<Rightarrow>
          (case writeRecover pb wr w c gotSeq of
             (w', res) \<Rightarrow>
               (case (gotAll, res) of
                  (Inl rerr, Inr snap) \<Rightarrow> (upd c, w', r', Inl (Wrap ''etcp: read recover message'' [rerr]))
                | (Inl rerr, Inl err) \<Rightarrow>
                    (upd c, w', r',
                     Inl (if readerErrWins err rerr then Wrap ''etcp: read recover message'' [rerr] else err))
                | (Inr theirs, Inl err) \<Rightarrow> (upd c, w', r', Inl err)
                | (Inr theirs, Inr snap) \<Rightarrow>
                    (case gotSeq of
                       Inl e \<Rightarrow> (upd c, w', r', Inl e)
                     | Inr peer \<Rightarrow>
                         (recover_commit (upd c) snap peer, w', r', Inr (CatchupBuffer_GetBuffer theirs))))))"

section \<open>Lemmas\<close>

text \<open>A \<^verbatim>\<open>net.Conn\<close> keeps the \<^verbatim>\<open>io.Writer\<close> contract, and a call that takes too little reports an error.\<close>

definition net_conn_ok :: "'w net_conn \<Rightarrow> ('w \<Rightarrow> bytes) \<Rightarrow> bool" where
  "net_conn_ok nc taken \<longleftrightarrow> io_Writer (nc_Write nc) taken
     \<and> (\<forall>w p w' m. nc_Write nc w p = (w', m, None) \<longrightarrow> m = length p)
     \<and> (\<forall>t w. taken (fst (nc_SetReadDeadline nc t w)) = taken w \<and> taken (fst (nc_SetWriteDeadline nc t w)) = taken w)"

lemma idleConn_Write_loop_spec:
  assumes "net_conn_ok nc taken"
  shows "\<exists>w' m oe. idleConn_Write_loop nc timeout w p n = Some (w', n + m, oe)
    \<and> m \<le> length p \<and> taken w' = taken w @ take m p \<and> (oe = None \<longrightarrow> m = length p)"
proof (induction "length p" arbitrary: p w n rule: less_induct)
  case less
  show ?case
  proof (cases "p = []")
    case True
    then show ?thesis by (simp add: idleConn_Write_loop.simps)
  next
    case False
    let ?q = "take (min (length p) idleChunk) p"
    obtain w1 o1 where w1: "nc_SetWriteDeadline nc (nc_Now nc w + timeout) w = (w1, o1)" by fastforce
    have log1: "taken w1 = taken w" using assms w1 by (metis fst_conv net_conn_ok_def)
    obtain w2 m oe where w2: "nc_Write nc w1 ?q = (w2, m, oe)" by (metis prod_cases3)
    have wr: "io_Writer (nc_Write nc) taken" using assms by (simp add: net_conn_ok_def)
    have m: "m \<le> length ?q" "taken w2 = taken w1 @ take m ?q"
      using io_WriterD [OF wr w2] by simp_all
    have all: "oe = None \<Longrightarrow> m = length ?q"
      using assms w2 unfolding net_conn_ok_def by blast
    have tk: "take m ?q = take m p" using m(1) by simp
    define w3 where "w3 = (if m > 0 then fst (nc_SetReadDeadline nc (nc_Now nc w2 + timeout) w2) else w2)"
    have log3: "taken w3 = taken w @ take m p"
      using assms m(2) log1 tk by (simp add: w3_def net_conn_ok_def)
    note unf = idleConn_Write_loop.simps [of nc timeout w p n]
    show ?thesis
    proof (cases o1)
      case (Some e)
      then show ?thesis using False w1 log1 unf by auto
    next
      case None
      show ?thesis
      proof (cases oe)
        case (Some e)
        with None False w1 w2 m(1) log3 unf show ?thesis by (auto simp: Let_def simp flip: w3_def)
      next
        case oe: None
        have pos: "0 < m" using False all [OF oe] by (simp add: idleChunk_def)
        with False have "length (drop m p) < length p" by simp
        from less.hyps [OF this, of w3 "n + m"] obtain w' m' o' where
          IH: "idleConn_Write_loop nc timeout w3 (drop m p) (n + m) = Some (w', n + m + m', o')"
          "m' \<le> length (drop m p)" "taken w' = taken w3 @ take m' (drop m p)"
          "o' = None \<longrightarrow> m' = length (drop m p)" by auto
        have "m + m' \<le> length p" using IH(2) m(1) by auto
        moreover have "taken w' = taken w @ take (m + m') p" using IH(3) log3 by (simp add: take_add)
        moreover have "o' = None \<longrightarrow> m + m' = length p" using IH(4) m(1) by auto
        moreover have "idleConn_Write_loop nc timeout w p n = Some (w', n + (m + m'), o')"
          using None oe False w1 w2 IH(1) unf by (simp add: Let_def add.assoc flip: w3_def)
        ultimately show ?thesis by blast
      qed
    qed
  qed
qed

lemma WriteMessage_log:
  assumes "io_Writer wr taken" and "WriteMessage pb wr w m = (w', None)"
  shows "\<exists>body. pb_marshal pb m = Inr body \<and> taken w' = taken w @ message_bytes body"
proof -
  from assms(2) obtain body where body: "pb_marshal pb m = Inr body"
    by (auto simp: WriteMessage_def split: if_splits sum.splits)
  let ?msg = "message_bytes body"
  obtain k oe where k: "wr w ?msg = (w', k, oe)" "oe = None" "k = length ?msg"
    using assms(2) body
    by (cases "wr w ?msg")
      (auto simp: WriteMessage_def writeChecked_def message_bytes_def split: if_splits option.splits)
  from io_WriterD [OF assms(1) k(1)] k(3) body show ?thesis by auto
qed

lemma conn_inv_recover_commit [inv_rules]:
  assumes "conn_inv c" and "cn_flushed c \<le> snap" and "snap \<le> ring_next (cn_ring c)"
  shows "conn_inv (recover_commit c snap peer)"
  by (rule conn_inv_cong, rule conn_inv_advance [OF assms refl, where h = True
        and k = "SequenceHeader_GetSequenceNumber peer", OF refl])
    (auto simp: recover_commit_def releaseLocked_def Let_def)

lemma recover_commit_fields [simp]:
  "cn_flushed (recover_commit c snap peer) = snap"
  "rg_held (cn_ring (recover_commit c snap peer))"
  "rg_hold (cn_ring (recover_commit c snap peer)) = SequenceHeader_GetSequenceNumber peer"
  "ring_next (cn_ring (recover_commit c snap peer)) = ring_next (cn_ring c)"
  "cn_inbox (recover_commit c snap peer) = cn_inbox c"
  "cn_pending (recover_commit c snap peer) = cn_pending c"
  "cn_recvSeq (recover_commit c snap peer) = cn_recvSeq c"
  "cn_in (recover_commit c snap peer) = cn_in c" "cn_out (recover_commit c snap peer) = cn_out c"
  "cn_cause (recover_commit c snap peer) = cn_cause c"
  "cn_readerDone (recover_commit c snap peer) = cn_readerDone c"
  by (auto simp: recover_commit_def releaseLocked_def Let_def)

lemma recover_window_Inr:
  assumes "recover_window c peer = Inr (snap, ours)"
  shows "snap = ring_next (cn_ring c)"
    and "ring_since (cn_ring c) (SequenceHeader_GetSequenceNumber peer) snap = Some ours"
  using assms by (auto simp: recover_window_def Let_def split: option.splits)

lemma backoff_clamp: "min (push_bit (min n 5) backoffBase) backoffMax = min (backoffBase * 2 ^ n) backoffMax"
proof (cases "n \<le> 5")
  case True
  then show ?thesis by (simp add: push_bit_eq_mult)
next
  case False
  then have "(2::int) ^ 5 \<le> 2 ^ n" by (intro power_increasing) auto
  with False show ?thesis
    by (simp add: push_bit_eq_mult backoffBase_def backoffMax_def Millisecond_def Second_def min_def)
qed

section \<open>Properties\<close>

text \<open>
  The redial schedule: the first attempt of a schedule is immediate; attempt \<open>n + 1\<close> waits
  for 250 ms doubled \<open>n - 1\<close> times and capped at 5 s, less at most a fifth, plus at most
  a fifth and never above the cap. So the clamp on the shift changes no delay, no delay after
  the first is zero or negative however many attempts fail, and none exceeds 5 s.
\<close>

lemma backoff_next_bounds:
  fixes b :: backoff
  assumes "0 \<le> j" and "j < 1"
  defines "full \<equiv> min (backoffBase * 2 ^ (bo_attempt b - 1)) backoffMax"
  shows "case backoff_next j b of (b', d) \<Rightarrow>
    bo_attempt b' = bo_attempt b + 1
    \<and> (if bo_attempt b = 0 then d = 0
       else full * 4 div 5 \<le> d \<and> 5 * d \<le> 6 * full \<and> d \<le> backoffMax \<and> 200 * Millisecond \<le> d)"
proof (cases "bo_attempt b = 0")
  case True
  then show ?thesis by (simp add: backoff_next_def Let_def)
next
  case False
  define x :: rat where "x = of_int full * (8 / 10 + 4 / 10 * j)"
  have "(1::int) \<le> 2 ^ (bo_attempt b - 1)" by simp
  then have lo: "backoffBase \<le> full"
    by (simp add: full_def backoffBase_def backoffMax_def Millisecond_def Second_def)
  have hi: "full \<le> backoffMax" by (simp add: full_def)
  have pos: "0 \<le> full" using lo by (simp add: backoffBase_def Millisecond_def)
  have d: "snd (backoff_next j b) = min \<lfloor>x\<rfloor> backoffMax"
    using False by (simp add: backoff_next_def Let_def backoff_clamp x_def full_def)
  have "of_int full * (8 / 10) \<le> x"
    unfolding x_def using assms(1) pos by (intro mult_left_mono) auto
  then have "of_int (full * 4 div 5) \<le> x"
  proof -
    have "5 * (full * 4 div 5) \<le> full * 4" by simp
    then have "(5::rat) * of_int (full * 4 div 5) \<le> of_int full * 4"
      by (metis (no_types) of_int_le_iff of_int_mult of_int_numeral)
    then show ?thesis using \<open>of_int full * (8 / 10) \<le> x\<close> by simp
  qed
  then have low: "full * 4 div 5 \<le> \<lfloor>x\<rfloor>" by (simp add: le_floor_iff)
  have "x \<le> of_int full * (12 / 10)"
    unfolding x_def using assms(2) pos by (intro mult_left_mono) auto
  then have "(5::rat) * of_int \<lfloor>x\<rfloor> \<le> 6 * of_int full"
    using of_int_floor_le [of x] by linarith
  then have high: "5 * \<lfloor>x\<rfloor> \<le> 6 * full"
    by (metis (no_types) of_int_le_iff of_int_mult of_int_numeral)
  have "full * 4 div 5 \<le> backoffMax" using hi pos by linarith
  moreover have "200 * Millisecond \<le> full * 4 div 5"
    using lo by (simp add: backoffBase_def Millisecond_def)
  ultimately show ?thesis
    using d low high False by (auto simp: backoff_next_def Let_def min_def split: if_splits)
qed

lemma backoff_next_bounds_witness:
  "snd (backoff_next (1 / 2) \<lparr>bo_attempt = 40\<rparr>) \<le> backoffMax
    \<and> 200 * Millisecond \<le> snd (backoff_next (1 / 2) \<lparr>bo_attempt = 40\<rparr>)"
  using backoff_next_bounds [of "1 / 2" "\<lparr>bo_attempt = 40\<rparr>"] by (simp split: prod.splits)

text \<open>
  \<^verbatim>\<open>idleConn.Write\<close> on a connection that keeps the \<^verbatim>\<open>net.Conn\<close> contract always returns; it
  reports exactly the number of bytes the connection took, which are a prefix of its argument,
  and reports no error only when that is all of it.
\<close>

lemma idleConn_Write_total:
  assumes "net_conn_ok nc taken"
  shows "\<exists>w' m oe. idleConn_Write nc timeout w p = Some (w', m, oe)
    \<and> m \<le> length p \<and> taken w' = taken w @ take m p \<and> (oe = None \<longrightarrow> m = length p)"
  using idleConn_Write_loop_spec [OF assms, of timeout w p 0] by (simp add: idleConn_Write_def)

definition demo_net :: "(bytes \<times> nat) net_conn" where
  "demo_net = \<lparr>nc_Write = log_writer, nc_Read = (\<lambda>w n. (w, [], Some EOF)),
     nc_SetReadDeadline = (\<lambda>t w. (w, None)), nc_SetWriteDeadline = (\<lambda>t w. (w, None)), nc_Now = (\<lambda>w. 0)\<rparr>"

lemma idleConn_Write_total_witness:
  "\<exists>w' m oe. idleConn_Write demo_net handshakeIdle ([], 3) [1, 2, 3, 4] = Some (w', m, oe)
    \<and> m \<le> 4 \<and> fst w' = take m [1, 2, 3, 4]"
proof -
  have "net_conn_ok demo_net fst"
    using io_Writer_log by (auto simp: net_conn_ok_def demo_net_def log_writer_def Let_def split: if_splits)
  from idleConn_Write_total [OF this, of handshakeIdle "([], 3)" "[1, 2, 3, 4]"] show ?thesis
    by fastforce
qed

text \<open>
  C22. The recover exchange, client side. On success the bytes written are our receive count and
  then exactly the packets the peer is missing, as first sealed (the log from the peer's
  position on); the new link continues after the last of them; the ring holds them for another
  replay; the invariant holds. On any failure the \<^verbatim>\<open>Conn\<close> is as its callers left it.
\<close>

theorem recover_correct:
  assumes inv: "conn_inv c" "conn_inv (upd c)" "keeps_unsent c (upd c)"
    and logs: "ring.logs (cn_ring c) L" and wr: "io_Writer wr taken" and seq: "0 \<le> cn_recvSeq c"
  shows "case conn_recover pb wr upd c w r of
      (c', w', r', Inl e) \<Rightarrow> c' = upd c
    | (c', w', r', Inr theirs) \<Rightarrow> \<exists>peer cb b1 b2.
        recover_reader pb r = (Inr peer, Inr cb, r') \<and> theirs = CatchupBuffer_GetBuffer cb
        \<and> pb_marshal (pb_SequenceHeader pb)
            (SequenceHeader_SetSequenceNumber (cn_recvSeq c) new_SequenceHeader) = Inr b1
        \<and> pb_marshal (pb_CatchupBuffer pb)
            (CatchupBuffer_SetBuffer (drop (nat (SequenceHeader_GetSequenceNumber peer)) L) new_CatchupBuffer)
          = Inr b2
        \<and> taken w' = taken w @ message_bytes b1 @ message_bytes b2
        \<and> 0 \<le> SequenceHeader_GetSequenceNumber peer \<and> SequenceHeader_GetSequenceNumber peer \<le> int (length L)
        \<and> conn_inv c' \<and> cn_flushed c' = int (length L)
        \<and> rg_held (cn_ring c') \<and> rg_hold (cn_ring c') = SequenceHeader_GetSequenceNumber peer"
proof -
  obtain gotSeq gotAll r' where rd: "recover_reader pb r = (gotSeq, gotAll, r')" by (metis prod_cases3)
  obtain w' res where wrr: "writeRecover pb wr w c gotSeq = (w', res)" by fastforce
  show ?thesis
  proof (cases "\<exists>cb snap. gotAll = Inr cb \<and> res = Inr snap")
    case False
    then show ?thesis
      by (auto simp: conn_recover_def rd wrr split: sum.splits)
  next
    case True
    then obtain cb snap where ok: "gotAll = Inr cb" "res = Inr snap" by blast
    from rd ok(1) obtain peer where peer: "gotSeq = Inr peer"
      by (auto simp: recover_reader_def split: prod.splits sum.splits)
    let ?pos = "SequenceHeader_GetSequenceNumber peer"
    from wrr ok(2) peer obtain w1 ours where
      small: "cn_recvSeq c \<le> math_MaxInt32"
      and m1: "WriteMessage (pb_SequenceHeader pb) wr w
          (SequenceHeader_SetSequenceNumber (int32 (cn_recvSeq c)) new_SequenceHeader) = (w1, None)"
      and win: "recover_window c peer = Inr (snap, ours)"
      and m2: "WriteMessage (pb_CatchupBuffer pb) wr w1
          (CatchupBuffer_SetBuffer ours new_CatchupBuffer) = (w', None)"
      by (auto simp: writeRecover_def Let_def split: if_splits option.splits prod.splits sum.splits)
    have i32: "int32 (cn_recvSeq c) = cn_recvSeq c"
      using small seq by (intro int32_id) (auto simp: math_MaxInt32_def)
    have wf: "ring_wf (cn_ring c)" "cn_flushed c \<le> ring_next (cn_ring c)"
      using inv(1) by (auto simp: conn_inv_def conn_wf_def)
    have snap: "snap = int (length L)" "snap = ring_next (cn_ring c)"
      using recover_window_Inr(1) [OF win] logs by (auto simp: ring.logs_def)
    have ours: "0 \<le> ?pos" "?pos \<le> int (length L)" "ours = drop (nat ?pos) L"
      using ring.since_logs [OF wf(1) logs recover_window_Inr(2) [OF win]] snap by auto
    have "conn_inv (recover_commit (upd c) snap peer)"
      using inv(2,3) wf snap by (intro conn_inv_recover_commit) (auto simp: keeps_unsent_def)
    moreover obtain b1 where "pb_marshal (pb_SequenceHeader pb)
        (SequenceHeader_SetSequenceNumber (cn_recvSeq c) new_SequenceHeader) = Inr b1"
      "taken w1 = taken w @ message_bytes b1"
      using WriteMessage_log [OF wr m1] i32 by auto
    moreover obtain b2 where "pb_marshal (pb_CatchupBuffer pb)
        (CatchupBuffer_SetBuffer ours new_CatchupBuffer) = Inr b2"
      "taken w' = taken w1 @ message_bytes b2"
      using WriteMessage_log [OF wr m2] by auto
    moreover have "conn_recover pb wr upd c w r =
        (recover_commit (upd c) snap peer, w', r', Inr (CatchupBuffer_GetBuffer cb))"
      using rd wrr ok peer by (simp add: conn_recover_def)
    ultimately show ?thesis using ours snap rd ok peer by auto
  qed
qed

text \<open>A codec for the witness: a sequence number is the length of the message.\<close>

definition demo_codecs :: codecs where
  "demo_codecs =
     \<lparr>pb_ConnectRequest = \<lparr>pb_size = (\<lambda>_. 0), pb_marshal = (\<lambda>_. Inr []),
        pb_unmarshal = (\<lambda>_. Inr new_ConnectRequest)\<rparr>,
      pb_ConnectResponse = \<lparr>pb_size = (\<lambda>_. 0), pb_marshal = (\<lambda>_. Inr []),
        pb_unmarshal = (\<lambda>b. Inr (ConnectResponse_SetStatus (int (length b)) new_ConnectResponse))\<rparr>,
      pb_SequenceHeader = \<lparr>pb_size = (\<lambda>m. nat (SequenceHeader_GetSequenceNumber m)),
        pb_marshal = (\<lambda>m. Inr (replicate (nat (SequenceHeader_GetSequenceNumber m)) 0)),
        pb_unmarshal = (\<lambda>b. Inr (SequenceHeader_SetSequenceNumber (int (length b)) new_SequenceHeader))\<rparr>,
      pb_CatchupBuffer = \<lparr>pb_size = (\<lambda>m. length (concat (cb_Buffer m))),
        pb_marshal = (\<lambda>m. Inr (concat (cb_Buffer m))),
        pb_unmarshal = (\<lambda>b. Inr (CatchupBuffer_SetBuffer [b] new_CatchupBuffer))\<rparr>\<rparr>"

lemma demo_logs: "ring.logs (cn_ring demo_conn) [[1], [2, 3]]"
  by (auto simp: ring.logs_def demo_conn_def ring_next_def ring_lookup_def split: if_splits)

theorem recover_correct_witness:
  "\<exists>c' w' r'. conn_recover demo_codecs log_writer id demo_conn ([], 100)
      \<lparr>avail = message_bytes [0] @ message_bytes [9], rend = EOF\<rparr> = (c', w', r', Inr [[9]])
    \<and> conn_inv c' \<and> cn_flushed c' = 2 \<and> rg_hold (cn_ring c') = 1"
proof -
  let ?r = "\<lparr>avail = message_bytes [0] @ message_bytes [9], rend = EOF\<rparr>"
  let ?peer = "SequenceHeader_SetSequenceNumber 1 new_SequenceHeader"
  have rd: "recover_reader demo_codecs ?r =
      (Inr ?peer, Inr (CatchupBuffer_SetBuffer [[9]] new_CatchupBuffer), \<lparr>avail = [], rend = EOF\<rparr>)"
    using ReadMessage_message_bytes [of "[9]" "pb_CatchupBuffer demo_codecs" "[]" EOF]
    by (simp add: recover_reader_def ReadMessage_message_bytes MaxMessageSize_def)
      (simp add: demo_codecs_def)
  have win: "recover_window demo_conn ?peer = Inr (2, [[2, 3]])"
    by (simp add: recover_window_def demo_simps ring_since_def)
  have "cn_recvSeq demo_conn = 0" by (simp add: demo_conn_def)
  then have "\<exists>w'. writeRecover demo_codecs log_writer ([], 100) demo_conn (Inr ?peer) = (w', Inr 2)"
    by (simp add: writeRecover_def win math_MaxInt32_def int32_def WriteMessage_def writeChecked_def
        demo_codecs_def MaxMessageSize_def maxCatchupSize_def log_writer_def CatchupBuffer_SetBuffer_def
        new_CatchupBuffer_def Let_def)
  then obtain w' where "conn_recover demo_codecs log_writer id demo_conn ([], 100) ?r =
      (recover_commit (id demo_conn) 2 ?peer, w', \<lparr>avail = [], rend = EOF\<rparr>, Inr [[9]])"
    by (auto simp: conn_recover_def rd)
  moreover from recover_correct [where c = demo_conn and upd = id and w = "([], 100)" and r = ?r
      and pb = demo_codecs, OF demo_conn_inv _ _ demo_logs io_Writer_log] demo_conn_inv this
  have "conn_inv (recover_commit (id demo_conn) 2 ?peer)"
    by (auto simp: keeps_unsent_def demo_conn_def)
  ultimately show ?thesis by auto
qed

lemma bytes_many_entries:
  assumes "list_all (\<lambda>e. 18 \<le> length e) es"
  shows "18 * int (length es) \<le> (\<Sum>e\<leftarrow>es. int (length e))"
  using assms by (induction es) auto

lemma one_entry_bytes:
  assumes "conn_wf c" and "cn_flushed c \<le> s" and "s < ring_next (cn_ring c)"
  shows "ring_bytesBetween (cn_ring c) s (s + 1) \<le> int MaxFrameSize"
proof -
  let ?xs = "ring_appendRange (cn_ring c) [] s (s + 1)"
  have "length ?xs = 1"
    using length_ring_range [of "cn_ring c" s "s + 1"] assms by (simp add: conn_wf_def)
  moreover have "list_all frame_ok ?xs"
    using assms(1)
    by (auto simp: ring_appendRange_def go_slice_def conn_wf_def list_all_iff dest: in_set_takeD in_set_dropD)
  ultimately show ?thesis
    by (cases ?xs) (auto simp: bytesBetween_range frame_ok_def)
qed

text \<open>The ring as a whole: three times the limit, one packet over, and a waiting probe.\<close>

lemma ring_bytes_bound:
  assumes "conn_inv c"
  shows "rg_bytes (cn_ring c) \<le> 3 * rg_limit (cn_ring c) + 2 * int MaxFrameSize"
proof -
  have "probe_bytes c \<le> int MaxFrameSize"
    using assms one_entry_bytes [of c "cn_lastProbe c"]
    by (auto simp: probe_bytes_def conn_inv_def conn_wf_def)
  moreover have "0 \<le> rg_limit (cn_ring c)" using assms by (simp add: conn_inv_def conn_wf_def ring_wf_def)
  ultimately show ?thesis
    using assms by (auto simp: conn_inv_def backlog_ok_def window_ok_def split: if_splits)
qed

text \<open>A position that does not fit \<^verbatim>\<open>int32\<close> wraps to one below the retained window.\<close>

lemma wrapped_position_below:
  assumes "conn_inv c" and "rg_limit (cn_ring c) \<le> 64 * 2 ^ 20"
    and "list_all (\<lambda>e. 18 \<le> length e) (rg_entries (cn_ring c))"
    and "2 ^ 31 \<le> pos" and "pos \<le> ring_next (cn_ring c)"
  shows "int32 pos < rg_first (cn_ring c)"
proof -
  let ?r = "cn_ring c"
  have "18 * int (length (rg_entries ?r)) \<le> rg_bytes ?r"
    using bytes_many_entries [OF assms(3)] assms(1) by (simp add: conn_inv_def conn_wf_def ring_wf_def)
  then have "int (length (rg_entries ?r)) < 2 ^ 31"
    using ring_bytes_bound [OF assms(1)] assms(2) by (simp add: MaxFrameSize_def)
  then show ?thesis
    using int32_wraps [OF assms(4)] assms(5) by (simp add: ring_next_def)
qed

text \<open>
  A peer position that no longer fits \<^verbatim>\<open>int32\<close> is refused, not mistaken for another position:
  with any replay limit \<^verbatim>\<open>Dial\<close> accepts, a position past \<open>2 ^ 31\<close>, truncated by the
  \<^verbatim>\<open>SequenceHeader\<close>, lies outside the retained window, so the session ends with
  \<^verbatim>\<open>ErrReplayExceeded\<close> instead of replaying wrong packets.
\<close>

lemma wrapped_position_refused:
  assumes "conn_inv c" and "rg_limit (cn_ring c) \<le> 64 * 2 ^ 20"
    and "list_all (\<lambda>e. 18 \<le> length e) (rg_entries (cn_ring c))"
    and "2 ^ 31 \<le> pos" and "pos \<le> ring_next (cn_ring c)"
  shows "\<exists>e. recover_window c (SequenceHeader_SetSequenceNumber (int32 pos) h) = Inl e
    \<and> errors_Is e ErrReplayExceeded"
  using wrapped_position_below [OF assms] by (simp add: recover_window_def ring_since_def Let_def)

lemma wrapped_position_refused_witness:
  "\<exists>e. recover_window (demo_conn\<lparr>cn_flushed := 2 ^ 31, cn_unsent := 0, cn_lastProbe := -1,
      cn_ring := \<lparr>rg_first = 2 ^ 31, rg_entries = [], rg_bytes = 0, rg_limit = 9, rg_held = False,
        rg_hold = 0\<rparr>\<rparr>) (SequenceHeader_SetSequenceNumber (int32 (2 ^ 31)) new_SequenceHeader) = Inl e
    \<and> errors_Is e ErrReplayExceeded"
  by (rule wrapped_position_refused)
    (simp_all add: conn_inv_def conn_wf_def backlog_ok_def window_ok_def probe_bytes_def ring_wf_def
      unsent_from_def demo_simps maxPayload_def MaxFrameSize_def)

end
