(* ===== verification/ET_Dial.thy ===== *)
theory ET_Dial
  imports ET_Recover
begin

text \<open>
  \<^verbatim>\<open>internal/etcp/dialer.go\<close> (options, first connect, the connect handshake, the classification of
  its errors) and the redial half of \<^verbatim>\<open>internal/etcp/recover.go\<close> (\<^verbatim>\<open>reconnect\<close>, \<^verbatim>\<open>supervise\<close>).

  What the network does is an argument: a \<open>connect_env\<close> holds, for one dial, its error
  or the connection it gave, what arrives on it, and when contexts ended. A redial loop takes one
  such record per attempt.
\<close>

section \<open>Options (dialer.go)\<close>

definition defaultKeepAlive :: int where "defaultKeepAlive = 5 * Second"
definition defaultReplayLimit :: int where "defaultReplayLimit = 64 * 2 ^ 20"
definition minKeepAlive :: int where "minKeepAlive = 100 * Millisecond"
definition maxReplayLimit :: int where "maxReplayLimit = defaultReplayLimit"

definition ErrSessionEnded :: go_error where
  "ErrSessionEnded = Wrap ''etcp: session ended by server'' [EOF]"

record dialer =
  dl_KeepAlive :: int
  dl_Probe :: packet
  dl_ReplayLimit :: int

text \<open>\<^verbatim>\<open>cmp.Or\<close> on integers: the first value that is not zero.\<close>

definition cmp_Or :: "int \<Rightarrow> int \<Rightarrow> int" where
  "cmp_Or a b = (if a \<noteq> 0 then a else b)"

text \<open>\<open>None\<close> is the panic of \<^verbatim>\<open>seal.New\<close> on a bad direction.\<close>

definition newConn :: "dialer \<Rightarrow> string \<Rightarrow> string \<Rightarrow> bytes \<Rightarrow> conn option" where
  "newConn d addr cid passkey =
     (let key = take 32 (passkey @ replicate 32 0) in
      case (seal_New key ClientToServer, seal_New key ServerToClient) of
        (Some so, Some si) \<Rightarrow>
          Some \<lparr>cn_addr = addr, cn_id = cid, cn_keepAlive = cmp_Or (dl_KeepAlive d) defaultKeepAlive,
            cn_probe = dl_Probe d, cn_cause = None, cn_out = so,
            cn_ring = \<lparr>rg_first = 0, rg_entries = [], rg_bytes = 0,
              rg_limit = cmp_Or (dl_ReplayLimit d) defaultReplayLimit, rg_held = False, rg_hold = 0\<rparr>,
            cn_flushed = 0, cn_unsent = 0, cn_lastProbe = - 1, cn_in = si, cn_recvSeq = 0,
            cn_pending = [], cn_readerDone = False, cn_inbox = [], cn_wake = False, cn_space = False\<rparr>
      | _ \<Rightarrow> None)"

section \<open>The connect handshake (dialer.go)\<close>

definition isFatal :: "go_error \<Rightarrow> bool" where
  "isFatal err =
     list_ex (errors_Is err) [ErrSessionEnded, ErrVersion, ErrReplayExceeded, ErrRejected, ErrIntegrity]"

definition handshake ::
  "codecs \<Rightarrow> 'w writer \<Rightarrow> (conn \<Rightarrow> conn) \<Rightarrow> conn \<Rightarrow> bool \<Rightarrow> 'w \<Rightarrow> reader \<Rightarrow> conn \<times> 'w \<times> bytes list result" where
  "handshake pb wr upd c first w r =
     (let req = ConnectRequest_SetVersion protocol_Version
                  (ConnectRequest_SetClientId (cn_id c) new_ConnectRequest) in
      case WriteMessage (pb_ConnectRequest pb) wr w req of
        (w1, Some e) \<Rightarrow> (upd c, w1, Inl (Wrap ''etcp: connect request'' [e]))
      | (w1, None) \<Rightarrow>
          (case ReadMessage (pb_ConnectResponse pb) r of
             (Inl e, r1) \<Rightarrow> (upd c, w1, Inl (Wrap ''etcp: connect response'' [e]))
           | (Inr resp, r1) \<Rightarrow>
               (let status = ConnectResponse_GetStatus resp in
                if status = ConnectStatus_NEW_CLIENT then
                  (if first then (upd c, w1, Inr [])
                   else (upd c, w1, Inl (Wrap ''server answered NEW_CLIENT to a returning client'' [ErrRejected])))
                else if status = ConnectStatus_RETURNING_CLIENT then
                  (case conn_recover pb wr upd c w1 r1 of (c', w2, r2, res) \<Rightarrow> (c', w2, res))
                else if status = ConnectStatus_INVALID_KEY then
                  (if first then (upd c, w1, Inl (Wrap ''server does not know this client'' [ErrRejected]))
                   else (upd c, w1, Inl ErrSessionEnded))
                else if status = ConnectStatus_MISMATCHED_PROTOCOL then
                  (upd c, w1, Inl (Wrap ''server does not speak protocol version'' [ErrVersion]))
                else (upd c, w1, Inl (Wrap ''unexpected status'' [ErrRejected])))))"

text \<open>
  One dial: the dialer's error, if any; the context's cause when the dial failed, when \<^verbatim>\<open>stop\<close> found
  its function already started, and when an error is being reported; the connection and what
  arrives on it; the error of \<^verbatim>\<open>SetDeadline\<close>.
\<close>

record 'w connect_env =
  ce_dialErr :: "go_error option"
  ce_ctxDial :: "go_error option"
  ce_conn :: 'w
  ce_stream :: reader
  ce_upd :: "conn \<Rightarrow> conn"
  ce_ctxStop :: "go_error option"
  ce_setDeadline :: "go_error option"
  ce_ctxEnd :: "go_error option"

definition conn_connect ::
  "codecs \<Rightarrow> 'w writer \<Rightarrow> conn \<Rightarrow> bool \<Rightarrow> 'w connect_env \<Rightarrow> conn \<times> bytes list result" where
  "conn_connect pb wr c first env =
     (case ce_dialErr env of
        Some err \<Rightarrow>
          (case ce_ctxDial env of
             Some cause \<Rightarrow> (ce_upd env c, Inl (Wrap ''etcp: dial'' [cause]))
           | None \<Rightarrow> (ce_upd env c, Inl (Wrap ''etcp: dial'' [err])))
      | None \<Rightarrow>
          (case handshake pb wr (ce_upd env) c first (ce_conn env) (ce_stream env) of
             (c', w', res) \<Rightarrow>
               (let res1 = (case (res, ce_ctxStop env) of (Inr _, Some cause) \<Rightarrow> Inl cause | _ \<Rightarrow> res);
                    res2 = (case (res1, ce_setDeadline env) of (Inr _, Some e) \<Rightarrow> Inl e | _ \<Rightarrow> res1)
                in case res2 of
                     Inr catchup \<Rightarrow> (c', Inr catchup)
                   | Inl err \<Rightarrow>
                       (let err1 = (if errors_Is err ErrTooLarge \<or> errors_Is err ErrMalformed
                                    then Wrap '''' [ErrIntegrity, err] else err)
                        in case ce_ctxEnd env of
                             Some cause \<Rightarrow>
                               if \<not> isFatal err1 then (c', Inl (Wrap ''etcp: connect'' [cause]))
                               else (c', Inl err1)
                           | None \<Rightarrow> (c', Inl err1)))))"

text \<open>\<^verbatim>\<open>Dial\<close>: \<open>Inr (c, catchup)\<close> is the running \<^verbatim>\<open>Conn\<close> and what its first link delivers first.\<close>

definition Dial ::
  "codecs \<Rightarrow> 'w writer \<Rightarrow> dialer \<Rightarrow> string \<Rightarrow> string \<Rightarrow> bytes \<Rightarrow> 'w connect_env
     \<Rightarrow> (conn \<times> bytes list) result" where
  "Dial pb wr d addr cid passkey env =
     (if length passkey \<noteq> 32 then Inl (OtherError ''etcp: passkey must be 32 bytes'')
      else if length (pkt_payload (dl_Probe d)) > maxPayload
      then Inl (Wrap ''etcp: probe payload'' [ErrTooLarge])
      else if dl_KeepAlive d < 0 \<or> (dl_KeepAlive d > 0 \<and> dl_KeepAlive d < minKeepAlive)
      then Inl (OtherError ''etcp: KeepAlive'')
      else if dl_ReplayLimit d < 0 \<or> dl_ReplayLimit d > maxReplayLimit
      then Inl (OtherError ''etcp: ReplayLimit'')
      else (case newConn d addr cid passkey of
              None \<Rightarrow> Inl (OtherError ''panic'')
            | Some c \<Rightarrow>
                (case conn_connect pb wr c True env of
                   (c', Inl err) \<Rightarrow> Inl err
                 | (c', Inr catchup) \<Rightarrow> Inr (c', catchup))))"

section \<open>Redialing (recover.go)\<close>

text \<open>
  One attempt of \<^verbatim>\<open>reconnect\<close>: the jitter drawn, the \<^verbatim>\<open>Conn\<close>'s cause if it ended during the wait,
  and the dial. The \<^verbatim>\<open>Conn\<close>'s context is the one the dial uses, so \<^verbatim>\<open>c.ctx.Err()\<close> after the
  dial is \<open>ce_ctxEnd\<close>.
\<close>

record 'w attempt =
  at_jitter :: rat
  at_waitEnd :: "go_error option"
  at_env :: "'w connect_env"

text \<open>With no further attempt to describe, the loop is still trying: \<open>None\<close>.\<close>

fun reconnect ::
  "codecs \<Rightarrow> 'w writer \<Rightarrow> conn \<Rightarrow> backoff \<Rightarrow> 'w attempt list \<Rightarrow> conn \<times> backoff \<times> bytes list result option" where
  "reconnect pb wr c b [] = (c, b, None)"
| "reconnect pb wr c b (a # as) =
     (case backoff_next (at_jitter a) b of
        (b', d) \<Rightarrow>
          if d > 0 \<and> at_waitEnd a \<noteq> None
          then (c, b', map_option Inl (at_waitEnd a))
          else
            (case conn_connect pb wr c False (at_env a) of
               (c', Inr catchup) \<Rightarrow> (c', b', Some (Inr catchup))
             | (c', Inl err) \<Rightarrow>
                 if isFatal err \<or> ce_ctxEnd (at_env a) \<noteq> None then (c', b', Some (Inl err))
                 else reconnect pb wr c' b' as))"

text \<open>
  One round of \<^verbatim>\<open>supervise\<close>: what a link did to the \<^verbatim>\<open>Conn\<close> from its catchup to its end, how
  long it lived, and the attempts of the redial that follows. The result is the state, the
  catchup of the link now running if one is, and whether the supervisor returned.
\<close>

record 'w round =
  ro_link :: "conn \<Rightarrow> bytes list \<Rightarrow> conn"
  ro_lived :: int
  ro_attempts :: "'w attempt list"

fun supervise ::
  "codecs \<Rightarrow> 'w writer \<Rightarrow> conn \<Rightarrow> bytes list \<Rightarrow> backoff \<Rightarrow> 'w round list \<Rightarrow> conn \<times> bool" where
  "supervise pb wr c catchup b [] = (c, False)"
| "supervise pb wr c catchup b (ro # ros) =
     (let c1 = ro_link ro c catchup in
      if cn_cause c1 \<noteq> None then (c1, True)
      else
        (let b1 = (if ro_lived ro \<ge> backoffReset then backoff_reset b else b) in
         case reconnect pb wr c1 b1 (ro_attempts ro) of
           (c2, b2, None) \<Rightarrow> (c2, False)
         | (c2, b2, Some (Inl err)) \<Rightarrow> (conn_cancel c2 err, True)
         | (c2, b2, Some (Inr catchup')) \<Rightarrow> supervise pb wr c2 catchup' b2 ros))"

text \<open>The goroutine \<^verbatim>\<open>Dial\<close> starts: when the supervisor returns, \<^verbatim>\<open>readerDone\<close> is closed.\<close>

definition run_supervisor ::
  "codecs \<Rightarrow> 'w writer \<Rightarrow> conn \<Rightarrow> bytes list \<Rightarrow> 'w round list \<Rightarrow> conn" where
  "run_supervisor pb wr c catchup ros =
     (case supervise pb wr c catchup new_backoff ros of
        (c', ended) \<Rightarrow> if ended then c'\<lparr>cn_readerDone := True\<rparr> else c')"

section \<open>Lemmas\<close>

text \<open>What callers may do to the \<^verbatim>\<open>Conn\<close> while a handshake runs.\<close>

definition env_ok :: "'w connect_env \<Rightarrow> bool" where
  "env_ok env \<longleftrightarrow> (\<forall>c. (conn_inv c \<longrightarrow> conn_inv (ce_upd env c) \<and> keeps_unsent c (ce_upd env c))
     \<and> cn_readerDone (ce_upd env c) = cn_readerDone c)"

text \<open>A connect changes the \<^verbatim>\<open>Conn\<close> only by the commit of a successful recover exchange.\<close>

lemma conn_recover_cases:
  assumes "conn_recover pb wr upd c w r = (c', w', r', res)"
  shows "c' = upd c
    \<or> (\<exists>snap peer ours. c' = recover_commit (upd c) snap peer \<and> recover_window c peer = Inr (snap, ours))"
  using assms
  by (auto simp: conn_recover_def writeRecover_def Let_def split: prod.splits sum.splits if_splits option.splits)

lemma handshake_cases:
  assumes "handshake pb wr upd c first w r = (c', w', res)"
  shows "c' = upd c
    \<or> (\<exists>snap peer ours. c' = recover_commit (upd c) snap peer \<and> recover_window c peer = Inr (snap, ours))"
  using assms conn_recover_cases [where pb = pb and wr = wr and upd = upd and c = c]
  by (auto simp: handshake_def Let_def split: prod.splits option.splits sum.splits if_splits)

lemma conn_connect_cases:
  assumes "conn_connect pb wr c first env = (c', res)"
  shows "c' = ce_upd env c
    \<or> (\<exists>snap peer ours. c' = recover_commit (ce_upd env c) snap peer
          \<and> recover_window c peer = Inr (snap, ours))"
proof (cases "ce_dialErr env")
  case (Some e)
  with assms show ?thesis by (auto simp: conn_connect_def split: option.splits)
next
  case None
  obtain c1 w1 r1 where h: "handshake pb wr (ce_upd env) c first (ce_conn env) (ce_stream env) = (c1, w1, r1)"
    by (metis prod_cases3)
  with None assms have "c' = c1"
    by (auto simp: conn_connect_def Let_def split: sum.splits option.splits if_splits)
  with handshake_cases [OF h] show ?thesis by simp
qed

lemma conn_inv_connect [inv_rules]:
  assumes "conn_inv c" and "env_ok env" and "conn_connect pb wr c first env = (c', res)"
  shows "conn_inv c'"
proof -
  have upd: "conn_inv (ce_upd env c)" "keeps_unsent c (ce_upd env c)"
    using assms(1,2) by (auto simp: env_ok_def)
  from conn_connect_cases [OF assms(3)] show ?thesis
  proof (elim disjE exE conjE)
    fix snap peer ours
    assume c': "c' = recover_commit (ce_upd env c) snap peer" and w: "recover_window c peer = Inr (snap, ours)"
    have "cn_flushed (ce_upd env c) \<le> snap" "snap \<le> ring_next (cn_ring (ce_upd env c))"
      using recover_window_Inr(1) [OF w] assms(1) upd(2)
      by (auto simp: conn_inv_def conn_wf_def keeps_unsent_def)
    with upd(1) c' show ?thesis by (auto intro: inv_rules)
  qed (use upd in simp)
qed

lemma conn_inv_reconnect [inv_rules]:
  "reconnect pb wr c b as = (c', b', out) \<Longrightarrow> conn_inv c \<Longrightarrow> \<forall>a \<in> set as. env_ok (at_env a) \<Longrightarrow> conn_inv c'"
proof (induction pb wr c b as rule: reconnect.induct)
  case (2 pb wr c b a as)
  obtain c1 res where cn: "conn_connect pb wr c False (at_env a) = (c1, res)" by fastforce
  with 2 have "conn_inv c1" using conn_inv_connect by auto
  with 2 cn show ?case
    by (auto split: prod.splits if_splits sum.splits)
qed simp

lemma readerDone_connect:
  assumes "env_ok env" and "conn_connect pb wr c first env = (c', res)"
  shows "cn_readerDone c' = cn_readerDone c"
  using conn_connect_cases [OF assms(2)] assms(1)
  by (elim disjE exE conjE) (simp_all add: env_ok_def)

lemma readerDone_reconnect:
  "reconnect pb wr c b as = (c', b', out) \<Longrightarrow> \<forall>a \<in> set as. env_ok (at_env a) \<Longrightarrow>
   cn_readerDone c' = cn_readerDone c"
proof (induction pb wr c b as rule: reconnect.induct)
  case (2 pb wr c b a as)
  obtain c1 res where cn: "conn_connect pb wr c False (at_env a) = (c1, res)" by fastforce
  have "env_ok (at_env a)" using 2(3) by simp
  from readerDone_connect [OF this cn] have "cn_readerDone c1 = cn_readerDone c" .
  with 2 cn show ?case by (auto split: prod.splits if_splits sum.splits)
qed simp

text \<open>A round of the supervisor: its link and its redials keep the invariant.\<close>

definition round_ok :: "'w round \<Rightarrow> bool" where
  "round_ok ro \<longleftrightarrow> (\<forall>c k. conn_inv c \<longrightarrow> \<not> cn_readerDone c \<longrightarrow>
       conn_inv (ro_link ro c k) \<and> \<not> cn_readerDone (ro_link ro c k))
     \<and> (\<forall>a \<in> set (ro_attempts ro). env_ok (at_env a))"

lemma supervise_inv:
  assumes "supervise pb wr c catchup b ros = (c', ended)" and "conn_inv c" and "\<not> cn_readerDone c"
    and "list_all round_ok ros"
  shows "conn_inv c' \<and> \<not> cn_readerDone c' \<and> (ended \<longrightarrow> cn_cause c' \<noteq> None)"
  using assms
proof (induction pb wr c catchup b ros rule: supervise.induct)
  case (2 pb wr c catchup b ro ros)
  define c1 where "c1 = ro_link ro c catchup"
  define b1 where "b1 = (if ro_lived ro \<ge> backoffReset then backoff_reset b else b)"
  have c1: "conn_inv c1" "\<not> cn_readerDone c1" and env: "\<forall>a \<in> set (ro_attempts ro). env_ok (at_env a)"
    using 2(3-5) by (auto simp: c1_def round_ok_def)
  show ?case
  proof (cases "cn_cause c1")
    case (Some e)
    with "2.prems"(1) c1 show ?thesis by (auto simp: Let_def simp flip: c1_def)
  next
    case None
    obtain c2 b2 out where rc: "reconnect pb wr c1 b1 (ro_attempts ro) = (c2, b2, out)"
      by (metis prod_cases3)
    have c2: "conn_inv c2" "\<not> cn_readerDone c2"
      using conn_inv_reconnect [OF rc c1(1) env] readerDone_reconnect [OF rc env] c1(2) by auto
    show ?thesis
    proof (cases "\<exists>k. out = Some (Inr k)")
      case True
      then obtain k where k: "out = Some (Inr k)" by blast
      with "2.prems"(1) None rc have "supervise pb wr c2 k b2 ros = (c', ended)"
        by (simp add: Let_def flip: c1_def b1_def)
      with "2.IH" [OF c1_def _ b1_def rc [symmetric]] k None c2 "2.prems"(4) show ?thesis by auto
    next
      case False
      with "2.prems"(1) None rc c2 show ?thesis
        by (auto simp: Let_def conn_cancel_def simp flip: c1_def b1_def split: option.splits sum.splits)
    qed
  qed
qed simp

lemma newConn_Some:
  "newConn d addr cid passkey = Some c \<Longrightarrow> 0 \<le> dl_ReplayLimit d \<Longrightarrow> length (pkt_payload (dl_Probe d)) \<le> maxPayload
   \<Longrightarrow> conn_inv c"
  by (auto simp: newConn_def Let_def conn_inv_def conn_wf_def backlog_ok_def window_ok_def probe_bytes_def
      ring_wf_def unsent_from_def ring_next_def ring_bytesBetween_def go_slice_def cmp_Or_def
      defaultReplayLimit_def split: option.splits)

lemma newConn_total: "newConn d addr cid passkey \<noteq> None"
  by (simp add: newConn_def seal_New_def ClientToServer_def ServerToClient_def Let_def)

lemma bad_message_fatal: "isFatal (Wrap s [ErrIntegrity, e])"
  by (simp add: isFatal_def)

text \<open>The recover reader's bad message decides, whatever the writer met.\<close>

lemma conn_recover_bad_message:
  assumes "recover_reader pb r = (gotSeq, Inl rerr, r')"
    and "errors_Is rerr ErrTooLarge \<or> errors_Is rerr ErrMalformed"
  shows "\<exists>w'. conn_recover pb wr upd c w r =
    (upd c, w', r', Inl (Wrap ''etcp: read recover message'' [rerr]))"
  using assms by (auto simp: conn_recover_def readerErrWins_def split: prod.splits sum.splits)

section \<open>Properties\<close>

definition bad_options :: "dialer \<Rightarrow> bytes \<Rightarrow> bool" where
  "bad_options d passkey \<longleftrightarrow> length passkey \<noteq> 32 \<or> length (pkt_payload (dl_Probe d)) > maxPayload
     \<or> dl_KeepAlive d < 0 \<or> 0 < dl_KeepAlive d \<and> dl_KeepAlive d < minKeepAlive
     \<or> dl_ReplayLimit d < 0 \<or> dl_ReplayLimit d > maxReplayLimit"

lemma newConn_limits:
  assumes "newConn d addr cid passkey = Some c"
  shows "dl_KeepAlive d = 0 \<or> minKeepAlive \<le> dl_KeepAlive d \<Longrightarrow> minKeepAlive \<le> cn_keepAlive c"
    and "0 \<le> dl_ReplayLimit d \<Longrightarrow> 1 \<le> rg_limit (cn_ring c)"
    and "dl_ReplayLimit d \<le> maxReplayLimit \<Longrightarrow> rg_limit (cn_ring c) \<le> 64 * 2 ^ 20"
  using assms
  by (auto simp: newConn_def Let_def cmp_Or_def defaultKeepAlive_def minKeepAlive_def Millisecond_def
      Second_def defaultReplayLimit_def maxReplayLimit_def split: option.splits)

text \<open>
  \<^verbatim>\<open>Dial\<close> checks its options before it touches the network: with a bad one the result is the
  same error whatever the network would do. Otherwise a \<^verbatim>\<open>Conn\<close> it returns satisfies the
  invariant, its keepalive period is at least 100 ms and its replay limit is between 1 byte
  and 64 MiB, zero meaning the defaults.
\<close>

lemma Dial_options:
  assumes "ce_upd env = id"
  shows "if bad_options d passkey
    then \<exists>e. \<forall>env'. Dial pb wr d addr cid passkey env' = Inl e
    else case Dial pb wr d addr cid passkey env of
        Inl e \<Rightarrow> \<exists>c. newConn d addr cid passkey = Some c \<and> snd (conn_connect pb wr c True env) = Inl e
      | Inr (c, catchup) \<Rightarrow> conn_inv c \<and> minKeepAlive \<le> cn_keepAlive c
          \<and> 1 \<le> rg_limit (cn_ring c) \<and> rg_limit (cn_ring c) \<le> 64 * 2 ^ 20"
proof (cases "bad_options d passkey")
  case True
  let ?probe = "maxPayload < length (pkt_payload (dl_Probe d))"
    and ?keep = "dl_KeepAlive d < 0 \<or> (dl_KeepAlive d > 0 \<and> dl_KeepAlive d < minKeepAlive)"
  from True consider "length passkey \<noteq> 32" | "length passkey = 32" ?probe
    | "length passkey = 32" "\<not> ?probe" ?keep
    | "length passkey = 32" "\<not> ?probe" "\<not> ?keep" "dl_ReplayLimit d < 0 \<or> dl_ReplayLimit d > maxReplayLimit"
    by (auto simp: bad_options_def)
  then have "\<exists>e. \<forall>env'. Dial pb wr d addr cid passkey env' = Inl e"
    by cases (simp_all only: Dial_def if_True if_False simp_thms, auto)
  with True show ?thesis by simp
next
  case False
  obtain c where c: "newConn d addr cid passkey = Some c" using newConn_total by blast
  have inv: "conn_inv c" using newConn_Some [OF c] False by (auto simp: bad_options_def)
  have lim: "minKeepAlive \<le> cn_keepAlive c" "1 \<le> rg_limit (cn_ring c)" "rg_limit (cn_ring c) \<le> 64 * 2 ^ 20"
  proof -
    have "dl_KeepAlive d = 0 \<or> minKeepAlive \<le> dl_KeepAlive d" using False by (auto simp: bad_options_def)
    then show "minKeepAlive \<le> cn_keepAlive c" by (rule newConn_limits(1) [OF c])
  qed (use False newConn_limits [OF c] in \<open>simp_all add: bad_options_def\<close>)
  obtain c' res where cn: "conn_connect pb wr c True env = (c', res)" by fastforce
  have "env_ok env" using assms by (simp add: env_ok_def keeps_unsent_def)
  then have inv': "conn_inv c'" using conn_inv_connect [OF inv _ cn] by blast
  have lim': "cn_keepAlive c' = cn_keepAlive c" "rg_limit (cn_ring c') = rg_limit (cn_ring c)"
    using conn_connect_cases [OF cn] assms by (auto simp: recover_commit_def releaseLocked_def Let_def)
  have "Dial pb wr d addr cid passkey env =
      (case res of Inl err \<Rightarrow> Inl err | Inr catchup \<Rightarrow> Inr (c', catchup))"
    using False c cn by (auto simp: Dial_def bad_options_def split: sum.splits)
  with False c cn inv' lim lim' show ?thesis by (auto split: sum.splits)
qed

definition demo_dialer :: dialer where
  "demo_dialer = \<lparr>dl_KeepAlive = 0, dl_Probe = zero_packet, dl_ReplayLimit = 0\<rparr>"

text \<open>A dial that succeeds and is answered with a message of \<open>n\<close> bytes, then \<open>rest\<close>.\<close>

definition demo_env :: "nat \<Rightarrow> bytes \<Rightarrow> (bytes \<times> nat) connect_env" where
  "demo_env n rest =
     \<lparr>ce_dialErr = None, ce_ctxDial = None, ce_conn = ([], 1000),
      ce_stream = \<lparr>avail = message_bytes (replicate n 0) @ rest, rend = EOF\<rparr>,
      ce_upd = id, ce_ctxStop = None, ce_setDeadline = None, ce_ctxEnd = None\<rparr>"

lemma demo_request: "\<exists>w'. WriteMessage (pb_ConnectRequest demo_codecs) log_writer ([], 1000) m = (w', None)"
  by (simp add: WriteMessage_def writeChecked_def demo_codecs_def log_writer_def MaxMessageSize_def)

lemma demo_response:
  "n \<le> MaxMessageSize \<Longrightarrow> ReadMessage (pb_ConnectResponse demo_codecs) (ce_stream (demo_env n rest)) =
    (Inr (ConnectResponse_SetStatus (int n) new_ConnectResponse), \<lparr>avail = rest, rend = EOF\<rparr>)"
  by (simp add: demo_env_def ReadMessage_message_bytes) (simp add: demo_codecs_def)

lemma Dial_options_witness:
  "\<exists>c. Dial demo_codecs log_writer demo_dialer [] [] demo_key (demo_env 1 []) = Inr (c, []) \<and> conn_inv c"
proof -
  have ok: "\<not> bad_options demo_dialer demo_key"
    by (simp add: bad_options_def demo_key_def demo_dialer_def zero_packet_def maxReplayLimit_def
        defaultReplayLimit_def)
  obtain c where c: "newConn demo_dialer [] [] demo_key = Some c" using newConn_total by blast
  have "ce_conn (demo_env 1 []) = ([], 1000)" "ce_upd (demo_env 1 []) = id"
    "ce_dialErr (demo_env 1 []) = None" "ce_ctxStop (demo_env 1 []) = None"
    "ce_setDeadline (demo_env 1 []) = None" by (simp_all add: demo_env_def)
  with demo_request [of "ConnectRequest_SetVersion protocol_Version
      (ConnectRequest_SetClientId (cn_id c) new_ConnectRequest)"] demo_response [of 1 "[]"]
  have "conn_connect demo_codecs log_writer c True (demo_env 1 []) = (c, Inr [])"
    by (auto simp: conn_connect_def handshake_def MaxMessageSize_def)
  with ok c have "Dial demo_codecs log_writer demo_dialer [] [] demo_key (demo_env 1 []) = Inr (c, [])"
    by (auto simp: Dial_def bad_options_def)
  moreover from this Dial_options [OF \<open>ce_upd (demo_env 1 []) = id\<close>, of demo_dialer demo_key demo_codecs
      log_writer "[]" "[]"] ok
  have "conn_inv c" by simp
  ultimately show ?thesis by blast
qed

text \<open>
  A server that answers the connect request with anything but the expected status ends the
  attempt for good: the error is fatal, so a redial stops, even when the context ended meanwhile.
  An ended session (\<^verbatim>\<open>INVALID_KEY\<close> on a redial) reads as \<^verbatim>\<open>io.EOF\<close>, another protocol
  version as \<^verbatim>\<open>ErrVersion\<close>, everything else as \<^verbatim>\<open>ErrRejected\<close>.
\<close>

lemma connect_refusal_is_fatal:
  assumes "ce_dialErr env = None"
    and "WriteMessage (pb_ConnectRequest pb) wr (ce_conn env)
      (ConnectRequest_SetVersion protocol_Version (ConnectRequest_SetClientId (cn_id c) new_ConnectRequest))
      = (w1, None)"
    and "ReadMessage (pb_ConnectResponse pb) (ce_stream env) = (Inr resp, r1)"
    and "ConnectResponse_GetStatus resp \<noteq> ConnectStatus_RETURNING_CLIENT"
    and "ConnectResponse_GetStatus resp = ConnectStatus_NEW_CLIENT \<longrightarrow> \<not> first"
  shows "\<exists>e. conn_connect pb wr c first env = (ce_upd env c, Inl e) \<and> isFatal e
    \<and> errors_Is e (if ConnectResponse_GetStatus resp = ConnectStatus_MISMATCHED_PROTOCOL then ErrVersion
        else if ConnectResponse_GetStatus resp = ConnectStatus_INVALID_KEY \<and> \<not> first then EOF
        else ErrRejected)"
  using assms
  by (auto simp: conn_connect_def handshake_def Let_def isFatal_def ErrSessionEnded_def split: option.splits)

text \<open>
  A broken or hostile peer cannot keep a client redialing: when a handshake message from the
  server is oversized or does not decode, whether the connect response or either message of
  the recover exchange, and whatever else went wrong on the connection, the error is
  \<^verbatim>\<open>ErrIntegrity\<close>, it is fatal, and the \<^verbatim>\<open>Conn\<close> is otherwise as its callers left it.
\<close>

lemma bad_handshake_message_is_fatal:
  assumes "ce_dialErr env = None"
    and "WriteMessage (pb_ConnectRequest pb) wr (ce_conn env)
      (ConnectRequest_SetVersion protocol_Version (ConnectRequest_SetClientId (cn_id c) new_ConnectRequest))
      = (w1, None)"
    and "ReadMessage (pb_ConnectResponse pb) (ce_stream env) = (resp, r1)"
    and "resp = Inl e \<or> (\<exists>m s r'. resp = Inr m \<and> ConnectResponse_GetStatus m = ConnectStatus_RETURNING_CLIENT
           \<and> recover_reader pb r1 = (s, Inl e, r'))"
    and "errors_Is e ErrTooLarge \<or> errors_Is e ErrMalformed"
  shows "\<exists>e'. conn_connect pb wr c first env = (ce_upd env c, Inl e')
    \<and> errors_Is e' ErrIntegrity \<and> isFatal e'"
proof -
  obtain w2 s where h: "handshake pb wr (ce_upd env) c first (ce_conn env) (ce_stream env) =
      (ce_upd env c, w2, Inl (Wrap s [e]))"
  proof (cases resp)
    case (Inl e1)
    with assms(4) have "e1 = e" by auto
    with Inl assms(2,3) show ?thesis by (intro that) (simp add: handshake_def)
  next
    case (Inr m)
    with assms(4) obtain s r' where m: "ConnectResponse_GetStatus m = ConnectStatus_RETURNING_CLIENT"
      "recover_reader pb r1 = (s, Inl e, r')" by auto
    obtain w2 where "conn_recover pb wr (ce_upd env) c w1 r1 =
        (ce_upd env c, w2, r', Inl (Wrap ''etcp: read recover message'' [e]))"
      using conn_recover_bad_message [OF m(2) assms(5), of wr "ce_upd env" c w1] by blast
    with Inr m(1) assms(2,3) show ?thesis by (intro that) (simp add: handshake_def)
  qed
  then show ?thesis
    using assms(1,5) by (auto simp: conn_connect_def bad_message_fatal Let_def split: option.splits)
qed

lemma bad_handshake_message_is_fatal_witness:
  "\<exists>e. conn_connect demo_codecs log_writer demo_conn False (demo_env 2 (replicate 8 255)) = (demo_conn, Inl e)
     \<and> errors_Is e ErrIntegrity \<and> isFatal e"
proof -
  let ?env = "demo_env 2 (replicate 8 255)"
  let ?resp = "ConnectResponse_SetStatus (int 2) new_ConnectResponse"
  obtain w1 where w1: "WriteMessage (pb_ConnectRequest demo_codecs) log_writer (ce_conn ?env)
      (ConnectRequest_SetVersion protocol_Version
        (ConnectRequest_SetClientId (cn_id demo_conn) new_ConnectRequest)) = (w1, None)"
    using demo_request by (metis (no_types) demo_env_def connect_env.select_convs(3))
  have neg: "sint (LittleEndian_Uint64 (replicate 8 255)) = - 1" by code_simp
  have rd: "recover_reader demo_codecs \<lparr>avail = replicate 8 255, rend = EOF\<rparr> =
      (Inl (Wrap ''wire: read length'' [ErrTooLarge]), Inl (Wrap ''wire: read length'' [ErrTooLarge]),
       \<lparr>avail = [], rend = EOF\<rparr>)"
    by (simp add: recover_reader_def ReadMessage_def io_ReadFull_def neg)
  have "\<exists>m s r'. Inr ?resp = (Inr m :: ConnectResponse result)
      \<and> ConnectResponse_GetStatus m = ConnectStatus_RETURNING_CLIENT
      \<and> recover_reader demo_codecs \<lparr>avail = replicate 8 255, rend = EOF\<rparr> =
          (s, Inl (Wrap ''wire: read length'' [ErrTooLarge]), r')"
    using rd by auto
  from bad_handshake_message_is_fatal [OF _ w1 demo_response disjI2 [OF this], of False] show ?thesis
    by (simp add: demo_env_def MaxMessageSize_def)
qed

text \<open>An attempt whose dial or handshake can fail in a way that does not end the \<^verbatim>\<open>Conn\<close>.\<close>

definition retryable :: "codecs \<Rightarrow> 'w writer \<Rightarrow> 'w attempt \<Rightarrow> bool" where
  "retryable pb wr a \<longleftrightarrow> ce_ctxEnd (at_env a) = None
     \<and> (\<exists>c0 c1 e. conn_connect pb wr c0 False (at_env a) = (c1, Inl e) \<and> \<not> isFatal e)"

text \<open>
  C39. \<^verbatim>\<open>reconnect\<close> never gives up on its own: it returns an error only if the last attempt's error is
  fatal or the \<^verbatim>\<open>Conn\<close> ended, and every earlier attempt failed with an error that is neither;
  it returns a link only from a connect that succeeded; while it has not returned, every
  attempt so far failed that way. It counts each attempt once in the backoff.
\<close>

theorem reconnect_outcome:
  assumes "reconnect pb wr c b as = (c', b', out)"
  shows "\<exists>n. bo_attempt b' = bo_attempt b + n \<and> n \<le> length as
    \<and> (case out of
         None \<Rightarrow> n = length as \<and> list_all (retryable pb wr) as
       | Some (Inr catchup) \<Rightarrow> 0 < n \<and> list_all (retryable pb wr) (take (n - 1) as)
           \<and> (\<exists>c0. conn_connect pb wr c0 False (at_env (as ! (n - 1))) = (c', Inr catchup))
       | Some (Inl e) \<Rightarrow> 0 < n \<and> list_all (retryable pb wr) (take (n - 1) as)
           \<and> (at_waitEnd (as ! (n - 1)) = Some e
              \<or> (isFatal e \<or> ce_ctxEnd (at_env (as ! (n - 1))) \<noteq> None)
                \<and> (\<exists>c0. conn_connect pb wr c0 False (at_env (as ! (n - 1))) = (c', Inl e))))"
  using assms
proof (induction pb wr c b as rule: reconnect.induct)
  case (1 pb wr c b)
  then show ?case by auto
next
  case (2 pb wr c b a as)
  obtain b1 d where bn: "backoff_next (at_jitter a) b = (b1, d)" by fastforce
  then have att: "bo_attempt b1 = bo_attempt b + 1"
    by (auto simp: backoff_next_def Let_def split: if_splits)
  obtain c1 res where cn: "conn_connect pb wr c False (at_env a) = (c1, res)" by fastforce
  show ?case
  proof (cases "(d > 0 \<and> at_waitEnd a \<noteq> None) \<or> (\<exists>k. res = Inr k)
      \<or> (\<exists>e. res = Inl e \<and> (isFatal e \<or> ce_ctxEnd (at_env a) \<noteq> None))")
    case True
    with "2.prems" bn cn att show ?thesis
      by (intro exI [of _ "1::nat"]) (auto split: if_splits option.splits sum.splits)
  next
    case False
    then obtain e where e: "res = Inl e" "\<not> isFatal e" "ce_ctxEnd (at_env a) = None"
      by (cases res) auto
    with False "2.prems" bn cn have run: "reconnect pb wr c1 b1 as = (c', b', out)" by auto
    have nowait: "\<not> (d > 0 \<and> at_waitEnd a \<noteq> None)" using False by blast
    from "2.IH" [OF bn [symmetric] nowait cn [symmetric] e(1) _ run] e obtain n where
      n: "bo_attempt b' = bo_attempt b1 + n" "n \<le> length as" and
      out: "case out of
         None \<Rightarrow> n = length as \<and> list_all (retryable pb wr) as
       | Some (Inr catchup) \<Rightarrow> 0 < n \<and> list_all (retryable pb wr) (take (n - 1) as)
           \<and> (\<exists>c0. conn_connect pb wr c0 False (at_env (as ! (n - 1))) = (c', Inr catchup))
       | Some (Inl e) \<Rightarrow> 0 < n \<and> list_all (retryable pb wr) (take (n - 1) as)
           \<and> (at_waitEnd (as ! (n - 1)) = Some e
              \<or> (isFatal e \<or> ce_ctxEnd (at_env (as ! (n - 1))) \<noteq> None)
                \<and> (\<exists>c0. conn_connect pb wr c0 False (at_env (as ! (n - 1))) = (c', Inl e)))"
      by blast
    have "0 < n \<Longrightarrow> (a # as) ! n = as ! (n - 1)" "0 < n \<Longrightarrow> take n (a # as) = a # take (n - 1) as"
      by (cases n; simp)+
    moreover have "retryable pb wr a" using e cn by (auto simp: retryable_def)
    ultimately show ?thesis using n out att
      by (intro exI [of _ "Suc n"]) (auto split: option.splits sum.splits)
  qed
qed

theorem reconnect_outcome_witness:
  "\<exists>b'. reconnect demo_codecs log_writer demo_conn new_backoff
      [\<lparr>at_jitter = 0, at_waitEnd = None, at_env = (demo_env 0 [])\<lparr>ce_dialErr := Some ENOENT\<rparr>\<rparr>,
       \<lparr>at_jitter = 0, at_waitEnd = Some NetErrClosed, at_env = demo_env 0 []\<rparr>]
      = (demo_conn, b', Some (Inl NetErrClosed)) \<and> bo_attempt b' = 2"
proof -
  let ?as = "[\<lparr>at_jitter = 0, at_waitEnd = None, at_env = (demo_env 0 [])\<lparr>ce_dialErr := Some ENOENT\<rparr>\<rparr>,
       \<lparr>at_jitter = 0, at_waitEnd = Some NetErrClosed, at_env = demo_env 0 []\<rparr>]"
  have first: "conn_connect demo_codecs log_writer demo_conn False ((demo_env 0 [])\<lparr>ce_dialErr := Some ENOENT\<rparr>)
      = (demo_conn, Inl (Wrap ''etcp: dial'' [ENOENT]))"
    by (simp add: conn_connect_def demo_env_def)
  have d: "\<exists>d > 0. backoff_next 0 \<lparr>bo_attempt = 1\<rparr> = (\<lparr>bo_attempt = 2\<rparr>, d)"
    by (simp add: backoff_next_def backoffBase_def backoffMax_def Millisecond_def Second_def Let_def)
  have "\<not> isFatal (Wrap ''etcp: dial'' [ENOENT])"
    by (simp add: isFatal_def ErrSessionEnded_def)
  then obtain b' where b': "reconnect demo_codecs log_writer demo_conn new_backoff ?as =
      (demo_conn, b', Some (Inl NetErrClosed))"
    using first d by (auto simp: new_backoff_def backoff_next_def [of 0 "\<lparr>bo_attempt = 0\<rparr>"] demo_env_def)
  obtain n where "bo_attempt b' = bo_attempt new_backoff + n" "n \<le> 2" "0 < n"
    "at_waitEnd (?as ! (n - 1)) = Some NetErrClosed \<or> isFatal NetErrClosed \<or> ce_ctxEnd (at_env (?as ! (n - 1))) \<noteq> None"
    using reconnect_outcome [OF b'] by auto
  then have "bo_attempt b' = 2"
    by (cases "n = 1") (auto simp: new_backoff_def demo_env_def isFatal_def ErrSessionEnded_def)
  with b' show ?thesis by blast
qed



end
