(* ===== verification/ET_Server.thy ===== *)
theory ET_Server
  imports ET_Recover
begin

text \<open>
  \<^verbatim>\<open>internal/etservertest\<close>: the in-process etserver, written from the upstream server's semantics,
  and the in-memory network with fault injection. It is the other end of the protocol: the theory
  of the whole system runs it against the client.

  As in the client, a critical section or a pass of a loop is a function on the state, and
  \<open>None\<close> stands for a wait.
\<close>

section \<open>The server (server.go)\<close>

record server_link =
  sl_conn :: nat
  sl_done :: bool

record server =
  sv_id :: string
  sv_key :: bytes
  sv_registered :: bool
  sv_known :: bool
  sv_echo :: bool
  sv_out :: stream
  sv_sent :: "bytes list"
  sv_in :: stream
  sv_recvSeq :: int
  sv_queue :: "packet list"
  sv_cur :: "server_link option"
  sv_notify :: bool
  sv_wake :: bool

definition errSessionEnded :: go_error where
  "errSessionEnded = OtherError ''etservertest: session ended''"

text \<open>\<open>None\<close> is a panic: the passkey's length, or a bad direction in \<^verbatim>\<open>seal.New\<close>.\<close>

definition NewServer :: "string \<Rightarrow> bytes \<Rightarrow> server option" where
  "NewServer sid passkey =
     (if length passkey \<noteq> 32 then None
      else
        (let key = take 32 passkey in
         case (seal_New key ServerToClient, seal_New key ClientToServer) of
           (Some so, Some si) \<Rightarrow>
             Some \<lparr>sv_id = sid, sv_key = key, sv_registered = True, sv_known = False, sv_echo = True,
               sv_out = so, sv_sent = [], sv_in = si, sv_recvSeq = 0, sv_queue = [], sv_cur = None,
               sv_notify = False, sv_wake = False\<rparr>
         | _ \<Rightarrow> None))"

definition server_admit :: "server \<Rightarrow> ConnectRequest \<Rightarrow> server \<times> int \<times> string" where
  "server_admit s req =
     (if ConnectRequest_GetVersion req \<noteq> protocol_Version then
        (s, ConnectStatus_MISMATCHED_PROTOCOL,
         ''Mismatched protocol versions.  Your client & server must be on the same version of ET.  Client: ''
           @ itoa (ConnectRequest_GetVersion req) @ '' != Server: '' @ itoa protocol_Version)
      else if ConnectRequest_GetClientId req \<noteq> sv_id s \<or> \<not> sv_registered s then
        (s, ConnectStatus_INVALID_KEY, ''Client is not registered'')
      else if \<not> sv_known s then (s\<lparr>sv_known := True\<rparr>, ConnectStatus_NEW_CLIENT, '''')
      else (s, ConnectStatus_RETURNING_CLIENT, ''''))"

text \<open>
  \<^verbatim>\<open>takeOver\<close>: the new link becomes the current one; the link to close and wait for, if any, is
  the second result.
\<close>

definition takeOver :: "server \<Rightarrow> nat \<Rightarrow> server \<times> server_link option" where
  "takeOver s c = (s\<lparr>sv_cur := Some \<lparr>sl_conn = c, sl_done = False\<rparr>\<rparr>, sv_cur s)"

definition server_enqueueLocked :: "secretbox \<Rightarrow> server \<Rightarrow> packet \<Rightarrow> server" where
  "server_enqueueLocked sb s p =
     (case Stream_Seal sb (sv_out s) [] (pkt_payload p) of
        (st, sealed) \<Rightarrow>
          s\<lparr>sv_out := st, sv_sent := sv_sent s @ [AppendPacket [] True (pkt_header p) sealed]\<rparr>)"

definition server_accept :: "secretbox \<Rightarrow> server \<Rightarrow> bytes \<Rightarrow> server \<times> go_error option" where
  "server_accept sb s b =
     (case ParsePacket b of
        Inl e \<Rightarrow> (s, Some (Wrap ''etservertest'' [e]))
      | Inr (encrypted, h, payload) \<Rightarrow>
          if \<not> encrypted then (s, Some (OtherError ''etservertest: unencrypted packet''))
          else
            (case Stream_Open sb (sv_in s) [] payload of
               (st, Inl e) \<Rightarrow> (s\<lparr>sv_in := st\<rparr>, Some (Wrap ''etservertest'' [e]))
             | (st, Inr plain) \<Rightarrow>
                 (let s1 = s\<lparr>sv_in := st, sv_recvSeq := sv_recvSeq s + 1,
                              sv_queue := sv_queue s @ [\<lparr>pkt_header = h, pkt_payload = plain\<rparr>],
                              sv_notify := True\<rparr>
                  in if h = HeaderKeepAlive \<and> sv_echo s
                     then ((server_enqueueLocked sb s1
                             \<lparr>pkt_header = HeaderKeepAlive, pkt_payload = []\<rparr>)\<lparr>sv_wake := True\<rparr>, None)
                     else (s1, None))))"

fun accept_all :: "secretbox \<Rightarrow> server \<Rightarrow> bytes list \<Rightarrow> server \<times> go_error option" where
  "accept_all sb s [] = (s, None)"
| "accept_all sb s (b # bs) =
     (case server_accept sb s b of
        (s', Some e) \<Rightarrow> (s', Some e)
      | (s', None) \<Rightarrow> accept_all sb s' bs)"

text \<open>
  The critical section of \<^verbatim>\<open>recover\<close>: the catchup for a peer at \<open>from\<close> and the position the new
  link's writer starts from.
\<close>

definition server_window :: "server \<Rightarrow> int \<Rightarrow> (bytes list \<times> int) result" where
  "server_window s from =
     (if from < 0 \<or> from > int (length (sv_sent s))
      then Inl (OtherError ''etservertest: client sequence outside'')
      else Inr (drop (nat from) (sv_sent s), int (length (sv_sent s))))"

text \<open>
  \<^verbatim>\<open>recover\<close> in upstream order. \<open>upd\<close> is what callers do to the server between the snapshot and
  the client's catchup.
\<close>

definition server_recover ::
  "secretbox \<Rightarrow> codecs \<Rightarrow> 'w writer \<Rightarrow> (server \<Rightarrow> server) \<Rightarrow> server \<Rightarrow> 'w \<Rightarrow> reader \<Rightarrow> server \<times> 'w \<times> int result" where
  "server_recover sb pb wr upd s w r =
     (let sh = SequenceHeader_SetSequenceNumber (int32 (sv_recvSeq s)) new_SequenceHeader in
      case WriteMessage (pb_SequenceHeader pb) wr w sh of
        (w1, Some e) \<Rightarrow> (s, w1, Inl (Wrap ''etservertest: write sequence'' [e]))
      | (w1, None) \<Rightarrow>
          (case ReadMessage (pb_SequenceHeader pb) r of
             (Inl e, r1) \<Rightarrow> (s, w1, Inl (Wrap ''etservertest: read sequence'' [e]))
           | (Inr peer, r1) \<Rightarrow>
               (case server_window s (SequenceHeader_GetSequenceNumber peer) of
                  Inl e \<Rightarrow> (s, w1, Inl e)
                | Inr (catchup, flushed) \<Rightarrow>
                    (case WriteMessage (pb_CatchupBuffer pb) wr w1
                            (CatchupBuffer_SetBuffer catchup new_CatchupBuffer) of
                       (w2, Some e) \<Rightarrow> (upd s, w2, Inl (Wrap ''etservertest: write catchup'' [e]))
                     | (w2, None) \<Rightarrow>
                         (case ReadMessage (pb_CatchupBuffer pb) r1 of
                            (Inl e, r2) \<Rightarrow> (upd s, w2, Inl (Wrap ''etservertest: read catchup'' [e]))
                          | (Inr theirs, r2) \<Rightarrow>
                              (case accept_all sb (upd s) (CatchupBuffer_GetBuffer theirs) of
                                 (s', Some e) \<Rightarrow> (s', w2, Inl e)
                               | (s', None) \<Rightarrow> (s', w2, Inr flushed)))))))"

text \<open>One pass of \<^verbatim>\<open>readLoop\<close>.\<close>

definition server_read_pass ::
  "secretbox \<Rightarrow> server \<Rightarrow> reader \<Rightarrow> nat \<Rightarrow> server \<times> reader \<times> nat \<times> go_error option" where
  "server_read_pass sb s r cp =
     (case ReadFrame r cp of
        (Inl e, r') \<Rightarrow> (s, r', cp, Some (Wrap ''etservertest: read'' [e]))
      | (Inr (frame, cp'), r') \<Rightarrow>
          (case server_accept sb s frame of (s', oe) \<Rightarrow> (s', r', cp', oe)))"

text \<open>Writing the pending frames one by one, and one pass of \<^verbatim>\<open>writeLoop\<close>; \<open>None\<close> is the wait.\<close>

fun write_frames :: "'w writer \<Rightarrow> 'w \<Rightarrow> bytes list \<Rightarrow> 'w \<times> go_error option" where
  "write_frames wr w [] = (w, None)"
| "write_frames wr w (f # fs) =
     (case WriteFrame wr w f of
        (w', Some e) \<Rightarrow> (w', Some (Wrap ''etservertest: write'' [e]))
      | (w', None) \<Rightarrow> write_frames wr w' fs)"

definition server_write_pass ::
  "'w writer \<Rightarrow> server \<Rightarrow> 'w \<Rightarrow> int \<Rightarrow> ('w \<times> int \<times> go_error option) option" where
  "server_write_pass wr s w flushed =
     (let pending = drop (nat flushed) (sv_sent s) in
      if pending = [] then
        (if \<not> sv_registered s then Some (w, flushed, Some errSessionEnded) else None)
      else
        (case write_frames wr w pending of
           (w', Some e) \<Rightarrow> Some (w', flushed, Some e)
         | (w', None) \<Rightarrow> Some (w', flushed + int (length pending), None)))"

text \<open>\<^verbatim>\<open>Recv\<close>: one pass; \<open>None\<close> is the wait for \<^verbatim>\<open>notify\<close>.\<close>

definition server_Recv :: "server \<Rightarrow> (server \<times> packet) option" where
  "server_Recv s =
     (case sv_queue s of [] \<Rightarrow> None | p # ps \<Rightarrow> Some (s\<lparr>sv_queue := ps\<rparr>, p))"

definition server_Send :: "secretbox \<Rightarrow> go_error option \<Rightarrow> server \<Rightarrow> packet \<Rightarrow> server \<times> go_error option" where
  "server_Send sb ctx s p =
     (case ctx of
        Some e \<Rightarrow> (s, Some e)
      | None \<Rightarrow> ((server_enqueueLocked sb s p)\<lparr>sv_wake := True\<rparr>, None))"

definition EndSession :: "server \<Rightarrow> server" where
  "EndSession s = s\<lparr>sv_registered := False, sv_wake := True\<rparr>"

definition EchoKeepAlive :: "server \<Rightarrow> bool \<Rightarrow> server" where
  "EchoKeepAlive s on = s\<lparr>sv_echo := on\<rparr>"

text \<open>
  The handshake of \<^verbatim>\<open>Serve\<close>, up to the point where its loops start: the sequence number the
  writer starts from. \<open>takeOver\<close> has waited for the previous link by then.
\<close>

definition Serve ::
  "secretbox \<Rightarrow> codecs \<Rightarrow> 'w writer \<Rightarrow> (server \<Rightarrow> server) \<Rightarrow> server \<Rightarrow> nat \<Rightarrow> 'w \<Rightarrow> reader \<Rightarrow> server \<times> 'w \<times> int result" where
  "Serve sb pb wr upd s c w r =
     (case ReadMessage (pb_ConnectRequest pb) r of
        (Inl e, r1) \<Rightarrow> (s, w, Inl (Wrap ''etservertest: connect request'' [e]))
      | (Inr req, r1) \<Rightarrow>
          (case server_admit s req of
             (s1, status, text) \<Rightarrow>
               (let resp = ConnectResponse_SetStatus status new_ConnectResponse;
                    resp = (if text \<noteq> '''' then ConnectResponse_SetError text resp else resp)
                in case WriteMessage (pb_ConnectResponse pb) wr w resp of
                     (w1, Some e) \<Rightarrow> (s1, w1, Inl (Wrap ''etservertest: connect response'' [e]))
                   | (w1, None) \<Rightarrow>
                       if status \<noteq> ConnectStatus_NEW_CLIENT \<and> status \<noteq> ConnectStatus_RETURNING_CLIENT
                       then (s1, w1, Inl (OtherError ''etservertest: rejected''))
                       else
                         (case takeOver s1 c of
                            (s2, prev) \<Rightarrow>
                              if status = ConnectStatus_RETURNING_CLIENT
                              then server_recover sb pb wr upd s2 w1 r1
                              else (s2, w1, Inr 0)))))"

section \<open>The network (network.go)\<close>

record pair =
  pr_remaining :: int
  pr_closed :: bool

record network =
  nw_ended :: bool
  nw_pairs :: "(nat \<times> pair) list"
  nw_refuse :: bool
  nw_dials :: nat
  nw_cutAfter :: int

definition NewNetwork :: network where
  "NewNetwork =
     \<lparr>nw_ended = False, nw_pairs = [], nw_refuse = False, nw_dials = 0, nw_cutAfter = - 1\<rparr>"

text \<open>\<^verbatim>\<open>DialContext\<close>: pairs are numbered by the dial that made them.\<close>

definition network_DialContext :: "network \<Rightarrow> go_error option \<Rightarrow> network \<times> nat result" where
  "network_DialContext n ctx =
     (let n1 = n\<lparr>nw_dials := nw_dials n + 1\<rparr> in
      case ctx of
        Some e \<Rightarrow> (n1, Inl (Wrap ''dial'' [e]))
      | None \<Rightarrow>
          if nw_refuse n1 \<or> nw_ended n1
          then (n1, Inl (Wrap ''dial'' [OtherError ''connection refused'']))
          else
            (n1\<lparr>nw_cutAfter := - 1,
                nw_pairs := (nw_dials n1, \<lparr>pr_remaining = nw_cutAfter n1, pr_closed = False\<rparr>) # nw_pairs n1\<rparr>,
             Inr (nw_dials n1)))"

text \<open>The goroutine it starts, when \<^verbatim>\<open>Serve\<close> has returned: the pair is closed and forgotten.\<close>

definition network_served :: "network \<Rightarrow> nat \<Rightarrow> network" where
  "network_served n k = n\<lparr>nw_pairs := filter (\<lambda>(j, p). j \<noteq> k) (nw_pairs n)\<rparr>"

definition pair_close :: "pair \<Rightarrow> pair" where
  "pair_close p = p\<lparr>pr_closed := True\<rparr>"

definition CutAll :: "network \<Rightarrow> network" where
  "CutAll n = n\<lparr>nw_pairs := map (\<lambda>(k, p). (k, pair_close p)) (nw_pairs n)\<rparr>"

definition CutAfter :: "network \<Rightarrow> int \<Rightarrow> network" where
  "CutAfter n bytes = n\<lparr>nw_cutAfter := bytes\<rparr>"

definition SetRefuse :: "network \<Rightarrow> bool \<Rightarrow> network" where
  "SetRefuse n on = n\<lparr>nw_refuse := on\<rparr>"

definition network_Close :: "network \<Rightarrow> network" where
  "network_Close n = CutAll (n\<lparr>nw_ended := True\<rparr>)"

definition pair_take :: "pair \<Rightarrow> nat \<Rightarrow> pair \<times> nat \<times> bool" where
  "pair_take p n =
     (if pr_remaining p < 0 then (p, n, False)
      else
        (let allowed = nat (min (int n) (pr_remaining p));
             p' = p\<lparr>pr_remaining := pr_remaining p - int allowed\<rparr>
         in (p', allowed, pr_remaining p' = 0)))"

text \<open>\<^verbatim>\<open>pipeEnd.Write\<close>; \<open>pipe\<close> is the \<^verbatim>\<open>Write\<close> of the \<^verbatim>\<open>net.Pipe\<close> end.\<close>

definition pipeEnd_Write :: "'w writer \<Rightarrow> (pair \<times> 'w) writer" where
  "pipeEnd_Write pipe st b =
     (case st of (p, w) \<Rightarrow>
        (case pair_take p (length b) of
           (p1, allowed, over) \<Rightarrow>
             (case pipe w (take allowed b) of
                (w', n, err) \<Rightarrow>
                  if over then ((pair_close p1, w'), n,
                               if err = None \<and> n < length b then Some ErrClosedPipe else err)
                  else ((p1, w'), n, err))))"

text \<open>\<^verbatim>\<open>pipeEnd.Close\<close> cuts both ends and never fails; \<^verbatim>\<open>Dials\<close> counts refused dials too.\<close>

definition pipeEnd_Close :: "pair \<Rightarrow> pair \<times> go_error option" where
  "pipeEnd_Close p = (pair_close p, None)"

definition network_Dials :: "network \<Rightarrow> nat" where
  "network_Dials n = nw_dials n"

lemma network_Dials_counts: "network_Dials (fst (network_DialContext n ctx)) = Suc (network_Dials n)"
  by (simp add: network_Dials_def network_DialContext_def Let_def split: option.splits)

end
