(* ===== verification/ET_Reader.thy ===== *)
theory ET_Reader
  imports ET_Conn
begin

text \<open>
  A pass of \<^verbatim>\<open>readLoop\<close> (\<^verbatim>\<open>internal/etcp/link.go\<close>) in two halves. The reader can be delayed inside its
  pass, in \<^verbatim>\<open>handOver\<close>, and the others run meanwhile: callers and the writer see the packet already
  counted and the hold released, the watcher sees \<^verbatim>\<open>delivering\<close>. \<open>reader_begin\<close> is the pass up to that
  wait, \<open>reader_finish\<close> what follows it, and \<open>readLoop_pass_split\<close> shows that without a delay
  the two are the pass.
\<close>

text \<open>\<^verbatim>\<open>deliver\<close> up to its call of \<^verbatim>\<open>handOver\<close>.\<close>

definition deliver_open :: "secretbox \<Rightarrow> conn \<Rightarrow> bytes \<Rightarrow> conn \<times> packet result" where
  "deliver_open sb c b =
     (if MaxFrameSize < length b then
        (case conn_fail c (Wrap ''packet of bytes'' [ErrIntegrity, ErrTooLarge]) of (c', e) \<Rightarrow> (c', Inl e))
      else
        (case ParsePacket b of
           Inl e \<Rightarrow> (case conn_fail c (Wrap '''' [ErrIntegrity, e]) of (c', e') \<Rightarrow> (c', Inl e'))
         | Inr (encrypted, h, payload) \<Rightarrow>
             if \<not> encrypted then
               (case conn_fail c (Wrap ''unencrypted packet'' [ErrIntegrity]) of (c', e) \<Rightarrow> (c', Inl e))
             else
               (case Stream_Open sb (cn_in c) [] payload of
                  (s', Inl e) \<Rightarrow>
                    (case conn_fail (c\<lparr>cn_in := s'\<rparr>) (Wrap '''' [ErrIntegrity, e]) of
                       (c', e') \<Rightarrow> (c', Inl e'))
                | (s', Inr plain) \<Rightarrow>
                    (c\<lparr>cn_in := s', cn_recvSeq := cn_recvSeq c + 1\<rparr>,
                     Inr \<lparr>pkt_header = h, pkt_payload = plain\<rparr>))))"

text \<open>
  A pass up to \<^verbatim>\<open>handOver\<close>: the packet to hand over, and whether it is the head of \<^verbatim>\<open>pending\<close>; or the
  error the loop returns.
\<close>

definition reader_begin ::
  "secretbox \<Rightarrow> conn \<Rightarrow> link \<Rightarrow> link_reader \<Rightarrow> conn \<times> link \<times> link_reader \<times> (packet \<times> bool) result" where
  "reader_begin sb c l rd =
     (case cn_pending c of
        p # ps \<Rightarrow> (c, l, rd, Inr (p, True))
      | [] \<Rightarrow>
          (case rd_catchup rd of
             b # bs \<Rightarrow>
               (case deliver_open sb c b of
                  (c', Inl e) \<Rightarrow> (c', l, rd, Inl e)
                | (c', Inr p) \<Rightarrow> (c', l, rd\<lparr>rd_catchup := bs\<rparr>, Inr (p, False)))
           | [] \<Rightarrow>
               (case ReadFrame (rd_stream rd) (rd_cap rd) of
                  (Inl e, r') \<Rightarrow>
                    if errors_Is e ErrTooLarge then
                      (case conn_fail c (Wrap '''' [ErrIntegrity, e]) of
                         (c', e') \<Rightarrow> (c', l, rd\<lparr>rd_stream := r'\<rparr>, Inl e'))
                    else (c, l, rd\<lparr>rd_stream := r'\<rparr>, Inl (Wrap ''etcp: read'' [e]))
                | (Inr (frame, cp), r') \<Rightarrow>
                    (let l1 = l\<lparr>lk_alive := True\<rparr>;
                         c1 = (if rd_released rd then c else releaseHold c);
                         rd1 = rd\<lparr>rd_stream := r', rd_cap := cp, rd_released := True\<rparr>
                     in case deliver_open sb c1 frame of
                          (c', Inl e) \<Rightarrow> (c', l1, rd1, Inl e)
                        | (c', Inr p) \<Rightarrow> (c', l1, rd1, Inr (p, False))))))"

text \<open>
  What follows the wait: on success the packet is taken off \<^verbatim>\<open>pending\<close> if it came from there; when
  the link ended first, a packet just opened is kept in \<^verbatim>\<open>pending\<close>.
\<close>

definition reader_finish ::
  "conn \<Rightarrow> link \<Rightarrow> packet \<Rightarrow> bool \<Rightarrow> go_error option \<Rightarrow> (conn \<times> link \<times> go_error option) option" where
  "reader_finish c l p old hand =
     (case handOver c l p hand of
        None \<Rightarrow> None
      | Some (c', l', None) \<Rightarrow> Some (if old then c'\<lparr>cn_pending := tl (cn_pending c')\<rparr> else c', l', None)
      | Some (c', l', Some e) \<Rightarrow>
          Some (if old then c' else c'\<lparr>cn_pending := cn_pending c' @ [p]\<rparr>, l', Some e))"

lemma deliver_split:
  "deliver sb c l b hand =
     (case deliver_open sb c b of
        (c', Inl e) \<Rightarrow> Some (c', l, Some e)
      | (c', Inr p) \<Rightarrow> reader_finish c' l p False hand)"
  by (simp add: deliver_def deliver_open_def reader_finish_def conn_fail_def Let_def
      split: sum.splits prod.splits option.splits)

text \<open>The two halves, run without delay, are the pass (its reader state matters only if it goes on).\<close>

lemma readLoop_pass_split:
  "map_option (\<lambda>(c', l', rd', oe). (c', l', if oe = None then Some rd' else None, oe))
      (readLoop_pass sb c l rd hand) =
   (case reader_begin sb c l rd of
      (c1, l1, rd1, Inl e) \<Rightarrow> Some (c1, l1, None, Some e)
    | (c1, l1, rd1, Inr (p, old)) \<Rightarrow>
        map_option (\<lambda>(c', l', oe). (c', l', if oe = None then Some rd1 else None, oe))
          (reader_finish c1 l1 p old hand))"
proof (cases "cn_pending c")
  case (Cons p ps)
  then show ?thesis
    by (auto simp: readLoop_pass_def reader_begin_def reader_finish_def handOver_def Let_def
        split: option.splits)
next
  case Nil
  show ?thesis
  proof (cases "rd_catchup rd")
    case (Cons b bs)
    with Nil show ?thesis
      by (cases "deliver_open sb c b"; cases "snd (deliver_open sb c b)")
        (auto simp: readLoop_pass_def reader_begin_def deliver_split split: option.splits)
  next
    case catchup: Nil
    obtain res r' where rf: "ReadFrame (rd_stream rd) (rd_cap rd) = (res, r')" by fastforce
    show ?thesis
    proof (cases res)
      case (Inl e)
      with Nil catchup rf show ?thesis
        by (simp add: readLoop_pass_def reader_begin_def conn_fail_def)
    next
      case (Inr fc)
      let ?c = "if rd_released rd then c else releaseHold c"
      from Nil catchup rf Inr show ?thesis
        by (cases fc; cases "deliver_open sb ?c (fst fc)"; cases "snd (deliver_open sb ?c (fst fc))")
          (auto simp: readLoop_pass_def reader_begin_def deliver_split Let_def split: option.splits)
    qed
  qed
qed

section \<open>More bytes on the link\<close>

text \<open>
  What the reader opens does not depend on bytes behind the frame it takes, nor on how the stream
  ends, nor on its buffer; and a length over the limit is refused whatever follows.
\<close>

lemma ReadFrame_more:
  assumes "ReadFrame r cp = (Inr (f, cp'), r')"
  shows "\<exists>c. ReadFrame \<lparr>avail = avail r @ x, rend = e\<rparr> cp2 = (Inr (f, c), \<lparr>avail = avail r' @ x, rend = e\<rparr>)"
  using ReadFrame_sound [OF assms] ReadFrame_frame_bytes [of f "avail r' @ x" e cp2] by simp

lemma ReadFrame_rend: "ReadFrame r cp = (Inr (f, cp'), r') \<Longrightarrow> rend r' = rend r"
  using ReadFrame_more [of r cp f cp' r' "[]" "rend r" cp] by (cases r; cases r') auto

lemma ReadFrame_oversized:
  assumes "ReadFrame r cp = (Inl e, r')" and "errors_Is e ErrTooLarge" and "\<not> errors_Is (rend r) ErrTooLarge"
  shows "\<exists>r2. ReadFrame \<lparr>avail = avail r @ x, rend = e2\<rparr> cp2 = (Inl e, r2)"
proof -
  have hdr: "\<not> errors_Is (headerErr n t) ErrTooLarge" if "\<not> errors_Is t ErrTooLarge" for n t
    using that by (simp add: headerErr_def)
  have four: "4 \<le> length (avail r)"
  proof (rule ccontr)
    assume "\<not> 4 \<le> length (avail r)"
    then have "io_ReadFull r 4 =
        (avail r, Some (if rend r = EOF \<and> avail r \<noteq> [] then ErrUnexpectedEOF else rend r), r\<lparr>avail := []\<rparr>)"
      by (intro io_ReadFull_short) simp
    with assms hdr show False by (auto simp: ReadFrame_def Let_def split: if_splits)
  qed
  let ?n = "BigEndian_Uint32 (take 4 (avail r)) :: 32 word"
  have "\<not> errors_Is (bodyErr (rend r)) ErrTooLarge" using hdr assms(3) by (simp add: bodyErr_def)
  then have "of_nat MaxFrameSize < ?n \<and> e = Wrap ''wire: read frame length'' [ErrTooLarge]"
    using assms(1,2) four readBody_enough [of "unat ?n" "r\<lparr>avail := drop 4 (avail r)\<rparr>" "max cp 4"]
      readBody_short [of "r\<lparr>avail := drop 4 (avail r)\<rparr>" "unat ?n" "max cp 4"]
    by (cases "unat ?n \<le> length (drop 4 (avail r))")
      (auto simp: ReadFrame_def io_ReadFull_def Let_def not_le split: if_splits)
  with four show ?thesis by (simp add: ReadFrame_def io_ReadFull_def)
qed

lemma reader_begin_more:
  assumes p: "reader_begin sb c l rd = (c', l', rd', res)" and pend: "cn_pending c = []"
    and same: "rd_catchup rd2 = rd_catchup rd" "rd_released rd2 = rd_released rd"
    and fine: "\<not> errors_Is (rend (rd_stream rd)) ErrTooLarge"
    and RD_def: "RD = rd2\<lparr>rd_stream := \<lparr>avail = avail (rd_stream rd) @ x, rend = e\<rparr>\<rparr>"
  shows "case res of
      Inl e1 \<Rightarrow> c' = c \<or> (\<exists>l2 rd2' e2. reader_begin sb c l RD = (c', l2, rd2', Inl e2))
    | Inr q \<Rightarrow> \<exists>l2 rd2'. reader_begin sb c l RD = (c', l2, rd2', Inr q)
        \<and> rd_catchup rd2' = rd_catchup rd' \<and> rd_released rd2' = rd_released rd'
        \<and> avail (rd_stream rd2') = avail (rd_stream rd') @ x
        \<and> (\<exists>z. avail (rd_stream rd) = z @ avail (rd_stream rd')) \<and> rend (rd_stream rd') = rend (rd_stream rd)"
proof (cases "rd_catchup rd")
  case (Cons b bs)
  with p pend same show ?thesis
    by (cases "deliver_open sb c b"; cases "snd (deliver_open sb c b)")
      (auto simp: reader_begin_def RD_def)
next
  case Nil
  obtain fr r' where rf: "ReadFrame (rd_stream rd) (rd_cap rd) = (fr, r')" by fastforce
  show ?thesis
  proof (cases fr)
    case (Inl e1)
    show ?thesis
    proof (cases "errors_Is e1 ErrTooLarge")
      case True
      from ReadFrame_oversized [OF rf [unfolded Inl] True fine, of x e "rd_cap rd2"] p pend Nil same rf Inl True
      show ?thesis by (auto simp: reader_begin_def RD_def conn_fail_def)
    next
      case False
      with p pend Nil rf Inl show ?thesis by (auto simp: reader_begin_def)
    qed
  next
    case (Inr fc)
    obtain f cp where fc: "fc = (f, cp)" by fastforce
    obtain cp2 where more: "ReadFrame \<lparr>avail = avail (rd_stream rd) @ x, rend = e\<rparr> (rd_cap rd2) =
        (Inr (f, cp2), \<lparr>avail = avail r' @ x, rend = e\<rparr>)"
      using ReadFrame_more [OF rf [unfolded Inr fc]] by blast
    have r': "avail (rd_stream rd) = frame_bytes f @ avail r'" "rend r' = rend (rd_stream rd)"
      using ReadFrame_sound [OF rf [unfolded Inr fc]] ReadFrame_rend [OF rf [unfolded Inr fc]] by simp_all
    obtain c1 r where d: "deliver_open sb (if rd_released rd then c else releaseHold c) f = (c1, r)" by fastforce
    show ?thesis
      using p pend Nil same rf Inr fc more d r'
      by (cases r; cases "rd_released rd") (auto simp: reader_begin_def RD_def)
  qed
qed

end
