(* ===== verification/ET_Channel.thy ===== *)
theory ET_Channel
  imports ET_Dial ET_Server ET_Reader
begin

text \<open>
  What the two directions of a session have in common, whichever end sends: the log of everything
  a sealed stream ever sent, and the bytes of a link as a part of that log. Then the invariants of
  the two ends towards the packets their callers gave them, which every operation keeps.
\<close>

section \<open>Sealed logs\<close>

definition sealed_at :: "secretbox \<Rightarrow> stream \<Rightarrow> nat \<Rightarrow> packet \<Rightarrow> bytes" where
  "sealed_at sb s0 i p = 1 # pkt_header p # box_at sb s0 i (pkt_payload p)"

definition sealed_log :: "secretbox \<Rightarrow> stream \<Rightarrow> packet list \<Rightarrow> bytes list" where
  "sealed_log sb s0 ps = map (\<lambda>i. sealed_at sb s0 i (ps ! i)) [0..<length ps]"

definition fits :: "packet \<Rightarrow> bool" where
  "fits p \<longleftrightarrow> length (pkt_payload p) \<le> maxPayload"

lemma length_sealed_log [simp]: "length (sealed_log sb s0 ps) = length ps"
  by (simp add: sealed_log_def)

lemma sealed_log_nth [simp]: "i < length ps \<Longrightarrow> sealed_log sb s0 ps ! i = sealed_at sb s0 i (ps ! i)"
  by (simp add: sealed_log_def)

lemma sealed_log_Nil [simp]: "sealed_log sb s0 [] = []"
  by (simp add: sealed_log_def)

lemma sealed_log_snoc: "sealed_log sb s0 (ps @ [p]) = sealed_log sb s0 ps @ [sealed_at sb s0 (length ps) p]"
  by (auto simp: sealed_log_def nth_append)

lemma length_sealed_at [bytes_simps]:
  "secretbox_laws sb \<Longrightarrow> length (sealed_at sb s0 i p) = 2 + secretbox_Overhead + length (pkt_payload p)"
  by (simp add: sealed_at_def bytes_simps)

lemma sealed_at_fits: "secretbox_laws sb \<Longrightarrow> fits p \<Longrightarrow> frame_ok (sealed_at sb s0 i p)"
  by (simp add: frame_ok_def fits_def bytes_simps maxPayload_def MaxFrameSize_def secretbox_Overhead_def)

lemma sealed_log_fits:
  "secretbox_laws sb \<Longrightarrow> list_all fits ps \<Longrightarrow> list_all frame_ok (sealed_log sb s0 ps)"
  by (auto simp: list_all_length sealed_at_fits)

lemma sealed_log_long: "secretbox_laws sb \<Longrightarrow> list_all (\<lambda>e. 18 \<le> length e) (sealed_log sb s0 ps)"
  by (auto simp: list_all_length bytes_simps secretbox_Overhead_def)

lemma sealed_packet_at: "sealed_packet sb (stream_at s0 i) p = sealed_at sb s0 i p"
  by (simp add: sealed_packet_def Stream_Seal_at sealed_at_def AppendPacket_def)

section \<open>Links as parts of a L\<close>

definition part :: "'a list \<Rightarrow> nat \<Rightarrow> nat \<Rightarrow> 'a list" where
  "part xs i j = take (j - i) (drop i xs)"

text \<open>
  A link being written: what is in flight, \<open>w\<close>, and what the writer still has in its buffer,
  \<open>rest\<close>, are together the frames of the log from \<open>base\<close> up to \<open>till\<close>.
\<close>

definition chan_ok :: "bytes list \<Rightarrow> nat \<Rightarrow> nat \<Rightarrow> bytes \<Rightarrow> bytes \<Rightarrow> bool" where
  "chan_ok L base till w rest \<longleftrightarrow> base \<le> till \<and> till \<le> length L
     \<and> w @ rest = concat (map frame_bytes (part L base till))"

text \<open>What a reader may still receive, also after the writer is gone.\<close>

definition chan_prefix :: "bytes list \<Rightarrow> nat \<Rightarrow> bytes \<Rightarrow> bool" where
  "chan_prefix L base w \<longleftrightarrow> base \<le> length L
     \<and> (\<exists>z. w @ z = concat (map frame_bytes (drop base L)))"

lemma part_self [simp]: "part xs i i = []"
  by (simp add: part_def)

lemma length_part: "j \<le> length xs \<Longrightarrow> length (part xs i j) = j - i"
  by (simp add: part_def)

lemma part_append_log: "j \<le> length xs \<Longrightarrow> part (xs @ ys) i j = part xs i j"
  by (simp add: part_def)

lemma part_join: "i \<le> j \<Longrightarrow> j \<le> k \<Longrightarrow> part xs i j @ part xs j k = part xs i k"
proof -
  assume "i \<le> j" "j \<le> k"
  then have "k - i = (j - i) + (k - j)" "drop (j - i) (drop i xs) = drop j xs" by auto
  then show ?thesis by (simp add: part_def take_add)
qed

lemma part_Cons: "i < j \<Longrightarrow> j \<le> length xs \<Longrightarrow> part xs i j = xs ! i # part xs (Suc i) j"
  by (simp add: part_def Cons_nth_drop_Suc [symmetric] take_Cons' )

lemma part_drop: "part xs i (length xs) = drop i xs"
  by (simp add: part_def)

lemma chan_ok_prefix: "chan_ok L base till w rest \<Longrightarrow> chan_prefix L base w"
proof -
  assume c: "chan_ok L base till w rest"
  then have "concat (map frame_bytes (drop base L)) =
      (w @ rest) @ concat (map frame_bytes (part L till (length L)))"
    using part_join [of base till "length L" L]
    by (simp add: chan_ok_def flip: part_drop concat_append map_append)
  moreover have "base \<le> length L" using c by (simp add: chan_ok_def)
  ultimately show ?thesis unfolding chan_prefix_def by (metis append.assoc)
qed

lemma chan_ok_log: "chan_ok L base till w rest \<Longrightarrow> chan_ok (L @ M) base till w rest"
  by (auto simp: chan_ok_def part_append_log)

lemma chan_prefix_log: "chan_prefix L base w \<Longrightarrow> chan_prefix (L @ M) base w"
proof -
  assume "chan_prefix L base w"
  then obtain z where "base \<le> length L" "w @ z = concat (map frame_bytes (drop base L))"
    by (auto simp: chan_prefix_def)
  then show ?thesis
    by (auto simp: chan_prefix_def intro!: exI [of _ "z @ concat (map frame_bytes M)"])
qed

lemma chan_ok_new: "base \<le> length L \<Longrightarrow> chan_ok L base base [] []"
  by (simp add: chan_ok_def)

lemma chan_ok_write: "chan_ok L base till w (xs @ ys) \<Longrightarrow> chan_ok L base till (w @ xs) ys"
  by (simp add: chan_ok_def)

lemma chan_ok_start:
  assumes "chan_ok L base till w []" and "k \<le> length L - till"
  shows "chan_ok L base (till + k) w (concat (map frame_bytes (take k (drop till L))))"
proof -
  have "till + k \<le> length L" using assms by (auto simp: chan_ok_def)
  then show ?thesis
    using assms part_join [of base till "till + k" L]
    by (simp add: chan_ok_def part_def flip: concat_append map_append)
qed

text \<open>Reading a frame off a link: it is the next packet of the log, whatever buffer is reused.\<close>

lemma chan_read:
  assumes ok: "list_all frame_ok L" and pre: "chan_prefix L base w"
    and rd: "ReadFrame \<lparr>avail = w, rend = EOF\<rparr> cp = (Inr (f, cp'), r')"
  shows "base < length L" and "f = L ! base" and "w = frame_bytes f @ avail r'"
    and "chan_prefix L (Suc base) (avail r')"
proof -
  from ReadFrame_sound [OF rd] have f: "frame_ok f" "w = frame_bytes f @ avail r'" by simp_all
  from pre obtain z where z: "base \<le> length L" "w @ z = concat (map frame_bytes (drop base L))"
    by (auto simp: chan_prefix_def)
  have len: "length w > 0" using f by (simp add: length_frame_bytes)
  then have lt: "base < length L" using z by (cases "base < length L") auto
  then have dr: "drop base L = L ! base # drop (Suc base) L" by (simp add: Cons_nth_drop_Suc)
  have okb: "frame_ok (L ! base)" using ok lt by (simp add: list_all_length)
  have "take_frame (w @ z) = Some (f, avail r' @ z)" using frames.dec_enc [OF f(1)] f(2) by simp
  moreover have "take_frame (w @ z) = Some (L ! base, concat (map frame_bytes (drop (Suc base) L)))"
    using frames.dec_enc [OF okb] z(2) dr by simp
  ultimately have eq: "f = L ! base" "avail r' @ z = concat (map frame_bytes (drop (Suc base) L))"
    by simp_all
  show "base < length L" and "f = L ! base" and "w = frame_bytes f @ avail r'"
    using lt eq f by simp_all
  show "chan_prefix L (Suc base) (avail r')"
    using lt eq(2) by (auto simp: chan_prefix_def)
qed

lemma chan_ok_read:
  assumes "list_all frame_ok L" and "chan_ok L base till w rest"
    and "ReadFrame \<lparr>avail = w, rend = EOF\<rparr> cp = (Inr (f, cp'), r')"
  shows "chan_ok L (Suc base) till (avail r') rest"
proof -
  note rd = chan_read [OF assms(1) chan_ok_prefix [OF assms(2)] assms(3)]
  have "base < till" using assms(2) rd(3) length_frame_bytes [of f] ReadFrame_sound [OF assms(3)]
    by (cases "base = till") (auto simp: chan_ok_def)
  with assms(2) rd show ?thesis by (auto simp: chan_ok_def part_Cons)
qed

text \<open>A link never looks like an oversized frame: a failed read is the end of the link.\<close>

lemma chan_read_error:
  assumes ok: "list_all frame_ok L" and pre: "chan_prefix L base w"
    and rd: "ReadFrame \<lparr>avail = w, rend = EOF\<rparr> cp = (Inl e, r')"
  shows "\<not> errors_Is e ErrTooLarge"
proof -
  from pre obtain z where z: "base \<le> length L" "w @ z = concat (map frame_bytes (drop base L))"
    by (auto simp: chan_prefix_def)
  show ?thesis
  proof (cases "w = []")
    case True
    with rd show ?thesis by (auto simp: ReadFrame_def io_ReadFull_def headerErr_def)
  next
    case False
    then have lt: "base < length L" using z by (cases "base < length L") auto
    let ?f = "L ! base"
    have okb: "frame_ok ?f" using ok lt by (simp add: list_all_length)
    have cat: "w @ z = frame_bytes ?f @ concat (map frame_bytes (drop (Suc base) L))"
      using z(2) lt by (simp add: Cons_nth_drop_Suc [symmetric])
    show ?thesis
    proof (cases "length w < length (frame_bytes ?f)")
      case True
      have "w = take (length w) (frame_bytes ?f)"
        using cat True by (metis append_eq_append_conv_if less_imp_le take_all_iff append_take_drop_id)
      with ReadFrame_cut [OF okb True, of cp] rd show ?thesis
        by (auto split: if_splits)
    next
      case False
      then have "w = frame_bytes ?f @ drop (length (frame_bytes ?f)) w"
        using cat by (metis append_eq_append_conv_if append_take_drop_id not_less)
      with ReadFrame_frame_bytes [OF okb, of "drop (length (frame_bytes ?f)) w" EOF cp] rd show ?thesis
        by (metis Inl_Inr_False prod.inject)
    qed
  qed
qed

section \<open>The client's outbound side\<close>

definition bytes_in :: "bytes list \<Rightarrow> nat \<Rightarrow> nat \<Rightarrow> int" where
  "bytes_in L i j = (\<Sum>e\<leftarrow>part L i j. int (length e))"

text \<open>
  A packet left the replay window only because the written packets from it on exceeded the limit.
\<close>

definition trim_justified :: "conn \<Rightarrow> bytes list \<Rightarrow> bool" where
  "trim_justified c L \<longleftrightarrow> (\<forall>s. 0 \<le> s \<longrightarrow> s < rg_first (cn_ring c)
     \<longrightarrow> rg_limit (cn_ring c) < bytes_in L (nat s) (nat (cn_flushed c)))"

definition out_ok :: "secretbox \<Rightarrow> stream \<Rightarrow> packet list \<Rightarrow> conn \<Rightarrow> bool" where
  "out_ok sb co gc c \<longleftrightarrow> conn_inv c \<and> rg_limit (cn_ring c) \<le> 64 * 2 ^ 20
     \<and> ring.logs (cn_ring c) (sealed_log sb co gc) \<and> cn_out c = stream_at co (length gc)
     \<and> list_all fits gc \<and> trim_justified c (sealed_log sb co gc)"

lemma logs_hold_irrel [simp]:
  "ring.logs (r\<lparr>rg_held := h\<rparr>) L = ring.logs r L" "ring.logs (r\<lparr>rg_hold := k\<rparr>) L = ring.logs r L"
  by (simp_all add: ring.logs_def)

lemma logs_next: "ring.logs r L \<Longrightarrow> ring_next r = int (length L)"
  by (simp add: ring.logs_def)

lemma logs_range:
  assumes "ring_wf r" and "ring.logs r L" and "rg_first r \<le> a" and "a \<le> b" and "b \<le> ring_next r"
  shows "ring_appendRange r [] a b = part L (nat a) (nat b)"
proof -
  have "ring_since r a b = Some (ring_appendRange r [] a b)" using assms by (simp add: ring_since_def)
  with ring.since_logs [OF assms(1,2) this] show ?thesis by (simp add: part_def)
qed

lemma logs_bytes:
  assumes "ring_wf r" and "ring.logs r L" and "rg_first r \<le> a" and "a \<le> b" and "b \<le> ring_next r"
  shows "ring_bytesBetween r a b = bytes_in L (nat a) (nat b)"
  using logs_range [OF assms] by (simp add: bytesBetween_range bytes_in_def)

lemma bytes_in_mono: "i \<le> j \<Longrightarrow> j \<le> k \<Longrightarrow> bytes_in L i j \<le> bytes_in L i k"
  using part_join [of i j k L, symmetric] sum_list_lengths_nonneg [of "part L j k"]
  by (simp add: bytes_in_def)

lemma bytes_in_log: "j \<le> length L \<Longrightarrow> bytes_in (L @ M) i j = bytes_in L i j"
  by (simp add: bytes_in_def part_append_log)

lemma out_ok_cong:
  assumes "out_ok sb co gc c" and "cn_ring c' = cn_ring c" and "cn_flushed c' = cn_flushed c"
    and "cn_unsent c' = cn_unsent c" and "cn_lastProbe c' = cn_lastProbe c"
    and "length (cn_inbox c') \<le> inboxSize" and "cn_probe c' = cn_probe c" and "cn_out c' = cn_out c"
  shows "out_ok sb co gc c'"
proof -
  have "conn_inv (c\<lparr>cn_inbox := cn_inbox c'\<rparr>)"
    using assms(1,6) by (intro conn_inv_inbox) (simp_all add: out_ok_def)
  then have "conn_inv c'" by (rule conn_inv_cong) (simp_all add: assms)
  with assms show ?thesis by (simp add: out_ok_def trim_justified_def)
qed

lemma out_ok_D:
  assumes "out_ok sb co gc c"
  shows "conn_inv c" and "ring_wf (cn_ring c)" and "0 \<le> cn_flushed c"
    and "cn_flushed c \<le> int (length gc)" and "ring_next (cn_ring c) = int (length gc)"
    and "length (cn_inbox c) \<le> inboxSize"
  using assms logs_next [of "cn_ring c" "sealed_log sb co gc"]
  by (auto simp: out_ok_def conn_inv_def conn_wf_def ring_wf_def)

lemma out_ok_push:
  assumes ok: "out_ok sb co gc c" and "fits p" and inv: "conn_inv c'"
    and c': "cn_ring c' = ring_push (cn_ring c) (sealed_packet sb (cn_out c) p)"
      "cn_out c' = (cn_out c)\<lparr>st_nonce := increment (st_nonce (cn_out c))\<rparr>"
      "cn_flushed c' = cn_flushed c"
  shows "out_ok sb co (gc @ [p]) c'"
proof -
  let ?L = "sealed_log sb co gc"
  have logs: "ring.logs (cn_ring c) ?L" and out: "cn_out c = stream_at co (length gc)"
    using ok by (simp_all add: out_ok_def)
  have d: "sealed_packet sb (cn_out c) p = sealed_at sb co (length gc) p"
    by (simp add: out sealed_packet_at)
  have "ring.logs (cn_ring c') (sealed_log sb co (gc @ [p]))"
    using ring.logs_push [OF out_ok_D(2) [OF ok] logs] by (simp add: sealed_log_snoc c'(1) d)
  moreover have "trim_justified c' (sealed_log sb co (gc @ [p]))"
    using ok out_ok_D(3,4) [OF ok]
    by (auto simp: c' trim_justified_def out_ok_def sealed_log_snoc bytes_in_log nat_le_iff)
  moreover have "cn_out c' = stream_at co (length (gc @ [p]))"
    by (simp add: c'(2)) (simp add: out stream_at_def)
  ultimately show ?thesis using inv ok assms(2) by (simp add: out_ok_def c'(1))
qed

lemma out_ok_advance:
  assumes ok: "out_ok sb co gc c" and f: "cn_flushed c \<le> f" "f \<le> ring_next (cn_ring c)"
    and u: "u = cn_unsent c - ring_bytesBetween (cn_ring c) (cn_flushed c) f"
    and r: "r = (cn_ring c)\<lparr>rg_held := h, rg_hold := k\<rparr>"
  shows "out_ok sb co gc (c\<lparr>cn_flushed := f, cn_unsent := u, cn_ring := ring_trim r f u\<rparr>)" (is "out_ok _ _ _ ?c")
proof -
  let ?L = "sealed_log sb co gc"
  have logs: "ring.logs (cn_ring c) ?L" using ok by (simp add: out_ok_def)
  note wf = out_ok_D [OF ok]
  have inv: "conn_inv ?c" using conn_inv_advance [OF wf(1) f u r] .
  have logs_r: "ring_wf r" "ring.logs r ?L" using wf(2) logs r by simp_all
  have first: "rg_first r \<le> f" "f \<le> ring_next r"
    using wf(1) f r by (auto simp: conn_inv_def conn_wf_def)
  have u': "u = unsent_from r f"
    using u r wf(1) f bytesBetween_split [of "cn_ring c" "cn_flushed c" f "ring_next (cn_ring c)"]
    by (simp add: conn_inv_def conn_wf_def unsent_from_def)
  have "rg_limit (cn_ring c) < bytes_in ?L (nat s) (nat f)"
    if s: "0 \<le> s" "s < rg_first (ring_trim r f u)" for s
  proof (cases "s < rg_first (cn_ring c)")
    case True
    then have "rg_limit (cn_ring c) < bytes_in ?L (nat s) (nat (cn_flushed c))"
      using ok s(1) by (simp add: out_ok_def trim_justified_def)
    also have "\<dots> \<le> bytes_in ?L (nat s) (nat f)"
      using True wf(1,3) f(1) by (intro bytes_in_mono) (auto simp: conn_inv_def conn_wf_def)
    finally show ?thesis .
  next
    case False
    then have "rg_first r \<le> s" using r by simp
    from ring_trim_dropped [OF logs_r(1) first this] s(2) u'
    have "rg_limit r < ring_bytesBetween r s f"
      using logs_r(1) by (auto simp: ring_wf_def split: if_splits)
    moreover have "s \<le> f"
      using s(2) ring_trim_first [of r f u] first by linarith
    ultimately show ?thesis
      using logs_bytes [OF logs_r \<open>rg_first r \<le> s\<close> _ first(2)] r by simp
  qed
  then have "trim_justified ?c ?L" using r by (simp add: trim_justified_def)
  with inv ok ring.logs_trim [OF logs_r] r show ?thesis by (simp add: out_ok_def)
qed

lemma out_ok_WritePacket:
  assumes "out_ok sb co gc c" and "secretbox_laws sb" and "fits p"
    and "WritePacket_pass sb c p = (c', Queued)"
  shows "out_ok sb co (gc @ [p]) c'"
proof (rule out_ok_push [OF assms(1,3)])
  show "conn_inv c'"
    using conn_inv_WritePacket_pass [OF out_ok_D(1) [OF assms(1)] assms(2), of p] assms(3,4)
    by (simp add: fits_def)
qed (use assms(4) in
  \<open>auto simp: WritePacket_pass_def enqueueLocked_eq Let_def split: option.splits if_splits\<close>)

lemma out_ok_probeOnce:
  assumes "out_ok sb co gc c" and "secretbox_laws sb" and "cn_lastProbe c < cn_flushed c"
  shows "out_ok sb co (gc @ [cn_probe c]) (probeOnce sb c)"
proof (rule out_ok_push [OF assms(1)])
  show "fits (cn_probe c)"
    using out_ok_D(1) [OF assms(1)] by (simp add: conn_inv_def conn_wf_def fits_def)
  show "conn_inv (probeOnce sb c)" using conn_inv_probeOnce [OF out_ok_D(1) [OF assms(1)] assms(2)] .
qed (use assms(3) in \<open>auto simp: probeOnce_def enqueueLocked_eq Let_def\<close>)

lemma out_ok_releaseHold: "out_ok sb co gc c \<Longrightarrow> out_ok sb co gc (releaseHold c)"
proof (cases "rg_held (cn_ring c)")
  case True
  assume ok: "out_ok sb co gc c"
  have "out_ok sb co gc (c\<lparr>cn_flushed := cn_flushed c, cn_unsent := cn_unsent c,
      cn_ring := ring_trim ((cn_ring c)\<lparr>rg_held := False\<rparr>) (cn_flushed c) (cn_unsent c)\<rparr>)"
    using out_ok_advance [OF ok order.refl _ _, where u = "cn_unsent c" and h = False
        and k = "rg_hold (cn_ring c)", OF _ _ refl] out_ok_D(4,5) [OF ok] by simp
  then show ?thesis
    by (rule out_ok_cong) (use True out_ok_D(6) [OF ok] in \<open>simp_all add: releaseHold_def Let_def\<close>)
qed (simp add: releaseHold_def)

lemma out_ok_recover_commit:
  assumes "out_ok sb co gc c" and "cn_flushed c \<le> snap" and "snap \<le> int (length gc)"
  shows "out_ok sb co gc (recover_commit c snap peer)"
  by (rule out_ok_cong, rule out_ok_advance [OF assms(1,2) _ refl, where h = True
        and k = "SequenceHeader_GetSequenceNumber peer", OF _ refl])
    (use assms(3) out_ok_D(5,6) [OF assms(1)] in \<open>auto simp: recover_commit_def releaseLocked_def Let_def\<close>)

lemma out_ok_commit:
  assumes "out_ok sb co gc c" and "int k \<le> int (length gc) - cn_flushed c"
    and "int n = ring_bytesBetween (cn_ring c) (cn_flushed c) (cn_flushed c + int k)"
  shows "out_ok sb co gc (writeLoop_commit c k n)"
  by (rule out_ok_cong, rule out_ok_advance [OF assms(1), where f = "cn_flushed c + int k"
        and u = "cn_unsent c - int n" and h = "rg_held (cn_ring c)" and k = "rg_hold (cn_ring c)", OF _ _ _ refl])
    (use assms(2,3) out_ok_D(5,6) [OF assms(1)] in
      \<open>auto simp: writeLoop_commit_def releaseLocked_def Let_def\<close>)

text \<open>
  A batch framed on a link that was written up to \<^verbatim>\<open>flushed\<close>: framing cannot fail, and the buffer
  is the next frames of the log; and the bookkeeping once the whole batch is on the link.
\<close>

lemma frame_next:
  assumes ok: "out_ok sb co gc c"
    and ch: "chan_ok (sealed_log sb co gc) base (nat (cn_flushed c)) w []"
  shows "\<exists>buf sent n pa. frame_batch (cn_flushed c) probe (writeLoop_take c) [] 0 0 (- 1) = Inr (buf, sent, n, pa)
    \<and> chan_ok (sealed_log sb co gc) base (nat (cn_flushed c) + sent) w buf
    \<and> int n = bytes_in (sealed_log sb co gc) (nat (cn_flushed c)) (nat (cn_flushed c) + sent)"
proof -
  let ?L = "sealed_log sb co gc" and ?u = "unsent_entries c" and ?b = "writeLoop_take c"
  note d = out_ok_D [OF ok]
  have wf: "conn_wf c" using d(1) by (simp add: conn_inv_def)
  have u: "?u = drop (nat (cn_flushed c)) ?L"
    using logs_range [OF d(2), of ?L "cn_flushed c" "ring_next (cn_ring c)"] ok wf d(5)
    by (simp add: unsent_entries_def out_ok_def conn_wf_def part_def)
  have b: "?b = take maxBatchEntries ?u" using writeLoop_take_eq [OF wf] .
  have "list_all frame_ok ?b" using unsent_entries_ok [OF wf] b by (simp add: list_all_take)
  from frame_batch_spec [OF this, of "cn_flushed c" probe "[]" 0 0 "- 1"]
  obtain k pa where k: "frame_batch (cn_flushed c) probe ?b [] 0 0 (- 1) =
      Inr (concat (map frame_bytes (take k ?b)), k, sum_list (map length (take k ?b)), pa)"
    "k \<le> length ?b" by auto
  have tk: "take k ?b = take k (drop (nat (cn_flushed c)) ?L)" using k(2) b u by simp
  have "k \<le> length ?L - nat (cn_flushed c)" using k(2) b u by simp
  from chan_ok_start [OF ch this] k(1) show ?thesis
    by (auto simp: tk int_sum_lengths bytes_in_def part_def)
qed

lemma commit_next:
  assumes ok: "out_ok sb co gc c"
    and ch: "chan_ok (sealed_log sb co gc) base (nat (cn_flushed c) + sent) w []"
    and n: "int n = bytes_in (sealed_log sb co gc) (nat (cn_flushed c)) (nat (cn_flushed c) + sent)"
  shows "out_ok sb co gc (writeLoop_commit c sent n)"
    and "chan_ok (sealed_log sb co gc) base (nat (cn_flushed (writeLoop_commit c sent n))) w []"
proof -
  note d = out_ok_D [OF ok]
  have le: "cn_flushed c + int sent \<le> int (length gc)"
    using ch d(3) by (auto simp: chan_ok_def)
  have "int n = ring_bytesBetween (cn_ring c) (cn_flushed c) (cn_flushed c + int sent)"
    using logs_bytes [OF d(2), of "sealed_log sb co gc" "cn_flushed c" "cn_flushed c + int sent"] ok d(1,3,5) le n
    by (simp add: out_ok_def conn_inv_def conn_wf_def nat_add_distrib)
  then show "out_ok sb co gc (writeLoop_commit c sent n)" using out_ok_commit [OF ok, of sent n] le by simp
  have "cn_flushed (writeLoop_commit c sent n) = cn_flushed c + int sent"
    by (simp add: writeLoop_commit_def releaseLocked_def Let_def)
  with ch d(3) show "chan_ok (sealed_log sb co gc) base (nat (cn_flushed (writeLoop_commit c sent n))) w []"
    by (simp add: nat_add_distrib)
qed

section \<open>The client's inbound side\<close>

definition in_ok :: "stream \<Rightarrow> packet list \<Rightarrow> packet list \<Rightarrow> conn \<Rightarrow> bool" where
  "in_ok so gs got c \<longleftrightarrow> 0 \<le> cn_recvSeq c \<and> nat (cn_recvSeq c) \<le> length gs
     \<and> cn_in c = stream_at so (nat (cn_recvSeq c))
     \<and> got @ cn_inbox c @ cn_pending c = take (nat (cn_recvSeq c)) gs
     \<and> (cn_cause c = None \<or> cn_cause c = Some errClosed)"

lemma in_ok_cong:
  "in_ok so gs got c \<Longrightarrow> cn_recvSeq c' = cn_recvSeq c \<Longrightarrow> cn_in c' = cn_in c
   \<Longrightarrow> cn_inbox c' = cn_inbox c \<Longrightarrow> cn_pending c' = cn_pending c \<Longrightarrow> cn_cause c' = cn_cause c
   \<Longrightarrow> in_ok so gs got c'"
  by (simp add: in_ok_def)

lemma in_ok_log: "in_ok so gs got c \<Longrightarrow> in_ok so (gs @ ps) got c"
  by (simp add: in_ok_def)

lemma in_ok_ReadPacket:
  assumes "in_ok so gs got c" and "ReadPacket ctx ch c = Some (c', Inr p)"
  shows "in_ok so gs (got @ [p]) c'"
  using assms
  by (auto simp: in_ok_def ReadPacket_def split: read_choice.splits list.splits option.splits if_splits)

lemma in_ok_Close: "in_ok so gs got c \<Longrightarrow> in_ok so gs got (conn_Close c)"
  by (auto simp: in_ok_def conn_Close_def conn_cancel_def split: option.splits)

lemma in_ok_cancel: "in_ok so gs got c \<Longrightarrow> in_ok so gs got (conn_cancel c errClosed)"
  by (auto simp: in_ok_def conn_cancel_def split: option.splits)

text \<open>A packet kept in \<^verbatim>\<open>pending\<close> goes to the inbox.\<close>

lemma hand_next:
  assumes "handOver c l p None = Some (c', l', None)" and "cn_pending c = p # ps"
  shows "in_ok so gs got c \<Longrightarrow> in_ok so gs got (c'\<lparr>cn_pending := ps\<rparr>)"
    and "out_ok sb co gc c \<Longrightarrow> out_ok sb co gc (c'\<lparr>cn_pending := ps\<rparr>)"
    and "cn_flushed c' = cn_flushed c" and "cn_recvSeq c' = cn_recvSeq c"
proof -
  have room: "length (cn_inbox c) < inboxSize" and c': "c' = c\<lparr>cn_inbox := cn_inbox c @ [p]\<rparr>"
    using assms(1) by (auto simp: handOver_def Let_def split: if_splits)
  show "in_ok so gs got c \<Longrightarrow> in_ok so gs got (c'\<lparr>cn_pending := ps\<rparr>)"
    using assms(2) by (simp add: c' in_ok_def)
  show "out_ok sb co gc (c'\<lparr>cn_pending := ps\<rparr>)" if o: "out_ok sb co gc c"
    by (rule out_ok_cong [OF o]) (use room out_ok_D(6) [OF o] in \<open>auto simp: c'\<close>)
qed (use assms(1) in \<open>auto simp: handOver_def Let_def split: if_splits\<close>)

text \<open>The next packet of the peer's log is opened and counted.\<close>

lemma open_next:
  assumes sb: "secretbox_laws sb" and ok: "in_ok so gs got c" "list_all fits gs"
    and i: "nat (cn_recvSeq c) < length gs"
  shows "deliver_open sb c (sealed_log sb so gs ! nat (cn_recvSeq c)) =
    (c\<lparr>cn_in := stream_at so (Suc (nat (cn_recvSeq c))), cn_recvSeq := cn_recvSeq c + 1\<rparr>,
     Inr (gs ! nat (cn_recvSeq c)))"
proof -
  define n where "n = nat (cn_recvSeq c)"
  define p where "p = gs ! n"
  let ?b = "sealed_at sb so n p"
  have b: "sealed_log sb so gs ! nat (cn_recvSeq c) = ?b" using i by (simp add: p_def n_def)
  have "fits p" using ok(2) i by (simp add: p_def n_def list_all_length)
  then have len: "length ?b \<le> MaxFrameSize" using sealed_at_fits [OF sb] by (simp add: frame_ok_def)
  have parse: "ParsePacket ?b = Inr (True, pkt_header p, box_at sb so n (pkt_payload p))"
    by (simp add: ParsePacket_def sealed_at_def)
  have "cn_in c = stream_at so n" using ok(1) by (simp add: in_ok_def n_def)
  with len parse Stream_Open_at [OF sb, of so n "[]" "pkt_payload p"]
  have "deliver_open sb c ?b = (c\<lparr>cn_in := stream_at so (Suc n), cn_recvSeq := cn_recvSeq c + 1\<rparr>,
      Inr \<lparr>pkt_header = pkt_header p, pkt_payload = pkt_payload p\<rparr>)"
    by (simp add: deliver_open_def)
  then show ?thesis unfolding b by (simp add: n_def p_def)
qed

text \<open>An opened packet kept for its hand-over is the next one the caller gets.\<close>

lemma kept_next:
  assumes sb: "secretbox_laws sb" and ok: "in_ok so gs got c" "list_all fits gs" "cn_pending c = []"
    and i: "nat (cn_recvSeq c) < length gs"
    and d: "deliver_open sb c (sealed_log sb so gs ! nat (cn_recvSeq c)) = (c', res)"
  shows "res = Inr (gs ! nat (cn_recvSeq c))" and "nat (cn_recvSeq c') = Suc (nat (cn_recvSeq c))"
    and "in_ok so gs got (c'\<lparr>cn_pending := [gs ! nat (cn_recvSeq c)]\<rparr>)"
    and "out_ok sb co gc c \<Longrightarrow> out_ok sb co gc (c'\<lparr>cn_pending := ps\<rparr>)" and "cn_flushed c' = cn_flushed c"
proof -
  have c': "c' = c\<lparr>cn_in := stream_at so (Suc (nat (cn_recvSeq c))), cn_recvSeq := cn_recvSeq c + 1\<rparr>"
    and r: "res = Inr (gs ! nat (cn_recvSeq c))"
    using open_next [OF sb ok(1,2) i] d by auto
  show "res = Inr (gs ! nat (cn_recvSeq c))" by (rule r)
  show "nat (cn_recvSeq c') = Suc (nat (cn_recvSeq c))" using ok(1) by (simp add: c' in_ok_def nat_add_distrib)
  show "in_ok so gs got (c'\<lparr>cn_pending := [gs ! nat (cn_recvSeq c)]\<rparr>)"
    using ok i by (auto simp: c' in_ok_def nat_add_distrib take_Suc_conv_app_nth)
  show "out_ok sb co gc (c'\<lparr>cn_pending := ps\<rparr>)" if o: "out_ok sb co gc c"
    by (rule out_ok_cong [OF o]) (use out_ok_D(6) [OF o] in \<open>auto simp: c'\<close>)
  show "cn_flushed c' = cn_flushed c" by (simp add: c')
qed

text \<open>
  The client's reader up to its hand-over, on a link that carries the server's log: from the
  catchup or from the link, it opens the next packet of the log, and what is left of the catchup and
  of the link are the parts that follow. It fails only when the link has no whole frame.
\<close>

lemma reader_catchup:
  assumes sb: "secretbox_laws sb" and ok: "in_ok so gs got c" "list_all fits gs" "cn_pending c = []"
    and cat: "rd_catchup rd = part (sealed_log sb so gs) (nat (cn_recvSeq c)) base" "base \<le> length gs"
      "rd_catchup rd = b # bs"
    and p: "reader_begin sb c l rd = (c', l', rd', res)"
  shows "res = Inr (gs ! nat (cn_recvSeq c), False)" and "rd' = rd\<lparr>rd_catchup := bs\<rparr>"
    and "bs = part (sealed_log sb so gs) (Suc (nat (cn_recvSeq c))) base" and "nat (cn_recvSeq c) < base"
    and "deliver_open sb c (sealed_log sb so gs ! nat (cn_recvSeq c)) = (c', Inr (gs ! nat (cn_recvSeq c)))"
proof -
  let ?S = "sealed_log sb so gs"
  show lt: "nat (cn_recvSeq c) < base"
    using cat(1,3) by (cases "nat (cn_recvSeq c) < base") (auto simp: part_def)
  with cat have b: "b = ?S ! nat (cn_recvSeq c)" "bs = part ?S (Suc (nat (cn_recvSeq c))) base"
    by (simp_all add: part_Cons)
  obtain c1 r where d: "deliver_open sb c b = (c1, r)" by fastforce
  note k = kept_next(1) [OF sb ok _ d [unfolded b(1)]]
  show "res = Inr (gs ! nat (cn_recvSeq c), False)" and "rd' = rd\<lparr>rd_catchup := bs\<rparr>"
    and "deliver_open sb c (?S ! nat (cn_recvSeq c)) = (c', Inr (gs ! nat (cn_recvSeq c)))"
    using p d k lt cat(2,3) ok(3) b(1) by (auto simp: reader_begin_def)
  show "bs = part ?S (Suc (nat (cn_recvSeq c))) base" by (rule b)
qed

lemma reader_frame:
  assumes sb: "secretbox_laws sb" and ok: "in_ok so gs got c" "list_all fits gs" "cn_pending c = []"
    and pre: "chan_prefix (sealed_log sb so gs) (nat (cn_recvSeq c)) w"
    and rd: "rd_catchup rd = []" "rd_stream rd = \<lparr>avail = w, rend = EOF\<rparr>"
    and p: "reader_begin sb c l rd = (c', l', rd', res)"
  shows "(\<exists>e. res = Inl e) \<and> c' = c \<or>
    (\<exists>f cp r'. ReadFrame \<lparr>avail = w, rend = EOF\<rparr> (rd_cap rd) = (Inr (f, cp), r')
      \<and> res = Inr (gs ! nat (cn_recvSeq c), False) \<and> nat (cn_recvSeq c) < length gs
      \<and> rd' = rd\<lparr>rd_stream := r', rd_cap := cp, rd_released := True\<rparr>
      \<and> deliver_open sb (if rd_released rd then c else releaseHold c)
          (sealed_log sb so gs ! nat (cn_recvSeq c)) = (c', Inr (gs ! nat (cn_recvSeq c))))"
proof -
  let ?S = "sealed_log sb so gs" and ?c = "if rd_released rd then c else releaseHold c"
  have Sok: "list_all frame_ok ?S" using sealed_log_fits [OF sb ok(2)] .
  obtain fr r' where rf: "ReadFrame \<lparr>avail = w, rend = EOF\<rparr> (rd_cap rd) = (fr, r')" by fastforce
  show ?thesis
  proof (cases fr)
    case (Inl e)
    with chan_read_error [OF Sok pre rf [unfolded Inl]] p rf rd ok(3) show ?thesis
      by (auto simp: reader_begin_def)
  next
    case (Inr fc)
    obtain f cp where fc: "fc = (f, cp)" by fastforce
    note cr = chan_read [OF Sok pre rf [unfolded Inr fc]]
    have c: "in_ok so gs got ?c" "cn_pending ?c = []" "cn_recvSeq ?c = cn_recvSeq c"
      using ok in_ok_cong [OF ok(1), of "releaseHold c"] by (auto simp: releaseHold_def Let_def)
    obtain c1 r where d: "deliver_open sb ?c f = (c1, r)" by fastforce
    have d': "deliver_open sb ?c (?S ! nat (cn_recvSeq ?c)) = (c1, r)" using d by (simp only: cr(2) c(3))
    have k: "r = Inr (gs ! nat (cn_recvSeq c))"
      using kept_next(1) [OF sb c(1) ok(2) c(2) _ d'] cr(1) by (simp add: c(3))
    from p rf Inr fc rd ok(3) d cr(1,2) k show ?thesis by (auto simp: reader_begin_def Let_def)
  qed
qed

lemma reader_open:
  assumes sb: "secretbox_laws sb" and ok: "out_ok sb co gc c" "in_ok so gs got c" "list_all fits gs"
    and cat: "rd_catchup rd = part (sealed_log sb so gs) (nat (cn_recvSeq c)) base"
      "nat (cn_recvSeq c) \<le> base" "chan_prefix (sealed_log sb so gs) base w"
    and p: "reader_begin sb c l (rd\<lparr>rd_stream := \<lparr>avail = w, rend = EOF\<rparr>\<rparr>) = (c', l', rd', res)"
    and pend: "cn_pending c = []"
  shows "case res of Inl e \<Rightarrow> c' = c
    | Inr (q, old) \<Rightarrow> \<not> old \<and> out_ok sb co gc (c'\<lparr>cn_pending := [q]\<rparr>) \<and> in_ok so gs got (c'\<lparr>cn_pending := [q]\<rparr>)
      \<and> cn_flushed c' = cn_flushed c
      \<and> (\<exists>base'. rd_catchup rd' = part (sealed_log sb so gs) (nat (cn_recvSeq c')) base'
          \<and> nat (cn_recvSeq c') \<le> base'
          \<and> (base' = base \<and> avail (rd_stream rd') = w
             \<or> base' = Suc base \<and> (\<exists>cp f cp' r'. ReadFrame \<lparr>avail = w, rend = EOF\<rparr> cp = (Inr (f, cp'), r')
                  \<and> avail (rd_stream rd') = avail r')))"
proof -
  let ?S = "sealed_log sb so gs" and ?rd = "rd\<lparr>rd_stream := \<lparr>avail = w, rend = EOF\<rparr>\<rparr>"
  have base: "base \<le> length gs" using cat(3) by (simp add: chan_prefix_def)
  show ?thesis
  proof (cases "rd_catchup rd")
    case (Cons b bs)
    note rc = reader_catchup [OF sb ok(2,3) pend _ base _ p, of b bs]
    have r: "res = Inr (gs ! nat (cn_recvSeq c), False)" "rd' = ?rd\<lparr>rd_catchup := bs\<rparr>"
      "bs = part ?S (Suc (nat (cn_recvSeq c))) base" "nat (cn_recvSeq c) < base"
      "deliver_open sb c (?S ! nat (cn_recvSeq c)) = (c', Inr (gs ! nat (cn_recvSeq c)))"
      using rc cat(1) Cons by simp_all
    have i: "nat (cn_recvSeq c) < length gs" using r(4) base by simp
    note k = kept_next [OF sb ok(2,3) pend i r(5)]
    from r k ok(1) show ?thesis by (auto intro!: exI [of _ base])
  next
    case Nil
    then have eq: "nat (cn_recvSeq c) = base"
      using cat(1,2) base length_part [of base ?S "nat (cn_recvSeq c)"] by simp
    define c0 where "c0 = (if rd_released rd then c else releaseHold c)"
    have c: "out_ok sb co gc c0" "in_ok so gs got c0" "cn_pending c0 = []" "cn_recvSeq c0 = cn_recvSeq c"
      "cn_flushed c0 = cn_flushed c"
      using ok(1,2) pend out_ok_releaseHold [OF ok(1)] in_ok_cong [OF ok(2), of "releaseHold c"]
      by (auto simp: c0_def releaseHold_def Let_def)
    from reader_frame [OF sb ok(2,3) pend cat(3) [folded eq], of ?rd l c' l' rd' res] p Nil
    consider e where "res = Inl e" "c' = c"
      | f cp r' where "ReadFrame \<lparr>avail = w, rend = EOF\<rparr> (rd_cap rd) = (Inr (f, cp), r')"
        "res = Inr (gs ! nat (cn_recvSeq c), False)" "nat (cn_recvSeq c) < length gs"
        "rd' = ?rd\<lparr>rd_stream := r', rd_cap := cp, rd_released := True\<rparr>"
        "deliver_open sb c0 (?S ! nat (cn_recvSeq c)) = (c', Inr (gs ! nat (cn_recvSeq c)))"
      by (auto simp: c0_def)
    then show ?thesis
    proof cases
      case 1
      then show ?thesis by simp
    next
      case (2 f cp r')
      note k = kept_next [OF sb c(2) ok(3) c(3), unfolded c(4), OF 2(3,5)]
      have "\<exists>cp f cp' r''. ReadFrame \<lparr>avail = w, rend = EOF\<rparr> cp = (Inr (f, cp'), r'') \<and> avail r' = avail r''"
        using 2(1) by blast
      with 2 k c eq Nil show ?thesis by simp (intro exI [of _ "Suc base"], simp)
    qed
  qed
qed

section \<open>The server\<close>

definition srv_ok :: "secretbox \<Rightarrow> stream \<Rightarrow> stream \<Rightarrow> packet list \<Rightarrow> packet list \<Rightarrow> packet list \<Rightarrow> server \<Rightarrow> bool" where
  "srv_ok sb co so gc gs got s \<longleftrightarrow> sv_sent s = sealed_log sb so gs \<and> sv_out s = stream_at so (length gs)
     \<and> list_all fits gs \<and> 0 \<le> sv_recvSeq s \<and> nat (sv_recvSeq s) \<le> length gc
     \<and> sv_in s = stream_at co (nat (sv_recvSeq s))
     \<and> got @ sv_queue s = take (nat (sv_recvSeq s)) gc"

definition keepalive_packet :: packet where
  "keepalive_packet = \<lparr>pkt_header = HeaderKeepAlive, pkt_payload = []\<rparr>"

text \<open>The echoes the server sends when it accepts \<open>ps\<close>.\<close>

definition echoes :: "bool \<Rightarrow> packet list \<Rightarrow> packet list" where
  "echoes on ps = (if on then map (\<lambda>_. keepalive_packet) (filter (\<lambda>p. pkt_header p = HeaderKeepAlive) ps) else [])"

lemma echoes_append: "echoes on (xs @ ys) = echoes on xs @ echoes on ys"
  by (simp add: echoes_def)

lemma echoes_Nil [simp]: "echoes on [] = []"
  by (simp add: echoes_def)

lemma srv_ok_enqueue:
  assumes "srv_ok sb co so gc gs got s" and "fits p"
  shows "srv_ok sb co so gc (gs @ [p]) got (server_enqueueLocked sb s p)"
  using assms
  by (simp add: srv_ok_def server_enqueueLocked_def Stream_Seal_at sealed_log_snoc AppendPacket_def sealed_at_def)

lemma srv_ok_log: "srv_ok sb co so gc gs got s \<Longrightarrow> srv_ok sb co so (gc @ ps) gs got s"
  by (simp add: srv_ok_def)

lemma srv_ok_cong:
  "srv_ok sb co so gc gs got s \<Longrightarrow> sv_sent s' = sv_sent s \<Longrightarrow> sv_out s' = sv_out s \<Longrightarrow> sv_recvSeq s' = sv_recvSeq s
   \<Longrightarrow> sv_in s' = sv_in s \<Longrightarrow> sv_queue s' = sv_queue s \<Longrightarrow> srv_ok sb co so gc gs got s'"
  by (simp add: srv_ok_def)

lemma accept_next:
  assumes sb: "secretbox_laws sb" and ok: "srv_ok sb co so gc gs got s"
    and i: "nat (sv_recvSeq s) < length gc"
    and a: "server_accept sb s (sealed_log sb co gc ! nat (sv_recvSeq s)) = (s', oe)"
  shows "oe = None" and "sv_recvSeq s' = sv_recvSeq s + 1" and "sv_echo s' = sv_echo s"
    and "sv_queue s' = sv_queue s @ [gc ! nat (sv_recvSeq s)]"
    and "srv_ok sb co so gc (gs @ echoes (sv_echo s) [gc ! nat (sv_recvSeq s)]) got s'"
proof -
  define n where "n = nat (sv_recvSeq s)"
  define p where "p = gc ! n"
  have b: "sealed_log sb co gc ! nat (sv_recvSeq s) = sealed_at sb co n p"
    using i by (simp add: p_def n_def)
  have parse: "ParsePacket (sealed_at sb co n p) = Inr (True, pkt_header p, box_at sb co n (pkt_payload p))"
    by (simp add: ParsePacket_def sealed_at_def)
  have inn: "sv_in s = stream_at co n" using ok by (simp add: srv_ok_def n_def)
  define s1 where "s1 = s\<lparr>sv_in := stream_at co (Suc n), sv_recvSeq := sv_recvSeq s + 1,
      sv_queue := sv_queue s @ [p], sv_notify := True\<rparr>"
  have tk: "take (Suc n) gc = take n gc @ [p]" using i by (simp add: take_Suc_conv_app_nth p_def n_def)
  have ok1: "srv_ok sb co so gc gs got s1"
    using ok i tk by (auto simp: srv_ok_def s1_def n_def nat_add_distrib)
  have s': "s' = (if pkt_header p = HeaderKeepAlive \<and> sv_echo s
      then (server_enqueueLocked sb s1 keepalive_packet)\<lparr>sv_wake := True\<rparr> else s1)" and oe: "oe = None"
    using a parse inn Stream_Open_at [OF sb, of co n "[]" "pkt_payload p"] b
    by (cases p; auto simp: server_accept_def s1_def keepalive_packet_def Let_def split: if_splits)+
  have ka: "fits keepalive_packet" by (simp add: fits_def keepalive_packet_def)
  have enq: "sv_recvSeq (server_enqueueLocked sb x y) = sv_recvSeq x" "sv_echo (server_enqueueLocked sb x y) = sv_echo x"
    "sv_queue (server_enqueueLocked sb x y) = sv_queue x" for x y
    by (simp_all add: server_enqueueLocked_def split: prod.splits)
  show "oe = None" by (rule oe)
  show "sv_recvSeq s' = sv_recvSeq s + 1" "sv_echo s' = sv_echo s"
    "sv_queue s' = sv_queue s @ [gc ! nat (sv_recvSeq s)]"
    by (simp_all add: s' enq s1_def p_def n_def)
  show "srv_ok sb co so gc (gs @ echoes (sv_echo s) [gc ! nat (sv_recvSeq s)]) got s'"
  proof (cases "pkt_header p = HeaderKeepAlive \<and> sv_echo s")
    case True
    have "srv_ok sb co so gc (gs @ [keepalive_packet]) got s'"
      by (rule srv_ok_cong [OF srv_ok_enqueue [OF ok1 ka]]) (simp_all add: s' True)
    with True show ?thesis by (simp add: echoes_def p_def n_def)
  next
    case False
    then show ?thesis using ok1 by (auto simp: s' echoes_def p_def n_def)
  qed
qed

lemma accept_all_next:
  assumes "secretbox_laws sb" and "srv_ok sb co so gc gs got s"
    and "nat (sv_recvSeq s) \<le> j" and "j \<le> length gc"
    and "accept_all sb s (part (sealed_log sb co gc) (nat (sv_recvSeq s)) j) = (s', oe)"
  shows "oe = None \<and> nat (sv_recvSeq s') = j \<and> sv_echo s' = sv_echo s
    \<and> (\<exists>xs. sv_queue s' = sv_queue s @ xs \<and> srv_ok sb co so gc (gs @ echoes (sv_echo s) xs) got s')"
  using assms(2-5)
proof (induction "j - nat (sv_recvSeq s)" arbitrary: s gs)
  case 0
  then show ?case by auto
next
  case (Suc d)
  let ?L = "sealed_log sb co gc" and ?i = "nat (sv_recvSeq s)"
  have lt: "?i < j" using Suc.hyps(2) by simp
  then have pt: "part ?L ?i j = ?L ! ?i # part ?L (Suc ?i) j" using Suc.prems(3) by (simp add: part_Cons)
  obtain s1 o1 where a: "server_accept sb s (?L ! ?i) = (s1, o1)" by fastforce
  have i: "?i < length gc" using lt Suc.prems(3) by simp
  note n = accept_next [OF assms(1) Suc.prems(1) i a]
  have seq: "nat (sv_recvSeq s1) = Suc ?i" using n(2) Suc.prems(1) by (simp add: srv_ok_def nat_add_distrib)
  have rest: "accept_all sb s1 (part ?L (nat (sv_recvSeq s1)) j) = (s', oe)"
    using Suc.prems(4) a n(1) by (simp add: pt seq)
  have "d = j - nat (sv_recvSeq s1)" "nat (sv_recvSeq s1) \<le> j" using Suc.hyps(2) seq lt by simp_all
  from Suc.hyps(1) [OF this(1) n(5) this(2) Suc.prems(3) rest] obtain xs where
    IH: "oe = None" "nat (sv_recvSeq s') = j" "sv_echo s' = sv_echo s1"
    "sv_queue s' = sv_queue s1 @ xs"
    "srv_ok sb co so gc ((gs @ echoes (sv_echo s) [gc ! ?i]) @ echoes (sv_echo s1) xs) got s'"
    by auto
  have "sv_queue s' = sv_queue s @ ([gc ! ?i] @ xs)" using IH(4) n(4) by simp
  moreover have "srv_ok sb co so gc (gs @ echoes (sv_echo s) ([gc ! ?i] @ xs)) got s'"
    using IH(5) n(3) by (simp only: echoes_append append.assoc)
  ultimately show ?case using IH(1-3) n(3) by blast
qed

end
