(* ===== verification/ET_System.thy ===== *)
theory ET_System
  imports ET_Channel
begin

text \<open>
  A whole session: the client's \<^verbatim>\<open>Conn\<close>, the server, and the links between them, as a step relation.
  The steps are the critical sections and loop passes of the two programs, in any order: callers
  write and read, probes are sent, each side's writer hands its frames to the network byte by byte,
  each side's reader takes frames off it, a link dies at either end at any moment (in the middle
  of a frame too), and the recover exchange runs message by message, with callers and failures
  in between.

  A dead client may still have bytes under way that the server reads; a link is gone only when a
  new one replaces it, which the server's \<^verbatim>\<open>takeOver\<close> allows only once its old link is down.
  The start is a first connect (\<^verbatim>\<open>NEW_CLIENT\<close>): both ends up, nothing sent.
\<close>

section \<open>States\<close>

datatype cphase = CDown | CConn | CSeq | CSnap SequenceHeader int | CUp
datatype sphase = SDown | SConn | SSeq | SSnap int | SUp int

text \<open>
  Besides the two ends and what is on the network, the state records what the callers did: the
  packets queued by \<^verbatim>\<open>WritePacket\<close> and probes, by \<^verbatim>\<open>Send\<close> and echoes, and those returned
  by \<^verbatim>\<open>ReadPacket\<close> and \<^verbatim>\<open>Recv\<close>; and the sequence number of the first frame in flight each way.
\<close>

record sys =
  s_cli :: conn
  s_cph :: cphase
  s_rd :: link_reader
  s_wbuf :: "(bytes \<times> nat \<times> nat) option"
  s_srv :: server
  s_sph :: sphase
  s_sbuf :: "(bytes \<times> nat) option"
  s_cw :: bytes
  s_sw :: bytes
  s_cseq :: "SequenceHeader option"
  s_sseq :: "SequenceHeader option"
  s_ccb :: "CatchupBuffer option"
  s_scb :: "CatchupBuffer option"
  g_cout :: "packet list"
  g_sout :: "packet list"
  g_cgot :: "packet list"
  g_sgot :: "packet list"
  g_cbase :: nat
  g_sbase :: nat

definition no_reader :: link_reader where
  "no_reader = newLinkReader [] \<lparr>avail = [], rend = EOF\<rparr>"

definition sys_start :: "dialer \<Rightarrow> string \<Rightarrow> string \<Rightarrow> bytes \<Rightarrow> sys option" where
  "sys_start d addr cid key =
     (if length key \<noteq> 32 \<or> bad_options d key then None
      else
        (case (newConn d addr cid key, NewServer cid key) of
           (Some c, Some s) \<Rightarrow>
             Some \<lparr>s_cli = c, s_cph = CUp, s_rd = no_reader, s_wbuf = None,
               s_srv = s\<lparr>sv_known := True\<rparr>, s_sph = SUp 0, s_sbuf = None, s_cw = [], s_sw = [],
               s_cseq = None, s_sseq = None, s_ccb = None, s_scb = None,
               g_cout = [], g_sout = [], g_cgot = [], g_sgot = [], g_cbase = 0, g_sbase = 0\<rparr>
         | _ \<Rightarrow> None))"

definition new_packets :: "server \<Rightarrow> server \<Rightarrow> packet list" where
  "new_packets s s' = drop (length (sv_queue s)) (sv_queue s')"

section \<open>Steps\<close>

text \<open>What the server does by itself.\<close>

inductive srv_step :: "secretbox \<Rightarrow> sys \<Rightarrow> sys \<Rightarrow> bool" for sb where
  srv_send:
    "fits p \<Longrightarrow> server_Send sb None (s_srv y) p = (s', None) \<Longrightarrow>
     srv_step sb y (y\<lparr>s_srv := s', g_sout := g_sout y @ [p]\<rparr>)"
| srv_recv:
    "server_Recv (s_srv y) = Some (s', p) \<Longrightarrow>
     srv_step sb y (y\<lparr>s_srv := s', g_sgot := g_sgot y @ [p]\<rparr>)"
| srv_end:
    "srv_step sb y (y\<lparr>s_srv := EndSession (s_srv y)\<rparr>)"
| srv_echo:
    "srv_step sb y (y\<lparr>s_srv := EchoKeepAlive (s_srv y) on\<rparr>)"
| srv_write_start:
    "s_sph y = SUp f \<Longrightarrow> s_sbuf y = None \<Longrightarrow> fs = drop (nat f) (sv_sent (s_srv y)) \<Longrightarrow>
     srv_step sb y (y\<lparr>s_sbuf := Some (concat (map frame_bytes fs), length fs)\<rparr>)"
| srv_write_bytes:
    "s_sph y = SUp f \<Longrightarrow> s_sbuf y = Some (xs @ ys, n) \<Longrightarrow>
     srv_step sb y (y\<lparr>s_sw := s_sw y @ xs, s_sbuf := Some (ys, n)\<rparr>)"
| srv_write_done:
    "s_sph y = SUp f \<Longrightarrow> s_sbuf y = Some ([], n) \<Longrightarrow>
     srv_step sb y (y\<lparr>s_sph := SUp (f + int n), s_sbuf := None\<rparr>)"
| srv_reader:
    "s_sph y = SUp f \<Longrightarrow>
     server_read_pass sb (s_srv y) \<lparr>avail = s_cw y, rend = EOF\<rparr> cp = (s', r', cp', None) \<Longrightarrow>
     srv_step sb y (y\<lparr>s_srv := s', s_cw := avail r', g_cbase := Suc (g_cbase y),
       g_sout := g_sout y @ echoes (sv_echo (s_srv y)) (new_packets (s_srv y) s')\<rparr>)"
| srv_reader_end:
    "s_sph y = SUp f \<Longrightarrow>
     server_read_pass sb (s_srv y) \<lparr>avail = s_cw y, rend = EOF\<rparr> cp = (s', r', cp', Some e) \<Longrightarrow>
     srv_step sb y (y\<lparr>s_srv := s', s_sph := SDown, s_sbuf := None\<rparr>)"
| srv_down:
    "srv_step sb y (y\<lparr>s_sph := SDown, s_sbuf := None\<rparr>)"
| srv_seq:
    "s_sph y = SConn \<Longrightarrow>
     srv_step sb y (y\<lparr>s_sph := SSeq,
       s_sseq := Some (SequenceHeader_SetSequenceNumber (int32 (sv_recvSeq (s_srv y))) new_SequenceHeader)\<rparr>)"
| srv_snap:
    "s_sph y = SSeq \<Longrightarrow> s_cseq y = Some peer \<Longrightarrow>
     server_window (s_srv y) (SequenceHeader_GetSequenceNumber peer) = Inr (catchup, flushed) \<Longrightarrow>
     srv_step sb y (y\<lparr>s_sph := SSnap flushed, s_sw := [], g_sbase := nat flushed,
       s_scb := Some (CatchupBuffer_SetBuffer catchup new_CatchupBuffer)\<rparr>)"
| srv_accept:
    "s_sph y = SSnap flushed \<Longrightarrow> s_ccb y = Some theirs \<Longrightarrow>
     accept_all sb (s_srv y) (CatchupBuffer_GetBuffer theirs) = (s', None) \<Longrightarrow>
     srv_step sb y (y\<lparr>s_srv := s', s_sph := SUp flushed, s_sbuf := None,
       g_sout := g_sout y @ echoes (sv_echo (s_srv y)) (new_packets (s_srv y) s')\<rparr>)"
| srv_accept_fail:
    "s_sph y = SSnap flushed \<Longrightarrow> s_ccb y = Some theirs \<Longrightarrow>
     accept_all sb (s_srv y) (CatchupBuffer_GetBuffer theirs) = (s', Some e) \<Longrightarrow>
     srv_step sb y (y\<lparr>s_srv := s', s_sph := SDown, s_sbuf := None\<rparr>)"

text \<open>
  What the client does, the network between them, and the server's steps. The reader opens a packet
  and hands it over in two steps, with a wait in between; while it waits, the packet counts here as
  pending, where it is put when the link ends first.
\<close>

inductive sys_step :: "secretbox \<Rightarrow> sys \<Rightarrow> sys \<Rightarrow> bool" for sb where
  cli_write:
    "WritePacket_enter None p = None \<Longrightarrow> WritePacket_pass sb (s_cli y) p = (c', Queued) \<Longrightarrow>
     sys_step sb y (y\<lparr>s_cli := c', g_cout := g_cout y @ [p]\<rparr>)"
| cli_probe:
    "s_cph y = CUp \<Longrightarrow> watch_pass sb (s_cli y) l False WatchTimer = (c', l', Inr True) \<Longrightarrow>
     sys_step sb y (y\<lparr>s_cli := c',
       g_cout := g_cout y @ (if cn_flushed (s_cli y) \<le> cn_lastProbe (s_cli y) then [] else [cn_probe (s_cli y)])\<rparr>)"
| cli_read:
    "ReadPacket ctx ch (s_cli y) = Some (c', Inr p) \<Longrightarrow>
     sys_step sb y (y\<lparr>s_cli := c', g_cgot := g_cgot y @ [p]\<rparr>)"
| cli_space:
    "WritePacket_wait (s_cli y) GotSpace = (c', None) \<Longrightarrow> sys_step sb y (y\<lparr>s_cli := c'\<rparr>)"
| cli_cancel:
    "sys_step sb y (y\<lparr>s_cli := conn_cancel (s_cli y) errClosed\<rparr>)"
| cli_close:
    "sys_step sb y (y\<lparr>s_cli := conn_Close (s_cli y), s_cph := CDown, s_wbuf := None\<rparr>)"
| cli_write_start:
    "s_cph y = CUp \<Longrightarrow> s_wbuf y = None \<Longrightarrow> writeLoop_take (s_cli y) \<noteq> [] \<Longrightarrow>
     frame_batch (cn_flushed (s_cli y)) (cn_lastProbe (s_cli y)) (writeLoop_take (s_cli y)) [] 0 0 (- 1)
       = Inr (buf, sent, n, pa) \<Longrightarrow>
     sys_step sb y (y\<lparr>s_wbuf := Some (buf, sent, n)\<rparr>)"
| cli_write_fail:
    "s_cph y = CUp \<Longrightarrow> s_wbuf y = None \<Longrightarrow> writeLoop_take (s_cli y) \<noteq> [] \<Longrightarrow>
     frame_batch (cn_flushed (s_cli y)) (cn_lastProbe (s_cli y)) (writeLoop_take (s_cli y)) [] 0 0 (- 1)
       = Inl e \<Longrightarrow>
     sys_step sb y (y\<lparr>s_cli := fst (conn_fail (s_cli y) e), s_cph := CDown\<rparr>)"
| cli_write_bytes:
    "s_cph y = CUp \<Longrightarrow> s_wbuf y = Some (xs @ ys, sent, n) \<Longrightarrow>
     sys_step sb y (y\<lparr>s_cw := s_cw y @ xs, s_wbuf := Some (ys, sent, n)\<rparr>)"
| cli_write_done:
    "s_cph y = CUp \<Longrightarrow> s_wbuf y = Some ([], sent, n) \<Longrightarrow>
     sys_step sb y (y\<lparr>s_cli := writeLoop_commit (s_cli y) sent n, s_wbuf := None\<rparr>)"
| cli_wake:
    "s_cph y = CUp \<Longrightarrow> sys_step sb y (y\<lparr>s_cli := (s_cli y)\<lparr>cn_wake := False\<rparr>\<rparr>)"
| cli_open:
    "s_cph y = CUp \<Longrightarrow>
     reader_begin sb (s_cli y) l ((s_rd y)\<lparr>rd_stream := \<lparr>avail = s_sw y, rend = EOF\<rparr>\<rparr>) = (c', l', rd', Inr (p, False)) \<Longrightarrow>
     sys_step sb y (y\<lparr>s_cli := c'\<lparr>cn_pending := [p]\<rparr>, s_rd := rd', s_sw := avail (rd_stream rd'),
       g_sbase := (if avail (rd_stream rd') = s_sw y then g_sbase y else Suc (g_sbase y))\<rparr>)"
| cli_hand:
    "s_cph y = CUp \<Longrightarrow> cn_pending (s_cli y) = p # ps \<Longrightarrow> handOver (s_cli y) l p None = Some (c', l', None) \<Longrightarrow>
     sys_step sb y (y\<lparr>s_cli := c'\<lparr>cn_pending := ps\<rparr>\<rparr>)"
| cli_reader_fail:
    "s_cph y = CUp \<Longrightarrow>
     reader_begin sb (s_cli y) l ((s_rd y)\<lparr>rd_stream := \<lparr>avail = s_sw y, rend = EOF\<rparr>\<rparr>) = (c', l', rd', Inl e) \<Longrightarrow>
     sys_step sb y (y\<lparr>s_cli := c'\<rparr>)"
| cli_down:
    "sys_step sb y (y\<lparr>s_cph := CDown, s_wbuf := None, s_rd := no_reader\<rparr>)"
| connect:
    "s_cph y = CDown \<Longrightarrow> s_sph y = SDown \<Longrightarrow> cn_cause (s_cli y) = None \<Longrightarrow> sv_registered (s_srv y) \<Longrightarrow>
     sys_step sb y (y\<lparr>s_cph := CConn, s_sph := SConn, s_cw := [], s_sw := [],
       s_cseq := None, s_sseq := None, s_ccb := None, s_scb := None\<rparr>)"
| cli_seq:
    "s_cph y = CConn \<Longrightarrow> cn_recvSeq (s_cli y) \<le> math_MaxInt32 \<Longrightarrow>
     sys_step sb y (y\<lparr>s_cph := CSeq,
       s_cseq := Some (SequenceHeader_SetSequenceNumber (int32 (cn_recvSeq (s_cli y))) new_SequenceHeader)\<rparr>)"
| cli_snap:
    "s_cph y = CSeq \<Longrightarrow> s_sseq y = Some peer \<Longrightarrow> recover_window (s_cli y) peer = Inr (snap, ours) \<Longrightarrow>
     sys_step sb y (y\<lparr>s_cph := CSnap peer snap, s_cw := [], g_cbase := nat snap,
       s_ccb := Some (CatchupBuffer_SetBuffer ours new_CatchupBuffer)\<rparr>)"
| cli_commit:
    "s_cph y = CSnap peer snap \<Longrightarrow> s_scb y = Some theirs \<Longrightarrow>
     sys_step sb y (y\<lparr>s_cli := recover_commit (s_cli y) snap peer, s_cph := CUp, s_wbuf := None,
       s_rd := newLinkReader (CatchupBuffer_GetBuffer theirs) \<lparr>avail = s_sw y, rend = EOF\<rparr>\<rparr>)"
| server:
    "srv_step sb y y' \<Longrightarrow> sys_step sb y y'"

section \<open>Invariant\<close>

text \<open>
  For each direction, what the sending end has put on the link and where it goes on, and what the
  receiving end may still get; and the messages of a recover exchange under way.
\<close>

definition send_c :: "bytes list \<Rightarrow> int \<Rightarrow> cphase \<Rightarrow> (bytes \<times> nat \<times> nat) option \<Rightarrow> nat \<Rightarrow> bytes \<Rightarrow> bool" where
  "send_c L fl ph buf base w =
     (case ph of
        CUp \<Rightarrow>
          (case buf of
             None \<Rightarrow> chan_ok L base (nat fl) w []
           | Some (rest, sent, n) \<Rightarrow> chan_ok L base (nat fl + sent) w rest
               \<and> int n = bytes_in L (nat fl) (nat fl + sent))
      | CSnap peer snap \<Rightarrow> base = nat snap \<and> w = [] \<and> fl \<le> snap \<and> nat snap \<le> length L
      | _ \<Rightarrow> chan_prefix L base w)"

definition send_s :: "bytes list \<Rightarrow> sphase \<Rightarrow> (bytes \<times> nat) option \<Rightarrow> nat \<Rightarrow> bytes \<Rightarrow> bool" where
  "send_s L ph buf base w =
     (case ph of
        SUp f \<Rightarrow> 0 \<le> f \<and>
          (case buf of
             None \<Rightarrow> chan_ok L base (nat f) w []
           | Some (rest, n) \<Rightarrow> chan_ok L base (nat f + n) w rest)
      | SSnap f \<Rightarrow> 0 \<le> f \<and> base = nat f \<and> w = [] \<and> nat f \<le> length L
      | _ \<Rightarrow> chan_prefix L base w)"

definition recv_s :: "bytes list \<Rightarrow> int \<Rightarrow> sphase \<Rightarrow> CatchupBuffer option \<Rightarrow> nat \<Rightarrow> bool" where
  "recv_s L seq ph cb base =
     (case ph of
        SUp _ \<Rightarrow> nat seq = base
      | SDown \<Rightarrow> True
      | _ \<Rightarrow> (\<forall>b. cb = Some b \<longrightarrow> CatchupBuffer_GetBuffer b = part L (nat seq) base \<and> nat seq \<le> base))"

definition recv_c :: "bytes list \<Rightarrow> int \<Rightarrow> cphase \<Rightarrow> link_reader \<Rightarrow> CatchupBuffer option \<Rightarrow> nat \<Rightarrow> bool" where
  "recv_c L seq ph rd cb base =
     (case ph of
        CUp \<Rightarrow> rd_catchup rd = part L (nat seq) base \<and> nat seq \<le> base
      | CDown \<Rightarrow> True
      | _ \<Rightarrow> (\<forall>b. cb = Some b \<longrightarrow> CatchupBuffer_GetBuffer b = part L (nat seq) base \<and> nat seq \<le> base))"

definition shake :: "int \<Rightarrow> int \<Rightarrow> cphase \<Rightarrow> sphase \<Rightarrow> SequenceHeader option \<Rightarrow> SequenceHeader option
    \<Rightarrow> CatchupBuffer option \<Rightarrow> CatchupBuffer option \<Rightarrow> bool" where
  "shake cseq sseq cph sph mc ms ccb scb \<longleftrightarrow>
     (cph = CConn \<or> cph = CSeq \<longrightarrow> ccb = None \<and> (\<forall>f. sph \<noteq> SUp f))
     \<and> (sph = SConn \<or> sph = SSeq \<longrightarrow> scb = None \<and> cph \<noteq> CUp)
     \<and> (cph = CConn \<longrightarrow> mc = None) \<and> (sph = SConn \<longrightarrow> ms = None)
     \<and> (\<forall>h. mc = Some h \<longrightarrow> cph = CSeq \<or> (\<exists>p s. cph = CSnap p s)
          \<longrightarrow> SequenceHeader_GetSequenceNumber h = cseq)
     \<and> (\<forall>h. ms = Some h \<longrightarrow> sph = SSeq \<or> (\<exists>f. sph = SSnap f)
          \<longrightarrow> SequenceHeader_GetSequenceNumber h = int32 sseq)"

definition sys_inv :: "secretbox \<Rightarrow> stream \<Rightarrow> stream \<Rightarrow> sys \<Rightarrow> bool" where
  "sys_inv sb co so y \<longleftrightarrow>
     out_ok sb co (g_cout y) (s_cli y) \<and> in_ok so (g_sout y) (g_cgot y) (s_cli y)
     \<and> srv_ok sb co so (g_cout y) (g_sout y) (g_sgot y) (s_srv y)
     \<and> send_c (sealed_log sb co (g_cout y)) (cn_flushed (s_cli y)) (s_cph y) (s_wbuf y) (g_cbase y) (s_cw y)
     \<and> recv_s (sealed_log sb co (g_cout y)) (sv_recvSeq (s_srv y)) (s_sph y) (s_ccb y) (g_cbase y)
     \<and> send_s (sealed_log sb so (g_sout y)) (s_sph y) (s_sbuf y) (g_sbase y) (s_sw y)
     \<and> recv_c (sealed_log sb so (g_sout y)) (cn_recvSeq (s_cli y)) (s_cph y) (s_rd y) (s_scb y) (g_sbase y)
     \<and> shake (cn_recvSeq (s_cli y)) (sv_recvSeq (s_srv y)) (s_cph y) (s_sph y) (s_cseq y) (s_sseq y)
         (s_ccb y) (s_scb y)"

section \<open>The parts of the invariant under steps\<close>

lemma sealed_log_append: "\<exists>M. sealed_log sb s0 (ps @ qs) = sealed_log sb s0 ps @ M"
proof (induction qs rule: rev_induct)
  case (snoc q qs)
  then obtain M where "sealed_log sb s0 (ps @ qs) = sealed_log sb s0 ps @ M" by blast
  then show ?case using sealed_log_snoc [of sb s0 "ps @ qs" q] by simp
qed simp

lemma part_log: "j \<le> length L \<Longrightarrow> part (L @ M) i j = part L i j"
  by (rule part_append_log)

lemma send_c_prefix: "send_c L fl ph buf base w \<Longrightarrow> chan_prefix L base w"
  by (auto simp: send_c_def chan_prefix_def dest: chan_ok_prefix [unfolded chan_prefix_def]
      split: cphase.splits option.splits prod.splits)

lemma send_s_prefix: "send_s L ph buf base w \<Longrightarrow> chan_prefix L base w"
  by (auto simp: send_s_def chan_prefix_def dest: chan_ok_prefix [unfolded chan_prefix_def]
      split: sphase.splits option.splits prod.splits)

lemma chan_prefix_base: "chan_prefix L base w \<Longrightarrow> base \<le> length L"
  by (simp add: chan_prefix_def)

lemma send_c_log: "send_c L fl ph buf base w \<Longrightarrow> send_c (L @ M) fl ph buf base w"
  by (auto simp: send_c_def chan_ok_log chan_prefix_log bytes_in_log chan_ok_def [of L]
      split: cphase.splits option.splits prod.splits)

lemma send_s_log: "send_s L ph buf base w \<Longrightarrow> send_s (L @ M) ph buf base w"
  by (auto simp: send_s_def chan_ok_log chan_prefix_log split: sphase.splits option.splits prod.splits)

lemma recv_s_log: "recv_s L seq ph cb base \<Longrightarrow> base \<le> length L \<Longrightarrow> recv_s (L @ M) seq ph cb base"
  by (auto simp: recv_s_def part_log split: sphase.splits)

lemma recv_c_log: "recv_c L seq ph rd cb base \<Longrightarrow> base \<le> length L \<Longrightarrow> recv_c (L @ M) seq ph rd cb base"
  by (auto simp: recv_c_def part_log split: cphase.splits)

lemma send_c_down: "send_c L fl ph buf base w \<Longrightarrow> send_c L fl' CDown buf' base w"
  using send_c_prefix by (fastforce simp: send_c_def)

lemma send_s_down: "send_s L ph buf base w \<Longrightarrow> send_s L SDown buf' base w"
  using send_s_prefix by (fastforce simp: send_s_def)

lemma recv_down [simp]: "recv_c L seq CDown rd cb base" "recv_s L seq SDown cb base"
  by (simp_all add: recv_c_def recv_s_def)

lemma shake_cdown: "shake cseq sseq cph sph mc ms ccb scb \<Longrightarrow> shake cseq' sseq CDown sph mc ms ccb scb"
  by (auto simp: shake_def)

lemma shake_sdown: "shake cseq sseq cph sph mc ms ccb scb \<Longrightarrow> shake cseq sseq' cph SDown mc ms ccb scb"
  by (auto simp: shake_def)

text \<open>Both logs only grow: a step that appends to one keeps what it says about links and messages.\<close>

lemma sys_inv_cout:
  assumes "sys_inv sb co so y" and "out_ok sb co (g_cout y @ ps) c'"
    and "in_ok so (g_sout y) (g_cgot y) c'" and "cn_flushed c' = cn_flushed (s_cli y)"
    and "cn_recvSeq c' = cn_recvSeq (s_cli y)"
  shows "sys_inv sb co so (y\<lparr>s_cli := c', g_cout := g_cout y @ ps\<rparr>)"
proof -
  obtain M where M: "sealed_log sb co (g_cout y @ ps) = sealed_log sb co (g_cout y) @ M"
    using sealed_log_append by blast
  have "g_cbase y \<le> length (sealed_log sb co (g_cout y))"
    using assms(1) send_c_prefix chan_prefix_base unfolding sys_inv_def by blast
  with assms M show ?thesis
    by (simp add: sys_inv_def srv_ok_log send_c_log recv_s_log)
qed

lemma sys_inv_sout:
  assumes "sys_inv sb co so y" and "srv_ok sb co so (g_cout y) (g_sout y @ ps) (g_sgot y) s'"
    and "sv_recvSeq s' = sv_recvSeq (s_srv y)"
  shows "sys_inv sb co so (y\<lparr>s_srv := s', g_sout := g_sout y @ ps\<rparr>)"
proof -
  obtain M where M: "sealed_log sb so (g_sout y @ ps) = sealed_log sb so (g_sout y) @ M"
    using sealed_log_append by blast
  have "g_sbase y \<le> length (sealed_log sb so (g_sout y))"
    using assms(1) send_s_prefix chan_prefix_base unfolding sys_inv_def by blast
  with assms M show ?thesis
    by (simp add: sys_inv_def in_ok_log send_s_log recv_c_log)
qed

lemma sys_inv_cdown:
  assumes "sys_inv sb co so y" and "out_ok sb co (g_cout y) c'" and "in_ok so (g_sout y) (g_cgot y) c'"
  shows "sys_inv sb co so (y\<lparr>s_cli := c', s_cph := CDown, s_wbuf := b\<rparr>)"
  using assms send_c_down shake_cdown unfolding sys_inv_def by (simp) blast

lemma sys_inv_sdown:
  assumes "sys_inv sb co so y"
  shows "sys_inv sb co so (y\<lparr>s_sph := SDown, s_sbuf := b\<rparr>)"
  using assms send_s_down shake_sdown unfolding sys_inv_def by (simp) blast

text \<open>A frame taken off a link leaves the next packets of the log there.\<close>

lemma frame_nonempty:
  "ReadFrame \<lparr>avail = w, rend = EOF\<rparr> cp = (Inr (f, cp'), r') \<Longrightarrow> length (avail r') < length w"
  using ReadFrame_sound [of "\<lparr>avail = w, rend = EOF\<rparr>" cp f cp' r'] by (auto simp: length_frame_bytes)

lemma send_s_read:
  assumes ok: "list_all frame_ok L" and snd: "send_s L ph buf base w"
    and rf: "ReadFrame \<lparr>avail = w, rend = EOF\<rparr> cp = (Inr (f, cp'), r')"
  shows "send_s L ph buf (Suc base) (avail r') \<and> avail r' \<noteq> w"
proof -
  have ne: "length (avail r') < length w" using frame_nonempty [OF rf] .
  have "chan_prefix L (Suc base) (avail r')" using chan_read(4) [OF ok send_s_prefix [OF snd] rf] .
  moreover have "chan_ok L base k w rest \<Longrightarrow> chan_ok L (Suc base) k (avail r') rest" for k rest
    using chan_ok_read [OF ok _ rf] .
  ultimately show ?thesis
    using snd ne by (auto simp: send_s_def split: sphase.splits option.splits)
qed

lemma send_c_read:
  assumes ok: "list_all frame_ok L" and snd: "send_c L fl ph buf base w"
    and rf: "ReadFrame \<lparr>avail = w, rend = EOF\<rparr> cp = (Inr (f, cp'), r')"
  shows "send_c L fl ph buf (Suc base) (avail r')"
proof -
  have ne: "length (avail r') < length w" using frame_nonempty [OF rf] .
  have "chan_prefix L (Suc base) (avail r')" using chan_read(4) [OF ok send_c_prefix [OF snd] rf] .
  moreover have "chan_ok L base k w rest \<Longrightarrow> chan_ok L (Suc base) k (avail r') rest" for k rest
    using chan_ok_read [OF ok _ rf] .
  ultimately show ?thesis
    using snd ne by (auto simp: send_c_def split: cphase.splits option.splits)
qed

lemma step_cli_write_start:
  assumes inv: "sys_inv sb co so y" and "s_cph y = CUp" and "s_wbuf y = None"
    and fb: "frame_batch (cn_flushed (s_cli y)) (cn_lastProbe (s_cli y)) (writeLoop_take (s_cli y)) [] 0 0 (- 1)
       = res"
  shows "\<exists>buf sent n pa. res = Inr (buf, sent, n, pa)
    \<and> sys_inv sb co so (y\<lparr>s_wbuf := Some (buf, sent, n)\<rparr>)"
proof -
  have "out_ok sb co (g_cout y) (s_cli y)" using inv by (simp add: sys_inv_def)
  moreover have "chan_ok (sealed_log sb co (g_cout y)) (g_cbase y) (nat (cn_flushed (s_cli y))) (s_cw y) []"
    using inv assms(2,3) by (simp add: sys_inv_def send_c_def)
  ultimately obtain buf sent n pa where "res = Inr (buf, sent, n, pa)"
    "send_c (sealed_log sb co (g_cout y)) (cn_flushed (s_cli y)) CUp (Some (buf, sent, n)) (g_cbase y) (s_cw y)"
    using frame_next [of sb co "g_cout y" "s_cli y" "g_cbase y" "s_cw y" "cn_lastProbe (s_cli y)"] fb
    by (auto simp: send_c_def)
  with inv assms(2) show ?thesis by (auto simp: sys_inv_def)
qed

lemma step_cli_write_done:
  assumes inv: "sys_inv sb co so y" and "s_cph y = CUp" and "s_wbuf y = Some ([], sent, n)"
  shows "sys_inv sb co so (y\<lparr>s_cli := writeLoop_commit (s_cli y) sent n, s_wbuf := None\<rparr>)"
proof -
  let ?c' = "writeLoop_commit (s_cli y) sent n" and ?L = "sealed_log sb co (g_cout y)"
  have ok: "out_ok sb co (g_cout y) (s_cli y)" using inv by (simp add: sys_inv_def)
  from inv assms(2,3) have ch: "chan_ok ?L (g_cbase y) (nat (cn_flushed (s_cli y)) + sent) (s_cw y) []"
    and n: "int n = bytes_in ?L (nat (cn_flushed (s_cli y))) (nat (cn_flushed (s_cli y)) + sent)"
    by (simp_all add: sys_inv_def send_c_def)
  have "cn_recvSeq ?c' = cn_recvSeq (s_cli y)"
    by (simp add: writeLoop_commit_def releaseLocked_def Let_def)
  moreover have "in_ok so (g_sout y) (g_cgot y) ?c'"
    by (rule in_ok_cong [of so "g_sout y" "g_cgot y" "s_cli y"])
      (use inv in \<open>simp_all add: sys_inv_def writeLoop_commit_def releaseLocked_def Let_def\<close>)
  ultimately show ?thesis
    using inv commit_next [OF ok ch n] assms(2) by (simp add: sys_inv_def send_c_def)
qed

lemma step_cli_open:
  assumes sb: "secretbox_laws sb" and inv: "sys_inv sb co so y" and "s_cph y = CUp"
    and p: "reader_begin sb (s_cli y) l ((s_rd y)\<lparr>rd_stream := \<lparr>avail = s_sw y, rend = EOF\<rparr>\<rparr>) = (c', l', rd', res)"
    and pend: "cn_pending (s_cli y) = []"
  shows "case res of Inl e \<Rightarrow> c' = s_cli y
    | Inr (q, old) \<Rightarrow> sys_inv sb co so (y\<lparr>s_cli := c'\<lparr>cn_pending := [q]\<rparr>, s_rd := rd', s_sw := avail (rd_stream rd'),
       g_sbase := (if avail (rd_stream rd') = s_sw y then g_sbase y else Suc (g_sbase y))\<rparr>)"
proof (cases res)
  case (Inl e)
  with reader_open [OF sb _ _ _ _ _ _ p pend, of co "g_cout y" so "g_sout y" "g_cgot y" "g_sbase y"] inv assms(3)
  show ?thesis by (auto simp: sys_inv_def srv_ok_def recv_c_def dest: send_s_prefix)
next
  case (Inr qo)
  let ?S = "sealed_log sb so (g_sout y)"
  obtain q old where qo: "qo = (q, old)" by fastforce
  have ok: "out_ok sb co (g_cout y) (s_cli y)" "in_ok so (g_sout y) (g_cgot y) (s_cli y)"
    "list_all fits (g_sout y)" and snd: "send_s ?S (s_sph y) (s_sbuf y) (g_sbase y) (s_sw y)"
    using inv by (simp_all add: sys_inv_def srv_ok_def)
  have cat: "rd_catchup (s_rd y) = part ?S (nat (cn_recvSeq (s_cli y))) (g_sbase y)"
    "nat (cn_recvSeq (s_cli y)) \<le> g_sbase y"
    using inv assms(3) by (simp_all add: sys_inv_def recv_c_def)
  from reader_open [OF sb ok cat send_s_prefix [OF snd] p pend] Inr qo obtain base' where
    keep: "out_ok sb co (g_cout y) (c'\<lparr>cn_pending := [q]\<rparr>)" "in_ok so (g_sout y) (g_cgot y) (c'\<lparr>cn_pending := [q]\<rparr>)"
      "cn_flushed c' = cn_flushed (s_cli y)"
    and cat': "rd_catchup rd' = part ?S (nat (cn_recvSeq c')) base'" "nat (cn_recvSeq c') \<le> base'"
    and b': "base' = g_sbase y \<and> avail (rd_stream rd') = s_sw y
       \<or> base' = Suc (g_sbase y) \<and> (\<exists>cp f cp' r'. ReadFrame \<lparr>avail = s_sw y, rend = EOF\<rparr> cp = (Inr (f, cp'), r')
            \<and> avail (rd_stream rd') = avail r')" by simp blast
  let ?w' = "avail (rd_stream rd')" and ?b = "if avail (rd_stream rd') = s_sw y then g_sbase y else Suc (g_sbase y)"
  have "base' = ?b \<and> send_s ?S (s_sph y) (s_sbuf y) ?b ?w'"
    using b'
  proof (elim disjE conjE exE)
    fix cp f cp' r'
    assume "base' = Suc (g_sbase y)" and "?w' = avail r'"
      and rf: "ReadFrame \<lparr>avail = s_sw y, rend = EOF\<rparr> cp = (Inr (f, cp'), r')"
    with send_s_read [OF sealed_log_fits [OF sb ok(3)] snd rf] show ?thesis by simp
  qed (use snd in simp)
  with inv keep assms(3) cat' Inr qo show ?thesis by (simp add: sys_inv_def recv_c_def shake_def)
qed

lemma reader_pending:
  "cn_pending c = q # qs \<Longrightarrow> reader_begin sb c l rd = (c, l, rd, Inr (q, True))"
  by (simp add: reader_begin_def)

lemma reader_fresh: "reader_begin sb c l rd = (c', l', rd', Inr (p, False)) \<Longrightarrow> cn_pending c = []"
  by (cases "cn_pending c") (simp_all add: reader_pending)

lemma step_srv_reader:
  assumes sb: "secretbox_laws sb" and inv: "sys_inv sb co so y" and ph: "s_sph y = SUp f"
    and p: "server_read_pass sb (s_srv y) \<lparr>avail = s_cw y, rend = EOF\<rparr> cp = (s', r', cp', oe)"
  shows "oe \<noteq> None \<Longrightarrow> s' = s_srv y"
    and "oe = None \<Longrightarrow> sys_inv sb co so (y\<lparr>s_srv := s', s_cw := avail r', g_cbase := Suc (g_cbase y),
       g_sout := g_sout y @ echoes (sv_echo (s_srv y)) (new_packets (s_srv y) s')\<rparr>)"
proof -
  let ?s = "s_srv y" and ?L = "sealed_log sb co (g_cout y)"
  have srv: "srv_ok sb co so (g_cout y) (g_sout y) (g_sgot y) ?s" and fits: "list_all fits (g_cout y)"
    and snd: "send_c ?L (cn_flushed (s_cli y)) (s_cph y) (s_wbuf y) (g_cbase y) (s_cw y)"
    and rcv: "nat (sv_recvSeq ?s) = g_cbase y"
    using inv ph by (simp_all add: sys_inv_def out_ok_def recv_s_def)
  have Lok: "list_all frame_ok ?L" using sealed_log_fits [OF sb fits] .
  obtain res r1 where rf: "ReadFrame \<lparr>avail = s_cw y, rend = EOF\<rparr> cp = (res, r1)" by fastforce
  have acc: "oe = None \<and> r' = r1 \<and> nat (sv_recvSeq s') = Suc (g_cbase y)
      \<and> srv_ok sb co so (g_cout y) (g_sout y @ echoes (sv_echo ?s) (new_packets ?s s')) (g_sgot y) s'
      \<and> send_c ?L (cn_flushed (s_cli y)) (s_cph y) (s_wbuf y) (Suc (g_cbase y)) (avail r1)"
    if "res = Inr fc" for fc
  proof -
    obtain f cp1 where fc: "fc = (f, cp1)" by fastforce
    note rf' = rf [unfolded that fc]
    note cr = chan_read [OF Lok send_c_prefix [OF snd] rf']
    from p rf' have a: "server_accept sb ?s (?L ! nat (sv_recvSeq ?s)) = (s', oe)" "r' = r1"
      using cr(2) rcv by (auto simp: server_read_pass_def split: prod.splits)
    have i: "nat (sv_recvSeq ?s) < length (g_cout y)" using cr(1) rcv by simp
    note n = accept_next [OF sb srv i a(1)]
    have "nat (sv_recvSeq s') = Suc (g_cbase y)"
      using n(2) srv rcv by (simp add: srv_ok_def nat_add_distrib)
    moreover have "new_packets ?s s' = [g_cout y ! nat (sv_recvSeq ?s)]"
      using n(4) by (simp add: new_packets_def)
    ultimately show ?thesis using n(1,5) a(2) send_c_read [OF Lok snd rf'] by simp
  qed
  show "s' = ?s" if "oe \<noteq> None"
    using that acc p rf by (cases res) (auto simp: server_read_pass_def)
  assume oe: "oe = None"
  then obtain fc where "res = Inr fc" using p rf by (cases res) (auto simp: server_read_pass_def)
  note a = acc [OF this]
  obtain M where M: "sealed_log sb so (g_sout y @ echoes (sv_echo ?s) (new_packets ?s s'))
      = sealed_log sb so (g_sout y) @ M"
    using sealed_log_append by blast
  have "g_sbase y \<le> length (sealed_log sb so (g_sout y))"
    using inv send_s_prefix chan_prefix_base unfolding sys_inv_def by blast
  with inv a M ph show "sys_inv sb co so (y\<lparr>s_srv := s', s_cw := avail r', g_cbase := Suc (g_cbase y),
       g_sout := g_sout y @ echoes (sv_echo ?s) (new_packets ?s s')\<rparr>)"
    by (simp add: sys_inv_def in_ok_log send_s_log recv_c_log recv_s_def shake_def)
qed

lemma step_srv_accept:
  assumes sb: "secretbox_laws sb" and inv: "sys_inv sb co so y" and ph: "s_sph y = SSnap fl"
    and cb: "s_ccb y = Some theirs"
    and a: "accept_all sb (s_srv y) (CatchupBuffer_GetBuffer theirs) = (s', oe)"
  shows "oe = None" and "sys_inv sb co so (y\<lparr>s_srv := s', s_sph := SUp fl, s_sbuf := None,
       g_sout := g_sout y @ echoes (sv_echo (s_srv y)) (new_packets (s_srv y) s')\<rparr>)"
proof -
  let ?s = "s_srv y" and ?L = "sealed_log sb co (g_cout y)" and ?S = "sealed_log sb so (g_sout y)"
  have srv: "srv_ok sb co so (g_cout y) (g_sout y) (g_sgot y) ?s"
    and snd: "send_c ?L (cn_flushed (s_cli y)) (s_cph y) (s_wbuf y) (g_cbase y) (s_cw y)"
    and rcv: "CatchupBuffer_GetBuffer theirs = part ?L (nat (sv_recvSeq ?s)) (g_cbase y)"
      "nat (sv_recvSeq ?s) \<le> g_cbase y"
    and out: "send_s ?S (SSnap fl) (s_sbuf y) (g_sbase y) (s_sw y)"
    using inv ph cb by (simp_all add: sys_inv_def recv_s_def)
  have base: "g_cbase y \<le> length (g_cout y)" using chan_prefix_base [OF send_c_prefix [OF snd]] by simp
  from accept_all_next [OF sb srv rcv(2) base a [unfolded rcv(1)]] obtain xs where
    ok: "oe = None" "nat (sv_recvSeq s') = g_cbase y" "sv_queue s' = sv_queue ?s @ xs"
    "srv_ok sb co so (g_cout y) (g_sout y @ echoes (sv_echo ?s) xs) (g_sgot y) s'" by blast
  show "oe = None" by (rule ok)
  have xs: "new_packets ?s s' = xs" using ok(3) by (simp add: new_packets_def)
  obtain M where M: "sealed_log sb so (g_sout y @ echoes (sv_echo ?s) xs) = ?S @ M"
    using sealed_log_append by blast
  have "send_s ?S (SUp fl) None (g_sbase y) (s_sw y)"
    using out chan_ok_new [of "nat fl" ?S] by (simp add: send_s_def)
  moreover have "g_sbase y \<le> length ?S" using chan_prefix_base [OF send_s_prefix [OF out]] .
  moreover have "s_cph y \<noteq> CConn" "s_cph y \<noteq> CSeq" using inv cb by (auto simp: sys_inv_def shake_def)
  ultimately show "sys_inv sb co so (y\<lparr>s_srv := s', s_sph := SUp fl, s_sbuf := None,
       g_sout := g_sout y @ echoes (sv_echo ?s) (new_packets ?s s')\<rparr>)"
    using inv ok M ph unfolding xs
    by (simp add: sys_inv_def in_ok_log send_s_log recv_c_log recv_s_def shake_def)
qed

lemma step_cli_snap:
  assumes sb: "secretbox_laws sb" and inv: "sys_inv sb co so y" and ph: "s_cph y = CSeq"
    and ms: "s_sseq y = Some peer" and win: "recover_window (s_cli y) peer = Inr (snap, ours)"
  shows "sys_inv sb co so (y\<lparr>s_cph := CSnap peer snap, s_cw := [], g_cbase := nat snap,
       s_ccb := Some (CatchupBuffer_SetBuffer ours new_CatchupBuffer)\<rparr>)"
proof -
  let ?c = "s_cli y" and ?L = "sealed_log sb co (g_cout y)" and ?pos = "SequenceHeader_GetSequenceNumber peer"
  have ok: "out_ok sb co (g_cout y) ?c" and srv: "srv_ok sb co so (g_cout y) (g_sout y) (g_sgot y) (s_srv y)"
    using inv by (simp_all add: sys_inv_def)
  note d = out_ok_D [OF ok]
  have snap: "snap = int (length (g_cout y))" using recover_window_Inr(1) [OF win] d(5) by simp
  have logs: "ring.logs (cn_ring ?c) ?L" using ok by (simp add: out_ok_def)
  from ring.since_logs [OF d(2) logs recover_window_Inr(2) [OF win]] snap
  have ours: "0 \<le> ?pos" "?pos \<le> snap" "ours = part ?L (nat ?pos) (nat snap)"
    by (simp_all add: part_def)
  have window: "rg_first (cn_ring ?c) \<le> ?pos"
    using recover_window_Inr(2) [OF win] by (auto simp: ring_since_def split: if_splits)
  have seq: "?pos = sv_recvSeq (s_srv y)" if s: "s_sph y = SSeq \<or> (\<exists>f. s_sph y = SSnap f)"
  proof -
    let ?P = "sv_recvSeq (s_srv y)"
    have pos: "?pos = int32 ?P" using inv ms s by (simp add: sys_inv_def shake_def)
    have P: "0 \<le> ?P" "?P \<le> ring_next (cn_ring ?c)" using srv d(5) by (auto simp: srv_ok_def)
    have "set (rg_entries (cn_ring ?c)) \<subseteq> set ?L"
    proof
      fix e assume "e \<in> set (rg_entries (cn_ring ?c))"
      moreover have "rg_entries (cn_ring ?c) = part ?L (nat (rg_first (cn_ring ?c))) (length ?L)"
        using logs_range [OF d(2) logs order.refl, of "ring_next (cn_ring ?c)"] d(5)
        by (simp add: ring_appendRange_def go_slice_def ring_next_def)
      ultimately show "e \<in> set ?L" by (auto simp: part_def dest: in_set_takeD in_set_dropD)
    qed
    then have "list_all (\<lambda>e. 18 \<le> length e) (rg_entries (cn_ring ?c))"
      using sealed_log_long [OF sb, of co "g_cout y"] by (auto simp: list_all_iff)
    then have "\<not> 2 ^ 31 \<le> ?P"
      using wrapped_position_below [OF d(1) _ _ _ P(2)] ok window pos by (auto simp: out_ok_def)
    with P(1) pos show ?thesis by (simp add: int32_id)
  qed
  have "recv_s ?L (sv_recvSeq (s_srv y)) (s_sph y) (Some (CatchupBuffer_SetBuffer ours new_CatchupBuffer)) (nat snap)"
    using ours seq inv ph ms by (auto simp: recv_s_def sys_inv_def shake_def split: sphase.splits)
  moreover have "send_c ?L (cn_flushed ?c) (CSnap peer snap) (s_wbuf y) (nat snap) []"
    using snap d(4) by (simp add: send_c_def)
  moreover have "recv_c (sealed_log sb so (g_sout y)) (cn_recvSeq ?c) (CSnap peer snap) (s_rd y) (s_scb y) (g_sbase y)"
    using inv ph by (simp add: sys_inv_def recv_c_def)
  ultimately show ?thesis using inv ph by (auto simp: sys_inv_def shake_def)
qed

lemma step_srv_snap:
  assumes inv: "sys_inv sb co so y" and ph: "s_sph y = SSeq" and mc: "s_cseq y = Some peer"
    and win: "server_window (s_srv y) (SequenceHeader_GetSequenceNumber peer) = Inr (catchup, fl)"
  shows "sys_inv sb co so (y\<lparr>s_sph := SSnap fl, s_sw := [], g_sbase := nat fl,
       s_scb := Some (CatchupBuffer_SetBuffer catchup new_CatchupBuffer)\<rparr>)"
proof -
  let ?S = "sealed_log sb so (g_sout y)" and ?pos = "SequenceHeader_GetSequenceNumber peer"
  have srv: "srv_ok sb co so (g_cout y) (g_sout y) (g_sgot y) (s_srv y)"
    and inn: "in_ok so (g_sout y) (g_cgot y) (s_cli y)" using inv by (simp_all add: sys_inv_def)
  from win srv have fl: "fl = int (length (g_sout y))" "catchup = part ?S (nat ?pos) (nat fl)" "0 \<le> ?pos" "?pos \<le> fl"
    by (auto simp: server_window_def srv_ok_def part_def split: if_splits)
  have "?pos = cn_recvSeq (s_cli y)" if "s_cph y = CSeq \<or> (\<exists>p s. s_cph y = CSnap p s)"
    using inv mc that by (auto simp: sys_inv_def shake_def)
  then have "recv_c ?S (cn_recvSeq (s_cli y)) (s_cph y) (s_rd y)
      (Some (CatchupBuffer_SetBuffer catchup new_CatchupBuffer)) (nat fl)"
    using fl inv ph mc by (auto simp: recv_c_def sys_inv_def shake_def split: cphase.splits)
  moreover have "send_s ?S (SSnap fl) (s_sbuf y) (nat fl) []" using fl by (simp add: send_s_def)
  moreover have "recv_s (sealed_log sb co (g_cout y)) (sv_recvSeq (s_srv y)) (SSnap fl) (s_ccb y) (g_cbase y)"
    using inv ph by (simp add: sys_inv_def recv_s_def)
  ultimately show ?thesis using inv ph by (auto simp: sys_inv_def shake_def)
qed

lemma step_cli_commit:
  assumes inv: "sys_inv sb co so y" and ph: "s_cph y = CSnap peer snap" and cb: "s_scb y = Some theirs"
  shows "sys_inv sb co so (y\<lparr>s_cli := recover_commit (s_cli y) snap peer, s_cph := CUp, s_wbuf := None,
       s_rd := newLinkReader (CatchupBuffer_GetBuffer theirs) \<lparr>avail = s_sw y, rend = EOF\<rparr>\<rparr>)"
proof -
  let ?c = "s_cli y" and ?L = "sealed_log sb co (g_cout y)"
  have ok: "out_ok sb co (g_cout y) ?c" using inv by (simp add: sys_inv_def)
  have snd: "g_cbase y = nat snap" "s_cw y = []" "cn_flushed ?c \<le> snap" "nat snap \<le> length (g_cout y)"
    using inv ph by (simp_all add: sys_inv_def send_c_def)
  have ok': "out_ok sb co (g_cout y) (recover_commit ?c snap peer)"
    using out_ok_recover_commit [OF ok snd(3)] snd(4) out_ok_D(3) [OF ok] snd(3) by simp
  have "in_ok so (g_sout y) (g_cgot y) (recover_commit ?c snap peer)"
    by (rule in_ok_cong [of so "g_sout y" "g_cgot y" ?c]) (use inv in \<open>simp_all add: sys_inv_def\<close>)
  moreover have "send_c ?L snap CUp None (g_cbase y) (s_cw y)"
    using snd chan_ok_new [of "nat snap" ?L] by (simp add: send_c_def)
  moreover have "s_sph y \<noteq> SConn" "s_sph y \<noteq> SSeq" using inv cb by (auto simp: sys_inv_def shake_def)
  ultimately show ?thesis
    using inv ok' ph cb by (simp add: sys_inv_def recv_c_def shake_def newLinkReader_def)
qed

lemma sys_inv_client_io:
  assumes "sys_inv sb co so y" and "out_ok sb co (g_cout y) c'" and "in_ok so (g_sout y) got c'"
    and "cn_flushed c' = cn_flushed (s_cli y)" and "cn_recvSeq c' = cn_recvSeq (s_cli y)"
  shows "sys_inv sb co so (y\<lparr>s_cli := c', g_cgot := got\<rparr>)"
  using assms by (simp add: sys_inv_def)

lemma step_cli_flags:
  assumes "sys_inv sb co so y"
  shows "sys_inv sb co so (y\<lparr>s_cli := (s_cli y)\<lparr>cn_wake := a, cn_space := b\<rparr>\<rparr>)"
proof -
  have "out_ok sb co (g_cout y) (s_cli y)" using assms by (simp add: sys_inv_def)
  then have "out_ok sb co (g_cout y) ((s_cli y)\<lparr>cn_wake := a, cn_space := b\<rparr>)"
    by (rule out_ok_cong) (use out_ok_D(6) [of sb co "g_cout y" "s_cli y"] assms in \<open>auto simp: sys_inv_def\<close>)
  with assms show ?thesis by (simp add: sys_inv_def in_ok_def)
qed

lemma step_cli_cancel:
  assumes inv: "sys_inv sb co so y"
  shows "sys_inv sb co so (y\<lparr>s_cli := conn_cancel (s_cli y) errClosed\<rparr>)"
proof -
  have ok: "out_ok sb co (g_cout y) (s_cli y)" using inv by (simp add: sys_inv_def)
  have "out_ok sb co (g_cout y) (conn_cancel (s_cli y) errClosed)"
    by (rule out_ok_cong [OF ok]) (use out_ok_D(6) [OF ok] in \<open>auto simp: conn_cancel_def split: option.splits\<close>)
  moreover have "cn_flushed (conn_cancel (s_cli y) errClosed) = cn_flushed (s_cli y)"
    "cn_recvSeq (conn_cancel (s_cli y) errClosed) = cn_recvSeq (s_cli y)"
    by (simp_all add: conn_cancel_def split: option.splits)
  ultimately show ?thesis using inv in_ok_cancel by (simp add: sys_inv_def)
qed

lemma step_cli_probe:
  assumes sb: "secretbox_laws sb" and inv: "sys_inv sb co so y"
    and w: "watch_pass sb (s_cli y) l False WatchTimer = (c', l', Inr True)"
  shows "sys_inv sb co so (y\<lparr>s_cli := c',
       g_cout := g_cout y @ (if cn_flushed (s_cli y) \<le> cn_lastProbe (s_cli y) then [] else [cn_probe (s_cli y)])\<rparr>)"
proof -
  have c': "c' = probeOnce sb (s_cli y)" using w by (auto simp: watch_pass_def split: if_splits)
  have ok: "out_ok sb co (g_cout y) (s_cli y)" and inn: "in_ok so (g_sout y) (g_cgot y) (s_cli y)"
    using inv by (simp_all add: sys_inv_def)
  have same: "cn_flushed c' = cn_flushed (s_cli y)" "cn_recvSeq c' = cn_recvSeq (s_cli y)"
    "cn_in c' = cn_in (s_cli y)" "cn_inbox c' = cn_inbox (s_cli y)" "cn_pending c' = cn_pending (s_cli y)"
    "cn_cause c' = cn_cause (s_cli y)"
    by (simp_all add: c' probeOnce_def enqueueLocked_eq Let_def)
  have "out_ok sb co (g_cout y @ (if cn_flushed (s_cli y) \<le> cn_lastProbe (s_cli y) then [] else [cn_probe (s_cli y)])) c'"
    using ok out_ok_probeOnce [OF ok sb] by (auto simp: c' probeOnce_def)
  from sys_inv_cout [OF inv this in_ok_cong [OF inn]] same show ?thesis by simp
qed

lemma step_cli_write:
  assumes sb: "secretbox_laws sb" and inv: "sys_inv sb co so y"
    and w: "WritePacket_enter None p = None" "WritePacket_pass sb (s_cli y) p = (c', Queued)"
  shows "sys_inv sb co so (y\<lparr>s_cli := c', g_cout := g_cout y @ [p]\<rparr>)"
proof -
  have ok: "out_ok sb co (g_cout y) (s_cli y)" and inn: "in_ok so (g_sout y) (g_cgot y) (s_cli y)"
    using inv by (simp_all add: sys_inv_def)
  have "fits p" using w(1) by (simp add: WritePacket_enter_def fits_def split: if_splits)
  note ok' = out_ok_WritePacket [OF ok sb this w(2)]
  have "cn_flushed c' = cn_flushed (s_cli y)" "cn_recvSeq c' = cn_recvSeq (s_cli y)"
    "cn_in c' = cn_in (s_cli y)" "cn_inbox c' = cn_inbox (s_cli y)" "cn_pending c' = cn_pending (s_cli y)"
    "cn_cause c' = cn_cause (s_cli y)"
    using w(2) by (auto simp: WritePacket_pass_def enqueueLocked_eq Let_def split: option.splits if_splits)
  with sys_inv_cout [OF inv ok' in_ok_cong [OF inn]] show ?thesis by simp
qed

lemma step_cli_read:
  assumes inv: "sys_inv sb co so y" and r: "ReadPacket ctx ch (s_cli y) = Some (c', Inr p)"
  shows "sys_inv sb co so (y\<lparr>s_cli := c', g_cgot := g_cgot y @ [p]\<rparr>)"
proof (rule sys_inv_client_io [OF inv])
  have ok: "out_ok sb co (g_cout y) (s_cli y)" using inv by (simp add: sys_inv_def)
  show "in_ok so (g_sout y) (g_cgot y @ [p]) c'" using in_ok_ReadPacket [OF _ r] inv by (simp add: sys_inv_def)
  show "cn_flushed c' = cn_flushed (s_cli y)" "cn_recvSeq c' = cn_recvSeq (s_cli y)"
    using r by (auto simp: ReadPacket_def split: read_choice.splits list.splits option.splits if_splits)
  show "out_ok sb co (g_cout y) c'"
    by (rule out_ok_cong [OF ok]) (use r out_ok_D(6) [OF ok] in
      \<open>auto simp: ReadPacket_def split: read_choice.splits list.splits option.splits if_splits\<close>)
qed

lemma step_cli_close:
  assumes inv: "sys_inv sb co so y"
  shows "sys_inv sb co so (y\<lparr>s_cli := conn_Close (s_cli y), s_cph := CDown, s_wbuf := None\<rparr>)"
proof (rule sys_inv_cdown [OF inv])
  have ok: "out_ok sb co (g_cout y) (s_cli y)" using inv by (simp add: sys_inv_def)
  show "out_ok sb co (g_cout y) (conn_Close (s_cli y))"
    by (rule out_ok_cong [OF ok])
      (use out_ok_D(6) [OF ok] in \<open>auto simp: conn_Close_def conn_cancel_def split: option.splits\<close>)
  show "in_ok so (g_sout y) (g_cgot y) (conn_Close (s_cli y))"
    using inv in_ok_Close by (simp add: sys_inv_def)
qed

lemma step_srv_caller:
  assumes inv: "sys_inv sb co so y"
  shows "fits p \<Longrightarrow> server_Send sb None (s_srv y) p = (s', None) \<Longrightarrow>
      sys_inv sb co so (y\<lparr>s_srv := s', g_sout := g_sout y @ [p]\<rparr>)"
    and "server_Recv (s_srv y) = Some (s', p) \<Longrightarrow>
      sys_inv sb co so (y\<lparr>s_srv := s', g_sgot := g_sgot y @ [p]\<rparr>)"
    and "sys_inv sb co so (y\<lparr>s_srv := EndSession (s_srv y)\<rparr>)"
    and "sys_inv sb co so (y\<lparr>s_srv := EchoKeepAlive (s_srv y) on\<rparr>)"
proof -
  have srv: "srv_ok sb co so (g_cout y) (g_sout y) (g_sgot y) (s_srv y)" using inv by (simp add: sys_inv_def)
  show "sys_inv sb co so (y\<lparr>s_srv := s', g_sout := g_sout y @ [p]\<rparr>)"
    if "fits p" "server_Send sb None (s_srv y) p = (s', None)"
  proof -
    have s': "s' = (server_enqueueLocked sb (s_srv y) p)\<lparr>sv_wake := True\<rparr>"
      using that(2) by (simp add: server_Send_def)
    have "srv_ok sb co so (g_cout y) (g_sout y @ [p]) (g_sgot y) s'"
      by (rule srv_ok_cong [OF srv_ok_enqueue [OF srv that(1)]]) (simp_all add: s')
    moreover have "sv_recvSeq s' = sv_recvSeq (s_srv y)"
      by (simp add: s' server_enqueueLocked_def split: prod.splits)
    ultimately show ?thesis using sys_inv_sout [OF inv] by simp
  qed
  show "sys_inv sb co so (y\<lparr>s_srv := s', g_sgot := g_sgot y @ [p]\<rparr>)" if "server_Recv (s_srv y) = Some (s', p)"
    using inv that by (auto simp: sys_inv_def srv_ok_def server_Recv_def split: list.splits)
  show "sys_inv sb co so (y\<lparr>s_srv := EndSession (s_srv y)\<rparr>)"
    and "sys_inv sb co so (y\<lparr>s_srv := EchoKeepAlive (s_srv y) on\<rparr>)"
    using inv by (simp_all add: sys_inv_def srv_ok_def EndSession_def EchoKeepAlive_def)
qed

lemma step_srv_write_start:
  assumes inv: "sys_inv sb co so y" and ph: "s_sph y = SUp f" "s_sbuf y = None"
    and fs: "fs = drop (nat f) (sv_sent (s_srv y))"
  shows "sys_inv sb co so (y\<lparr>s_sbuf := Some (concat (map frame_bytes fs), length fs)\<rparr>)"
proof -
  let ?S = "sealed_log sb so (g_sout y)"
  have S: "sv_sent (s_srv y) = ?S" using inv by (simp add: sys_inv_def srv_ok_def)
  have ch: "chan_ok ?S (g_sbase y) (nat f) (s_sw y) []" "0 \<le> f"
    using inv ph by (simp_all add: sys_inv_def send_s_def)
  from chan_ok_start [OF ch(1), of "length fs"]
  have "chan_ok ?S (g_sbase y) (nat f + length fs) (s_sw y) (concat (map frame_bytes fs))"
    by (simp add: fs S)
  with inv ph ch(2) show ?thesis by (simp add: sys_inv_def send_s_def)
qed

lemma step_cli_seq:
  assumes inv: "sys_inv sb co so y" and ph: "s_cph y = CConn" and small: "cn_recvSeq (s_cli y) \<le> math_MaxInt32"
  shows "sys_inv sb co so (y\<lparr>s_cph := CSeq,
    s_cseq := Some (SequenceHeader_SetSequenceNumber (int32 (cn_recvSeq (s_cli y))) new_SequenceHeader)\<rparr>)"
proof -
  have "0 \<le> cn_recvSeq (s_cli y)" using inv by (simp add: sys_inv_def in_ok_def)
  with small have "int32 (cn_recvSeq (s_cli y)) = cn_recvSeq (s_cli y)"
    by (intro int32_id) (simp_all add: math_MaxInt32_def)
  with inv ph show ?thesis by (auto simp: sys_inv_def send_c_def recv_c_def shake_def)
qed

lemma srv_inv_step:
  assumes "secretbox_laws sb" and "sys_inv sb co so y" and "srv_step sb y y'"
  shows "sys_inv sb co so y'"
  using assms(3)
proof cases
  case srv_send then show ?thesis using step_srv_caller(1) [OF assms(2)] by simp
next
  case srv_recv then show ?thesis using step_srv_caller(2) [OF assms(2)] by simp
next
  case srv_end then show ?thesis using step_srv_caller(3) [OF assms(2)] by simp
next
  case srv_echo then show ?thesis using step_srv_caller(4) [OF assms(2)] by simp
next
  case srv_write_start then show ?thesis using step_srv_write_start [OF assms(2)] by simp
next
  case srv_write_bytes
  then show ?thesis using assms(2) chan_ok_write by (auto simp: sys_inv_def send_s_def)
next
  case srv_write_done
  then show ?thesis using assms(2)
    by (auto simp: sys_inv_def send_s_def recv_s_def shake_def nat_add_distrib)
next
  case srv_reader then show ?thesis using step_srv_reader(2) [OF assms(1,2)] by simp
next
  case (srv_reader_end f cp s' r' cp' e)
  then have "s' = s_srv y" using step_srv_reader(1) [OF assms(1,2) srv_reader_end(2,3)] by simp
  then show ?thesis using srv_reader_end(1) sys_inv_sdown [OF assms(2), of None] by simp
next
  case srv_down then show ?thesis using sys_inv_sdown [OF assms(2)] by simp
next
  case srv_seq
  then show ?thesis using assms(2) by (auto simp: sys_inv_def send_s_def recv_s_def shake_def)
next
  case srv_snap then show ?thesis using step_srv_snap [OF assms(2)] by simp
next
  case srv_accept then show ?thesis using step_srv_accept(2) [OF assms(1,2)] by simp
next
  case srv_accept_fail then show ?thesis using step_srv_accept(1) [OF assms(1,2)] by blast
qed

lemma step_connect:
  assumes "sys_inv sb co so y" and "s_cph y = CDown" "s_sph y = SDown"
  shows "sys_inv sb co so (y\<lparr>s_cph := CConn, s_sph := SConn, s_cw := [], s_sw := [],
       s_cseq := None, s_sseq := None, s_ccb := None, s_scb := None\<rparr>)"
proof -
  have "chan_prefix L base w \<Longrightarrow> chan_prefix L base []" for L base w by (auto simp: chan_prefix_def)
  with assms show ?thesis
    using send_c_prefix send_s_prefix
    by (auto simp: sys_inv_def send_c_def send_s_def recv_c_def recv_s_def shake_def)
qed

lemma sys_inv_step:
  assumes "secretbox_laws sb" and "sys_inv sb co so y" and "sys_step sb y y'"
  shows "sys_inv sb co so y'"
  using assms(3)
proof cases
  case cli_write then show ?thesis using step_cli_write [OF assms(1,2)] by simp
next
  case cli_probe then show ?thesis using step_cli_probe [OF assms(1,2)] by simp
next
  case cli_read then show ?thesis using step_cli_read [OF assms(2)] by simp
next
  case cli_space
  then show ?thesis using step_cli_flags [OF assms(2), where a = "cn_wake (s_cli y)" and b = False]
    by (simp add: WritePacket_wait_def)
next
  case cli_cancel then show ?thesis using step_cli_cancel [OF assms(2)] by simp
next
  case cli_close then show ?thesis using step_cli_close [OF assms(2)] by simp
next
  case (cli_write_start buf sent n pa)
  then show ?thesis using step_cli_write_start [OF assms(2) _ _ refl] by simp
next
  case (cli_write_fail e)
  then show ?thesis using step_cli_write_start [OF assms(2) _ _ refl] by simp
next
  case cli_write_bytes
  then show ?thesis using assms(2) chan_ok_write by (auto simp: sys_inv_def send_c_def)
next
  case cli_write_done then show ?thesis using step_cli_write_done [OF assms(2)] by simp
next
  case cli_wake
  then show ?thesis using step_cli_flags [OF assms(2), where a = False and b = "cn_space (s_cli y)"] by simp
next
  case cli_open
  then show ?thesis using step_cli_open [OF assms(1,2)] reader_fresh by fastforce
next
  case (cli_hand p ps l c' l')
  note h = hand_next [OF cli_hand(4,3)]
  from h(1,2) assms(2) have "out_ok sb co (g_cout y) (c'\<lparr>cn_pending := ps\<rparr>)"
    "in_ok so (g_sout y) (g_cgot y) (c'\<lparr>cn_pending := ps\<rparr>)" by (simp_all add: sys_inv_def)
  with h(3,4) cli_hand(1) assms(2) show ?thesis by (simp add: sys_inv_def)
next
  case (cli_reader_fail l c' l' rd' e)
  then have "cn_pending (s_cli y) = []" by (cases "cn_pending (s_cli y)") (simp_all add: reader_pending)
  with cli_reader_fail step_cli_open [OF assms(1,2)] have "c' = s_cli y" by fastforce
  with cli_reader_fail(1) assms(2) show ?thesis by simp
next
  case cli_down
  then show ?thesis using sys_inv_cdown [OF assms(2), of "s_cli y" None] assms(2)
    by (simp add: sys_inv_def)
next
  case connect then show ?thesis using step_connect [OF assms(2)] by simp
next
  case cli_seq then show ?thesis using step_cli_seq [OF assms(2)] by simp
next
  case cli_snap then show ?thesis using step_cli_snap [OF assms(1,2)] by simp
next
  case cli_commit then show ?thesis using step_cli_commit [OF assms(2)] by simp
next
  case server then show ?thesis using srv_inv_step [OF assms(1,2)] by simp
qed

section \<open>Sessions\<close>

text \<open>The streams of a session with the given key, and its invariant.\<close>

definition stream0 :: "bytes \<Rightarrow> Direction \<Rightarrow> stream" where
  "stream0 key d = \<lparr>st_key = key, st_nonce = (replicate 24 0)[23 := d]\<rparr>"

definition session_inv :: "secretbox \<Rightarrow> bytes \<Rightarrow> sys \<Rightarrow> bool" where
  "session_inv sb key y \<longleftrightarrow>
     (secretbox_laws sb \<longrightarrow> sys_inv sb (stream0 key ClientToServer) (stream0 key ServerToClient) y)"

definition session_start :: "bytes \<Rightarrow> sys \<Rightarrow> bool" where
  "session_start key y \<longleftrightarrow> (\<exists>d addr cid. sys_start d addr cid key = Some y)"

definition reachable :: "secretbox \<Rightarrow> bytes \<Rightarrow> sys \<Rightarrow> bool" where
  "reachable sb key y \<longleftrightarrow> (\<exists>y0. session_start key y0 \<and> (sys_step sb)\<^sup>*\<^sup>* y0 y)"

lemma session_start_inv:
  assumes "sys_start d addr cid key = Some y"
  shows "sys_inv sb (stream0 key ClientToServer) (stream0 key ServerToClient) y"
proof -
  from assms obtain c s where len: "length key = 32" and opt: "\<not> bad_options d key"
    and c: "newConn d addr cid key = Some c" and s: "NewServer cid key = Some s"
    and y: "y = \<lparr>s_cli = c, s_cph = CUp, s_rd = no_reader, s_wbuf = None,
               s_srv = s\<lparr>sv_known := True\<rparr>, s_sph = SUp 0, s_sbuf = None, s_cw = [], s_sw = [],
               s_cseq = None, s_sseq = None, s_ccb = None, s_scb = None,
               g_cout = [], g_sout = [], g_cgot = [], g_sgot = [], g_cbase = 0, g_sbase = 0\<rparr>"
    by (auto simp: sys_start_def split: if_splits option.splits)
  have key: "take 32 (key @ replicate 32 0) = key" "take 32 key = key" using len by simp_all
  have fields: "cn_out c = stream0 key ClientToServer" "cn_in c = stream0 key ServerToClient"
    "cn_flushed c = 0" "cn_recvSeq c = 0" "cn_inbox c = []" "cn_pending c = []" "cn_cause c = None"
    "rg_first (cn_ring c) = 0" "rg_entries (cn_ring c) = []"
    using c len by (auto simp: newConn_def key seal_New_def stream0_def ClientToServer_def ServerToClient_def Let_def)
  have inv: "conn_inv c" "rg_limit (cn_ring c) \<le> 64 * 2 ^ 20"
    using newConn_Some [OF c] newConn_limits(3) [OF c] opt by (auto simp: bad_options_def)
  have logs: "ring.logs (cn_ring c) []"
    by (simp add: ring.logs_def ring_next_def ring_lookup_def fields)
  have srv: "sv_sent s = []" "sv_out s = stream0 key ServerToClient" "sv_in s = stream0 key ClientToServer"
    "sv_recvSeq s = 0" "sv_queue s = []"
    using s len by (auto simp: NewServer_def key seal_New_def stream0_def ClientToServer_def ServerToClient_def Let_def)
  show ?thesis
    using inv logs
    by (simp add: sys_inv_def y out_ok_def in_ok_def srv_ok_def fields srv trim_justified_def send_c_def
        send_s_def recv_c_def recv_s_def shake_def no_reader_def newLinkReader_def chan_ok_new)
qed

interpretation session: transition_system "session_start key" "sys_step sb" "session_inv sb key" for key sb
proof
  fix y assume "session_start key y"
  then show "session_inv sb key y" using session_start_inv by (auto simp: session_start_def session_inv_def)
next
  fix y y' assume "session_inv sb key y" and "sys_step sb y y'"
  then show "session_inv sb key y'" using sys_inv_step unfolding session_inv_def by blast
qed

lemma reachable_inv:
  "secretbox_laws sb \<Longrightarrow> reachable sb key y \<Longrightarrow>
   sys_inv sb (stream0 key ClientToServer) (stream0 key ServerToClient) y"
  using session.inv_reachable [of key _ sb y] unfolding reachable_def session_inv_def by blast

section \<open>A session for the witnesses\<close>

definition demo_packet :: packet where "demo_packet = \<lparr>pkt_header = HeaderTerminalBuffer, pkt_payload = [104, 105]\<rparr>"

lemma demo_start: "\<exists>y. sys_start demo_dialer [] [] demo_key = Some y \<and> s_cph y = CUp \<and> s_sph y = SUp 0
    \<and> cn_cause (s_cli y) = None \<and> cn_unsent (s_cli y) = 0 \<and> sv_registered (s_srv y)
    \<and> g_cout y = [] \<and> cn_recvSeq (s_cli y) = 0 \<and> sv_recvSeq (s_srv y) = 0
    \<and> 0 \<le> rg_limit (cn_ring (s_cli y)) \<and> cn_flushed (s_cli y) = 0"
  by (simp add: sys_start_def demo_key_def bad_options_def demo_dialer_def zero_packet_def maxReplayLimit_def
      defaultReplayLimit_def minKeepAlive_def newConn_def NewServer_def seal_New_def ClientToServer_def
      ServerToClient_def cmp_Or_def Let_def)

text \<open>One packet written and both ends lost their link.\<close>

lemma demo_reachable:
  "\<exists>y. reachable demo_box demo_key y \<and> s_cph y = CDown \<and> s_sph y = SDown \<and> g_cout y = [demo_packet]
    \<and> cn_cause (s_cli y) = None \<and> sv_registered (s_srv y) \<and> cn_recvSeq (s_cli y) = 0
    \<and> sv_recvSeq (s_srv y) = 0 \<and> cn_flushed (s_cli y) = 0 \<and> 0 \<le> rg_limit (cn_ring (s_cli y))"
proof -
  obtain y where y: "sys_start demo_dialer [] [] demo_key = Some y" "s_cph y = CUp" "s_sph y = SUp 0"
    "cn_cause (s_cli y) = None" "cn_unsent (s_cli y) = 0" "sv_registered (s_srv y)" "g_cout y = []"
    "cn_recvSeq (s_cli y) = 0" "sv_recvSeq (s_srv y) = 0" "0 \<le> rg_limit (cn_ring (s_cli y))"
    "cn_flushed (s_cli y) = 0"
    using demo_start by blast
  obtain c' where c': "WritePacket_pass demo_box (s_cli y) demo_packet = (c', Queued)"
    "cn_cause c' = None" "cn_recvSeq c' = 0" "cn_flushed c' = 0" "0 \<le> rg_limit (cn_ring c')"
    using y by (auto simp: WritePacket_pass_def enqueueLocked_eq Let_def)
  let ?y1 = "y\<lparr>s_cli := c', g_cout := g_cout y @ [demo_packet]\<rparr>"
  let ?y2 = "?y1\<lparr>s_cph := CDown, s_wbuf := None, s_rd := no_reader\<rparr>"
  let ?y3 = "?y2\<lparr>s_sph := SDown, s_sbuf := None\<rparr>"
  have "WritePacket_enter None demo_packet = None"
    by (simp add: WritePacket_enter_def demo_packet_def maxPayload_def MaxFrameSize_def secretbox_Overhead_def)
  then have "sys_step demo_box y ?y1" using c'(1) by (intro sys_step.cli_write)
  moreover have "sys_step demo_box ?y1 ?y2" by (rule sys_step.cli_down)
  moreover have "sys_step demo_box ?y2 ?y3" by (rule sys_step.server [OF srv_step.srv_down])
  ultimately have "(sys_step demo_box)\<^sup>*\<^sup>* y ?y3" by (meson r_into_rtranclp rtranclp_trans)
  then have "reachable demo_box demo_key ?y3"
    using y(1) by (auto simp: reachable_def session_start_def)
  then show ?thesis using y c' by (intro exI [of _ ?y3]) simp
qed

section \<open>Properties\<close>

text \<open>
  Exactly once, in order, across any number of lost links: what each end has been given is a prefix
  of what the other queued.
\<close>

lemma delivered_prefix:
  assumes "secretbox_laws sb" and "reachable sb key y"
  shows "\<exists>rest. g_cout y = g_sgot y @ rest" and "\<exists>rest. g_sout y = g_cgot y @ rest"
proof -
  from reachable_inv [OF assms]
  have "g_cgot y @ cn_inbox (s_cli y) @ cn_pending (s_cli y) = take (nat (cn_recvSeq (s_cli y))) (g_sout y)"
    and "g_sgot y @ sv_queue (s_srv y) = take (nat (sv_recvSeq (s_srv y))) (g_cout y)"
    by (simp_all add: sys_inv_def in_ok_def srv_ok_def)
  then show "\<exists>rest. g_cout y = g_sgot y @ rest" and "\<exists>rest. g_sout y = g_cgot y @ rest"
    by (metis append.assoc append_take_drop_id)+
qed

lemma chan_ok_empty:
  assumes "chan_ok L base till [] []" and "list_all frame_ok L"
  shows "base = till"
proof (rule ccontr)
  assume "base \<noteq> till"
  with assms(1) have lt: "base < till" "till \<le> length L" by (auto simp: chan_ok_def)
  then have "frame_bytes (L ! base) = []" using assms(1) by (simp add: chan_ok_def part_Cons)
  moreover have "frame_ok (L ! base)" using assms(2) lt by (simp add: list_all_length)
  ultimately show False using length_frame_bytes [of "L ! base"] by simp
qed

text \<open>
  C4. No packet is left behind: when both ends are up and idle in a direction (everything written,
  nothing in flight, nothing waiting to be read) that direction has delivered everything that
  was ever queued, however many links were lost before.
\<close>

theorem nothing_lost_when_idle:
  assumes sb: "secretbox_laws sb" and "reachable sb key y" and ph: "s_cph y = CUp" "s_sph y = SUp f"
  shows "(s_wbuf y = None \<and> cn_flushed (s_cli y) = ring_next (cn_ring (s_cli y)) \<and> s_cw y = []
      \<and> sv_queue (s_srv y) = [] \<longrightarrow> g_sgot y = g_cout y)
    \<and> (s_sbuf y = None \<and> f = int (length (sv_sent (s_srv y))) \<and> s_sw y = [] \<and> rd_catchup (s_rd y) = []
      \<and> cn_inbox (s_cli y) = [] \<and> cn_pending (s_cli y) = [] \<longrightarrow> g_cgot y = g_sout y)"
proof -
  let ?co = "stream0 key ClientToServer" and ?so = "stream0 key ServerToClient"
  let ?L = "sealed_log sb ?co (g_cout y)" and ?S = "sealed_log sb ?so (g_sout y)"
  have inv: "sys_inv sb ?co ?so y" using reachable_inv [OF assms(1,2)] .
  have Lok: "list_all frame_ok ?L" "list_all frame_ok ?S"
    using inv sealed_log_fits [OF sb] by (auto simp: sys_inv_def out_ok_def srv_ok_def)
  have out: "out_ok sb ?co (g_cout y) (s_cli y)" using inv by (simp add: sys_inv_def)
  have "g_sgot y = g_cout y" if idle: "s_wbuf y = None" "cn_flushed (s_cli y) = ring_next (cn_ring (s_cli y))"
    "s_cw y = []" "sv_queue (s_srv y) = []"
  proof -
    have "chan_ok ?L (g_cbase y) (length (g_cout y)) [] []"
      using inv ph idle out_ok_D(5) [OF out] by (simp add: sys_inv_def send_c_def)
    from chan_ok_empty [OF this Lok(1)] inv ph idle show ?thesis
      by (simp add: sys_inv_def recv_s_def srv_ok_def)
  qed
  moreover have "g_cgot y = g_sout y" if idle: "s_sbuf y = None" "f = int (length (sv_sent (s_srv y)))"
    "s_sw y = []" "rd_catchup (s_rd y) = []" "cn_inbox (s_cli y) = []" "cn_pending (s_cli y) = []"
  proof -
    have "chan_ok ?S (g_sbase y) (length (g_sout y)) [] []"
      using inv ph idle by (auto simp: sys_inv_def send_s_def srv_ok_def)
    from chan_ok_empty [OF this Lok(2)] have base: "g_sbase y = length (g_sout y)" .
    have "part ?S (nat (cn_recvSeq (s_cli y))) (g_sbase y) = []"
      using inv ph idle by (simp add: sys_inv_def recv_c_def)
    with base length_part [of "length (g_sout y)" ?S "nat (cn_recvSeq (s_cli y))"]
    have "length (g_sout y) \<le> nat (cn_recvSeq (s_cli y))" by simp
    with inv idle show ?thesis by (simp add: sys_inv_def in_ok_def)
  qed
  ultimately show ?thesis by blast
qed

theorem nothing_lost_when_idle_witness:
  "\<exists>y. reachable demo_box demo_key y \<and> s_cph y = CUp \<and> s_wbuf y = None \<and> s_cw y = [] \<and> g_sgot y = g_cout y"
proof -
  obtain y where y: "sys_start demo_dialer [] [] demo_key = Some y" using demo_start by blast
  then have r: "reachable demo_box demo_key y" by (auto simp: reachable_def session_start_def)
  have st: "s_cph y = CUp" "s_sph y = SUp 0" "s_wbuf y = None" "s_cw y = []" "sv_queue (s_srv y) = []"
    "cn_flushed (s_cli y) = ring_next (cn_ring (s_cli y))"
    using y by (auto simp: sys_start_def newConn_def NewServer_def ring_next_def Let_def split: if_splits option.splits)
  from nothing_lost_when_idle [OF demo_box_laws r st(1,2)] r st show ?thesis by blast
qed



text \<open>
  Memory: the replay ring holds at most three times the replay limit plus two packets (one that took
  the backlog over, one probe), at most the limit of written packets outside a hold, and the inbox
  at most 64 packets.
\<close>

lemma reachable_memory:
  assumes "secretbox_laws sb" and "reachable sb key y"
  shows "rg_bytes (cn_ring (s_cli y)) \<le> 3 * rg_limit (cn_ring (s_cli y)) + 2 * int MaxFrameSize"
    and "\<not> rg_held (cn_ring (s_cli y)) \<Longrightarrow>
        rg_bytes (cn_ring (s_cli y)) - cn_unsent (s_cli y) \<le> rg_limit (cn_ring (s_cli y))"
    and "length (cn_inbox (s_cli y)) \<le> inboxSize"
proof -
  have c: "conn_inv (s_cli y)" using reachable_inv [OF assms] by (simp add: sys_inv_def out_ok_def)
  then show "length (cn_inbox (s_cli y)) \<le> inboxSize" by (simp add: conn_inv_def conn_wf_def)
  from ring_bytes_bound [OF c] c
  show "rg_bytes (cn_ring (s_cli y)) \<le> 3 * rg_limit (cn_ring (s_cli y)) + 2 * int MaxFrameSize"
    and "\<not> rg_held (cn_ring (s_cli y)) \<Longrightarrow>
      rg_bytes (cn_ring (s_cli y)) - cn_unsent (s_cli y) \<le> rg_limit (cn_ring (s_cli y))"
    by (auto simp: conn_inv_def window_ok_def conn_wf_def)
qed

lemma resume_window:
  assumes out: "out_ok sb co gc c" and pos: "0 \<le> pos" "pos \<le> int (length gc)" "pos < 2 ^ 31"
    and bytes: "bytes_in (sealed_log sb co gc) (nat pos) (nat (cn_flushed c)) \<le> rg_limit (cn_ring c)"
  shows "recover_window c (SequenceHeader_SetSequenceNumber (int32 pos) h) =
    Inr (int (length gc), drop (nat pos) (sealed_log sb co gc))"
proof -
  let ?L = "sealed_log sb co gc"
  have logs: "ring.logs (cn_ring c) ?L" and just: "trim_justified c ?L" using out by (simp_all add: out_ok_def)
  note d = out_ok_D [OF out]
  have i32: "int32 pos = pos" using pos by (simp add: int32_id)
  have "\<not> pos < rg_first (cn_ring c)"
  proof
    assume "pos < rg_first (cn_ring c)"
    with just pos(1) have "rg_limit (cn_ring c) < bytes_in ?L (nat pos) (nat (cn_flushed c))"
      by (simp add: trim_justified_def)
    with bytes show False by simp
  qed
  then have s: "ring_since (cn_ring c) pos (ring_next (cn_ring c)) =
      Some (ring_appendRange (cn_ring c) [] pos (ring_next (cn_ring c)))"
    using pos(2) d(5) by (simp add: ring_since_def)
  from ring.since_logs [OF d(2) logs s] d(5) have "ring_appendRange (cn_ring c) [] pos (ring_next (cn_ring c)) = drop (nat pos) ?L"
    by simp
  with s d(5) i32 show ?thesis by (simp add: recover_window_def Let_def)
qed



text \<open>The steps of one undisturbed exchange, up to the client's commit.\<close>

lemma exchange_run:
  assumes inv: "sys_inv sb co so y"
    and down: "s_cph y = CDown" "s_sph y = SDown" "cn_cause (s_cli y) = None" "sv_registered (s_srv y)"
    and small: "sv_recvSeq (s_srv y) < 2 ^ 31" "cn_recvSeq (s_cli y) \<le> math_MaxInt32"
    and bytes: "bytes_in (sealed_log sb co (g_cout y)) (nat (sv_recvSeq (s_srv y))) (nat (cn_flushed (s_cli y)))
      \<le> rg_limit (cn_ring (s_cli y))"
  shows "\<exists>y' fl bc. (sys_step sb)\<^sup>*\<^sup>* y y' \<and> s_cph y' = CUp \<and> s_sph y' = SSnap fl \<and> s_ccb y' = Some bc
    \<and> g_cout y' = g_cout y \<and> g_cbase y' = length (g_cout y)"
proof -
  let ?c = "s_cli y" and ?s = "s_srv y" and ?n = "length (g_cout y)"
  let ?ours = "drop (nat (sv_recvSeq ?s)) (sealed_log sb co (g_cout y))"
  define hc where "hc = SequenceHeader_SetSequenceNumber (int32 (cn_recvSeq ?c)) new_SequenceHeader"
  define hs where "hs = SequenceHeader_SetSequenceNumber (int32 (sv_recvSeq ?s)) new_SequenceHeader"
  define bc where "bc = CatchupBuffer_SetBuffer ?ours new_CatchupBuffer"
  have win: "recover_window ?c hs = Inr (int ?n, ?ours)"
    unfolding hs_def using inv small(1) bytes by (intro resume_window) (auto simp: sys_inv_def srv_ok_def)
  have rng: "0 \<le> cn_recvSeq ?c" "cn_recvSeq ?c \<le> int (length (sv_sent ?s))"
    using inv by (auto simp: sys_inv_def in_ok_def srv_ok_def)
  then have "int32 (cn_recvSeq ?c) = cn_recvSeq ?c"
    using small(2) by (intro int32_id) (auto simp: math_MaxInt32_def)
  with rng obtain cat fl where sw: "server_window ?s (SequenceHeader_GetSequenceNumber hc) = Inr (cat, fl)"
    by (simp add: hc_def server_window_def)
  define bs where "bs = CatchupBuffer_SetBuffer cat new_CatchupBuffer"
  define y1 where "y1 = y\<lparr>s_cph := CConn, s_sph := SConn, s_cw := [], s_sw := [],
       s_cseq := None, s_sseq := None, s_ccb := None, s_scb := None\<rparr>"
  define y3 where "y3 = y1\<lparr>s_cph := CSeq, s_cseq := Some hc, s_sph := SSeq, s_sseq := Some hs\<rparr>"
  define y5 where "y5 = y3\<lparr>s_cph := CSnap hs (int ?n), s_cw := [], g_cbase := nat (int ?n), s_ccb := Some bc,
       s_sph := SSnap fl, s_sw := [], g_sbase := nat fl, s_scb := Some bs\<rparr>"
  have "sys_step sb y y1" unfolding y1_def using down by (intro sys_step.connect)
  moreover have "sys_step sb y1 (y1\<lparr>s_cph := CSeq, s_cseq := Some hc\<rparr>)"
    using sys_step.cli_seq [of y1 sb] small(2) by (simp add: y1_def hc_def)
  moreover have "sys_step sb (y1\<lparr>s_cph := CSeq, s_cseq := Some hc\<rparr>) y3"
    using sys_step.server [OF srv_step.srv_seq [of "y1\<lparr>s_cph := CSeq, s_cseq := Some hc\<rparr>" sb]] by (simp add: y1_def y3_def hs_def)
  moreover have "sys_step sb y3
      (y3\<lparr>s_cph := CSnap hs (int ?n), s_cw := [], g_cbase := nat (int ?n), s_ccb := Some bc\<rparr>)"
    using sys_step.cli_snap [of y3 hs "int ?n" ?ours sb] win by (simp add: y1_def y3_def bc_def)
  moreover have "sys_step sb
      (y3\<lparr>s_cph := CSnap hs (int ?n), s_cw := [], g_cbase := nat (int ?n), s_ccb := Some bc\<rparr>) y5"
    using sys_step.server [OF srv_step.srv_snap [of "y3\<lparr>s_cph := CSnap hs (int ?n), s_cw := [], g_cbase := nat (int ?n),
        s_ccb := Some bc\<rparr>" hc cat fl sb]] sw by (simp add: y1_def y3_def y5_def bs_def)
  moreover have "sys_step sb y5 (y5\<lparr>s_cli := recover_commit ?c (int ?n) hs, s_cph := CUp, s_wbuf := None,
       s_rd := newLinkReader (CatchupBuffer_GetBuffer bs) \<lparr>avail = s_sw y5, rend = EOF\<rparr>\<rparr>)" (is "sys_step sb y5 ?y6")
    using sys_step.cli_commit [of y5 hs "int ?n" bs sb] by (simp add: y1_def y3_def y5_def)
  ultimately have "(sys_step sb)\<^sup>*\<^sup>* y ?y6" by (meson r_into_rtranclp rtranclp_trans)
  moreover have "s_cph ?y6 = CUp" "s_sph ?y6 = SSnap fl" "s_ccb ?y6 = Some bc" "g_cout ?y6 = g_cout y"
    "g_cbase ?y6 = ?n" by (simp_all add: y1_def y3_def y5_def)
  ultimately show ?thesis by blast
qed



end
