(* ===== verification/ET_Link.thy ===== *)
theory ET_Link
  imports ET_System
begin

text \<open>
  \<^verbatim>\<open>runLink\<close> of \<^verbatim>\<open>internal/etcp/link.go\<close>: the three goroutines of one TCP connection (reader,
  writer, watcher) side by side, the link's context with its first cause, the
  \<^verbatim>\<open>context.AfterFunc\<close> that closes the socket, and the join. The state holds where each goroutine
  stands between two steps; a step is what one of them does up to the next point where it can be
  delayed (a \<^verbatim>\<open>select\<close>, a socket call, the end of a critical section), so every interleaving of
  the three with each other and with the callers of the \<^verbatim>\<open>Conn\<close> is a run.

  The steps are built from the functions of \<open>ET_Conn\<close>; a pass of the reader is cut in two, as in
  \<open>ET_Reader\<close>.
\<close>

section \<open>State\<close>

text \<open>
  Where each goroutine stands. \<open>RdHand\<close>: waiting in \<^verbatim>\<open>handOver\<close> with a packet, which is the head of
  \<^verbatim>\<open>pending\<close> or was just opened. \<open>WrSend\<close>: the framed batch with the position it starts at, its
  entries and bytes, the probe's offset, and how much of it was written.
\<close>

datatype link_reader_phase = RdLoop link_reader | RdHand link_reader packet bool | RdDone

datatype link_writer_phase = WrLoop | WrSend bytes int nat nat int nat | WrDone

text \<open>
  \<open>ln_ctx\<close> is the cause of the link's context, \<open>ln_watch\<close> the watcher's \<^verbatim>\<open>probed\<close> while it runs.
  \<open>ln_wire\<close> is what the socket took, \<open>ln_queued\<close> every packet ever queued on the \<^verbatim>\<open>Conn\<close>, and
  \<open>ln_got\<close> the packets \<^verbatim>\<open>ReadPacket\<close> returned since the link started.
\<close>

record run_link =
  ln_conn :: conn
  ln_link :: link
  ln_ctx :: "go_error option"
  ln_closed :: bool
  ln_reader :: link_reader_phase
  ln_writer :: link_writer_phase
  ln_watch :: "bool option"
  ln_wire :: bytes
  ln_queued :: "packet list"
  ln_got :: "packet list"

definition runLink_start :: "conn \<Rightarrow> bytes list \<Rightarrow> reader \<Rightarrow> packet list \<Rightarrow> run_link" where
  "runLink_start c catchup r queued =
     \<lparr>ln_conn = c, ln_link = newLink, ln_ctx = None, ln_closed = False,
      ln_reader = RdLoop (newLinkReader catchup r), ln_writer = WrLoop, ln_watch = Some False,
      ln_wire = [], ln_queued = queued, ln_got = []\<rparr>"

text \<open>The link's \<^verbatim>\<open>cancel\<close>: the first cause is kept.\<close>

definition link_cancel :: "go_error \<Rightarrow> run_link \<Rightarrow> run_link" where
  "link_cancel e s = (case ln_ctx s of None \<Rightarrow> s\<lparr>ln_ctx := Some e\<rparr> | Some _ \<Rightarrow> s)"

text \<open>
  Closing the socket: a read gets what had arrived before, cut anywhere, and then \<^verbatim>\<open>net.ErrClosed\<close>.
\<close>

definition cut_stream :: "nat \<Rightarrow> link_reader \<Rightarrow> link_reader" where
  "cut_stream j rd =
     rd\<lparr>rd_stream := \<lparr>avail = take j (avail (rd_stream rd)), rend = NetErrClosed\<rparr>\<rparr>"

definition close_reads :: "nat \<Rightarrow> link_reader_phase \<Rightarrow> link_reader_phase" where
  "close_reads j ph =
     (case ph of
        RdLoop rd \<Rightarrow> RdLoop (cut_stream j rd)
      | RdHand rd p old \<Rightarrow> RdHand (cut_stream j rd) p old
      | RdDone \<Rightarrow> RdDone)"

definition runLink_joined :: "run_link \<Rightarrow> bool" where
  "runLink_joined s \<longleftrightarrow> ln_reader s = RdDone \<and> ln_writer s = WrDone \<and> ln_watch s = None"

text \<open>After the join: the socket is closed and the cause is returned.\<close>

definition runLink_return :: "run_link \<Rightarrow> run_link \<times> go_error option" where
  "runLink_return s = (s\<lparr>ln_closed := True\<rparr>, ln_ctx s)"

section \<open>Steps\<close>

text \<open>The next piece of the batch that the writer gives to the socket.\<close>

definition next_piece :: "bytes \<Rightarrow> nat \<Rightarrow> bytes" where
  "next_piece buf written = go_slice buf written (min (length buf) (written + progressChunk))"

text \<open>
  What the goroutines do. A closed socket completes no write; any write may fail, after taking
  part of its piece, and reports a count with or without an error.
\<close>

inductive link_step :: "secretbox \<Rightarrow> run_link \<Rightarrow> run_link \<Rightarrow> bool" for sb where
  parent_done:
    "ln_ctx s = None \<Longrightarrow> cn_cause (ln_conn s) = Some e \<Longrightarrow> link_step sb s (s\<lparr>ln_ctx := Some e\<rparr>)"
| after_func:
    "ln_ctx s = Some e \<Longrightarrow> \<not> ln_closed s \<Longrightarrow>
     link_step sb s (s\<lparr>ln_closed := True, ln_reader := close_reads j (ln_reader s)\<rparr>)"
| rd_begin:
    "ln_reader s = RdLoop rd \<Longrightarrow>
     reader_begin sb (ln_conn s) (ln_link s) rd = (c', l', rd', Inr (p, old)) \<Longrightarrow>
     link_step sb s (s\<lparr>ln_conn := c', ln_link := handOver_enter l', ln_reader := RdHand rd' p old\<rparr>)"
| rd_fail:
    "ln_reader s = RdLoop rd \<Longrightarrow>
     reader_begin sb (ln_conn s) (ln_link s) rd = (c', l', rd', Inl e) \<Longrightarrow>
     link_step sb s (link_cancel e (s\<lparr>ln_conn := c', ln_link := l', ln_reader := RdDone\<rparr>))"
| rd_handed:
    "ln_reader s = RdHand rd p old \<Longrightarrow>
     reader_finish (ln_conn s) (ln_link s) p old None = Some (c', l', None) \<Longrightarrow>
     link_step sb s (s\<lparr>ln_conn := c', ln_link := l', ln_reader := RdLoop rd\<rparr>)"
| rd_left:
    "ln_reader s = RdHand rd p old \<Longrightarrow> ln_ctx s = Some e \<Longrightarrow>
     reader_finish (ln_conn s) (ln_link s) p old (Some e) = Some (c', l', Some e) \<Longrightarrow>
     link_step sb s (link_cancel e (s\<lparr>ln_conn := c', ln_link := l', ln_reader := RdDone\<rparr>))"
| wr_frame:
    "ln_writer s = WrLoop \<Longrightarrow> writeLoop_take (ln_conn s) \<noteq> [] \<Longrightarrow>
     frame_batch (cn_flushed (ln_conn s)) (cn_lastProbe (ln_conn s)) (writeLoop_take (ln_conn s)) [] 0 0 (- 1)
       = Inr (buf, sent, n, probeAt) \<Longrightarrow>
     link_step sb s (s\<lparr>ln_writer := WrSend buf (cn_flushed (ln_conn s)) sent n probeAt 0\<rparr>)"
| wr_corrupt:
    "ln_writer s = WrLoop \<Longrightarrow> writeLoop_take (ln_conn s) \<noteq> [] \<Longrightarrow>
     frame_batch (cn_flushed (ln_conn s)) (cn_lastProbe (ln_conn s)) (writeLoop_take (ln_conn s)) [] 0 0 (- 1)
       = Inl e \<Longrightarrow>
     link_step sb s (link_cancel e (s\<lparr>ln_conn := fst (conn_fail (ln_conn s) e), ln_writer := WrDone\<rparr>))"
| wr_wake:
    "ln_writer s = WrLoop \<Longrightarrow> writeLoop_take (ln_conn s) = [] \<Longrightarrow> cn_wake (ln_conn s) \<Longrightarrow>
     link_step sb s (s\<lparr>ln_conn := (ln_conn s)\<lparr>cn_wake := False\<rparr>\<rparr>)"
| wr_ctx:
    "ln_writer s = WrLoop \<Longrightarrow> writeLoop_take (ln_conn s) = [] \<Longrightarrow> ln_ctx s = Some e \<Longrightarrow>
     link_step sb s (link_cancel e (s\<lparr>ln_writer := WrDone\<rparr>))"
| wr_piece:
    "ln_writer s = WrSend buf base sent n probeAt written \<Longrightarrow> written < length buf \<Longrightarrow> \<not> ln_closed s \<Longrightarrow>
     written' = written + length (next_piece buf written) \<Longrightarrow>
     link_step sb s (s\<lparr>ln_wire := ln_wire s @ next_piece buf written,
       ln_writer := WrSend buf base sent n probeAt written',
       ln_link := (if probeBehind (cn_lastProbe (ln_conn s)) (base + int sent) probeAt written'
                   then (ln_link s)\<lparr>lk_alive := True\<rparr> else ln_link s)\<rparr>)"
| wr_fail:
    "ln_writer s = WrSend buf base sent n probeAt written \<Longrightarrow> written < length buf \<Longrightarrow>
     m \<le> length (next_piece buf written) \<Longrightarrow> oe \<noteq> None \<or> m \<noteq> length (next_piece buf written) \<Longrightarrow>
     link_step sb s (link_cancel (Wrap ''etcp: write'' [case oe of Some e \<Rightarrow> e | None \<Rightarrow> ErrShortWrite])
       (s\<lparr>ln_wire := ln_wire s @ take m (next_piece buf written), ln_writer := WrDone\<rparr>))"
| wr_commit:
    "ln_writer s = WrSend buf base sent n probeAt written \<Longrightarrow> \<not> written < length buf \<Longrightarrow>
     link_step sb s (s\<lparr>ln_conn := writeLoop_commit (ln_conn s) sent n, ln_writer := WrLoop\<rparr>)"
| watch_on:
    "ln_watch s = Some probed \<Longrightarrow> ev = WatchAlive \<and> lk_alive (ln_link s) \<or> ev = WatchTimer \<Longrightarrow>
     watch_pass sb (ln_conn s) (ln_link s) probed ev = (c', l', Inr probed') \<Longrightarrow>
     link_step sb s (s\<lparr>ln_conn := c', ln_link := l', ln_watch := Some probed',
       ln_queued := ln_queued s @ (if ring_next (cn_ring c') = ring_next (cn_ring (ln_conn s))
                                   then [] else [cn_probe (ln_conn s)])\<rparr>)"
| watch_dead:
    "ln_watch s = Some probed \<Longrightarrow>
     ev = WatchTimer \<or> (\<exists>e. ln_ctx s = Some e \<and> ev = WatchCtxDone e) \<Longrightarrow>
     watch_pass sb (ln_conn s) (ln_link s) probed ev = (c', l', Inl e) \<Longrightarrow>
     link_step sb s (link_cancel e (s\<lparr>ln_conn := c', ln_link := l', ln_watch := None\<rparr>))"

text \<open>What the callers of the \<^verbatim>\<open>Conn\<close> do meanwhile: write, read, take a space token, close.\<close>

inductive caller_step :: "secretbox \<Rightarrow> run_link \<Rightarrow> run_link \<Rightarrow> bool" for sb where
  call_write:
    "WritePacket_enter ctx p = None \<Longrightarrow> WritePacket_pass sb (ln_conn s) p = (c', Queued) \<Longrightarrow>
     caller_step sb s (s\<lparr>ln_conn := c', ln_queued := ln_queued s @ [p]\<rparr>)"
| call_space:
    "WritePacket_wait (ln_conn s) GotSpace = (c', None) \<Longrightarrow>
     caller_step sb s (s\<lparr>ln_conn := c'\<rparr>)"
| call_read:
    "ReadPacket ctx ch (ln_conn s) = Some (c', Inr p) \<Longrightarrow>
     caller_step sb s (s\<lparr>ln_conn := c', ln_got := ln_got s @ [p]\<rparr>)"
| call_close:
    "caller_step sb s (s\<lparr>ln_conn := conn_cancel (ln_conn s) errClosed\<rparr>)"

definition link_move :: "secretbox \<Rightarrow> run_link \<Rightarrow> run_link \<Rightarrow> bool" where
  "link_move sb s s' \<longleftrightarrow> link_step sb s s' \<or> caller_step sb s s'"

text \<open>The states a link comes to on the \<^verbatim>\<open>Conn\<close> of a session, whatever the peer sends on it.\<close>

definition link_reaches :: "secretbox \<Rightarrow> sys \<Rightarrow> run_link \<Rightarrow> bool" where
  "link_reaches sb y s \<longleftrightarrow> \<not> cn_readerDone (s_cli y) \<and>
     (\<exists>catchup r. (link_move sb)\<^sup>*\<^sup>* (runLink_start (s_cli y) catchup r (g_cout y)) s)"

section \<open>Invariant\<close>

text \<open>
  The writer: what it gave to the socket is the frames of the packets from the link's first
  position on, up to where it stands. The reader: which packet it waits with.
\<close>

definition writer_ok :: "bytes list \<Rightarrow> nat \<Rightarrow> int \<Rightarrow> link_writer_phase \<Rightarrow> bytes \<Rightarrow> bool" where
  "writer_ok L first fl ph w =
     (case ph of
        WrLoop \<Rightarrow> chan_ok L first (nat fl) w []
      | WrSend buf base sent n probeAt written \<Rightarrow> base = fl
          \<and> chan_ok L first (nat fl + sent) w (drop written buf)
          \<and> int n = bytes_in L (nat fl) (nat fl + sent)
      | WrDone \<Rightarrow> chan_prefix L first w)"

definition in_hand :: "link_reader_phase \<Rightarrow> packet list" where
  "in_hand ph = (case ph of RdHand rd p old \<Rightarrow> if old then [] else [p] | _ \<Rightarrow> [])"

definition hand_ok :: "link_reader_phase \<Rightarrow> packet list \<Rightarrow> bool" where
  "hand_ok ph pending =
     (case ph of RdHand rd p old \<Rightarrow> if old then pending \<noteq> [] \<and> hd pending = p else pending = [] | _ \<Rightarrow> True)"

text \<open>Everything received: read by the caller, queued for it, kept for later, or in the reader's hand.\<close>

definition received :: "run_link \<Rightarrow> packet list" where
  "received s = ln_got s @ cn_inbox (ln_conn s) @ cn_pending (ln_conn s) @ in_hand (ln_reader s)"

text \<open>Nothing received is lost or reordered, and each packet is counted once.\<close>

definition counted :: "packet list \<Rightarrow> int \<Rightarrow> packet list \<Rightarrow> int \<Rightarrow> bool" where
  "counted got0 seq0 got seq \<longleftrightarrow> (\<exists>ps. got = got0 @ ps \<and> seq = seq0 + int (length ps))"

text \<open>What ended the \<^verbatim>\<open>Conn\<close>, if anything did: its caller, or a packet that is not the peer's.\<close>

definition cause_ok :: "go_error option \<Rightarrow> bool" where
  "cause_ok oe \<longleftrightarrow> (\<forall>e. oe = Some e \<longrightarrow> e = errClosed \<or> errors_Is e ErrIntegrity)"

definition link_inv :: "secretbox \<Rightarrow> stream \<Rightarrow> nat \<Rightarrow> packet list \<Rightarrow> int \<Rightarrow> run_link \<Rightarrow> bool" where
  "link_inv sb co first got0 seq0 s \<longleftrightarrow>
     out_ok sb co (ln_queued s) (ln_conn s)
     \<and> writer_ok (sealed_log sb co (ln_queued s)) first (cn_flushed (ln_conn s)) (ln_writer s) (ln_wire s)
     \<and> \<not> cn_readerDone (ln_conn s) \<and> cause_ok (cn_cause (ln_conn s))
     \<and> hand_ok (ln_reader s) (cn_pending (ln_conn s))
     \<and> counted got0 seq0 (received s) (cn_recvSeq (ln_conn s))
     \<and> (lk_delivering (ln_link s) \<longleftrightarrow> (\<exists>rd p old. ln_reader s = RdHand rd p old))
     \<and> (ln_closed s \<or> ln_reader s = RdDone \<or> ln_writer s = WrDone \<or> ln_watch s = None
        \<longrightarrow> ln_ctx s \<noteq> None)"

section \<open>What the steps keep\<close>

text \<open>The fields of a \<^verbatim>\<open>Conn\<close> that belong to neither its outbound side nor its reader.\<close>

lemma cause_ok_cancel:
  "cause_ok (cn_cause c) \<Longrightarrow> e = errClosed \<or> errors_Is e ErrIntegrity \<Longrightarrow> cause_ok (cn_cause (conn_cancel c e))"
  by (auto simp: cause_ok_def conn_cancel_def split: option.splits)

lemma cancel_fields [simp]:
  "cn_readerDone (conn_cancel c e) = cn_readerDone c" "cn_inbox (conn_cancel c e) = cn_inbox c"
  "cn_pending (conn_cancel c e) = cn_pending c" "cn_recvSeq (conn_cancel c e) = cn_recvSeq c"
  "cn_flushed (conn_cancel c e) = cn_flushed c" "cn_ring (conn_cancel c e) = cn_ring c"
  "cn_unsent (conn_cancel c e) = cn_unsent c" "cn_lastProbe (conn_cancel c e) = cn_lastProbe c"
  "cn_probe (conn_cancel c e) = cn_probe c" "cn_out (conn_cancel c e) = cn_out c"
  by (simp_all add: conn_cancel_def split: option.splits)

lemma out_ok_same:
  assumes "out_ok sb co gc c" and "cn_ring c' = cn_ring c" and "cn_flushed c' = cn_flushed c"
    and "cn_unsent c' = cn_unsent c" and "cn_lastProbe c' = cn_lastProbe c"
    and "cn_inbox c' = cn_inbox c" and "cn_probe c' = cn_probe c" and "cn_out c' = cn_out c"
  shows "out_ok sb co gc c'"
  using out_ok_cong [OF assms(1-5)] out_ok_D(6) [OF assms(1)] assms(6-8) by simp

text \<open>
  Opening a packet leaves everything but the inbound stream alone; what it counts it returns, and
  when it fails, it ends the \<^verbatim>\<open>Conn\<close> with an integrity error.
\<close>

lemma deliver_open_effect:
  assumes "deliver_open sb c b = (c', res)"
  shows "cn_ring c' = cn_ring c \<and> cn_flushed c' = cn_flushed c \<and> cn_unsent c' = cn_unsent c
      \<and> cn_lastProbe c' = cn_lastProbe c \<and> cn_inbox c' = cn_inbox c \<and> cn_probe c' = cn_probe c
      \<and> cn_out c' = cn_out c \<and> cn_pending c' = cn_pending c \<and> cn_readerDone c' = cn_readerDone c"
    and "cn_recvSeq c' = cn_recvSeq c + (case res of Inl _ \<Rightarrow> 0 | Inr _ \<Rightarrow> 1)"
    and "cause_ok (cn_cause c) \<Longrightarrow> cause_ok (cn_cause c')"
  using assms
  by (auto simp: deliver_open_def conn_fail_def intro!: cause_ok_cancel
      split: if_splits sum.splits prod.splits)

lemma releaseHold_fields [simp]:
  "cn_flushed (releaseHold c) = cn_flushed c" "cn_inbox (releaseHold c) = cn_inbox c"
  "cn_pending (releaseHold c) = cn_pending c" "cn_readerDone (releaseHold c) = cn_readerDone c"
  "cn_recvSeq (releaseHold c) = cn_recvSeq c" "cn_cause (releaseHold c) = cn_cause c"
  by (simp_all add: releaseHold_def Let_def)

lemma reader_begin_effect:
  assumes "reader_begin sb c l rd = (c', l', rd', res)"
  shows "out_ok sb co gc c \<Longrightarrow> out_ok sb co gc c'"
    and "cn_flushed c' = cn_flushed c" and "cn_inbox c' = cn_inbox c" and "cn_pending c' = cn_pending c"
    and "cn_readerDone c' = cn_readerDone c" and "lk_delivering l' = lk_delivering l"
    and "cause_ok (cn_cause c) \<Longrightarrow> cause_ok (cn_cause c')"
    and "case res of Inl _ \<Rightarrow> cn_recvSeq c' = cn_recvSeq c
         | Inr (p, old) \<Rightarrow> if old then cn_recvSeq c' = cn_recvSeq c \<and> cn_pending c \<noteq> [] \<and> hd (cn_pending c) = p
             else cn_recvSeq c' = cn_recvSeq c + 1 \<and> cn_pending c = []"
proof -
  have "(out_ok sb co gc c \<longrightarrow> out_ok sb co gc c') \<and> cn_flushed c' = cn_flushed c \<and> cn_inbox c' = cn_inbox c
    \<and> cn_pending c' = cn_pending c \<and> cn_readerDone c' = cn_readerDone c \<and> lk_delivering l' = lk_delivering l
    \<and> (cause_ok (cn_cause c) \<longrightarrow> cause_ok (cn_cause c'))
    \<and> (case res of Inl _ \<Rightarrow> cn_recvSeq c' = cn_recvSeq c
       | Inr (p, old) \<Rightarrow> if old then cn_recvSeq c' = cn_recvSeq c \<and> cn_pending c \<noteq> [] \<and> hd (cn_pending c) = p
           else cn_recvSeq c' = cn_recvSeq c + 1 \<and> cn_pending c = [])"
  proof (cases "cn_pending c")
    case (Cons p ps)
    with assms show ?thesis by (auto simp: reader_begin_def)
  next
    case pend: Nil
    have opened: "(out_ok sb co gc c0 \<longrightarrow> out_ok sb co gc c1) \<and> cn_flushed c1 = cn_flushed c0
        \<and> cn_inbox c1 = cn_inbox c0 \<and> cn_pending c1 = cn_pending c0 \<and> cn_readerDone c1 = cn_readerDone c0
        \<and> (cause_ok (cn_cause c0) \<longrightarrow> cause_ok (cn_cause c1))
        \<and> cn_recvSeq c1 = cn_recvSeq c0 + (case r of Inl _ \<Rightarrow> 0 | Inr _ \<Rightarrow> 1)"
      if "deliver_open sb c0 b = (c1, r)" for c0 b c1 r
      using deliver_open_effect [OF that] out_ok_same [of sb co gc c0 c1] by blast
    show ?thesis
    proof (cases "rd_catchup rd")
      case (Cons b bs)
      obtain c1 r where d: "deliver_open sb c b = (c1, r)" by fastforce
      show ?thesis using assms pend Cons d opened [OF d] by (cases r) (auto simp: reader_begin_def)
    next
      case Nil
      obtain fr r' where rf: "ReadFrame (rd_stream rd) (rd_cap rd) = (fr, r')" by fastforce
      show ?thesis
      proof (cases fr)
        case (Inl e)
        with assms pend Nil rf show ?thesis
          by (auto simp: reader_begin_def conn_fail_def intro: cause_ok_cancel out_ok_same split: if_splits)
      next
        case (Inr fc)
        obtain f cp where fc: "fc = (f, cp)" by fastforce
        define c0 where "c0 = (if rd_released rd then c else releaseHold c)"
        have c0: "out_ok sb co gc c \<longrightarrow> out_ok sb co gc c0" "cn_flushed c0 = cn_flushed c"
          "cn_inbox c0 = cn_inbox c" "cn_pending c0 = cn_pending c" "cn_readerDone c0 = cn_readerDone c"
          "cn_cause c0 = cn_cause c" "cn_recvSeq c0 = cn_recvSeq c"
          by (simp_all add: c0_def out_ok_releaseHold)
        obtain c1 r where d: "deliver_open sb c0 f = (c1, r)" by fastforce
        show ?thesis using assms pend Nil rf Inr fc d opened [OF d] c0
          by (cases r) (auto simp: reader_begin_def Let_def simp flip: c0_def)
      qed
    qed
  qed
  then show "out_ok sb co gc c \<Longrightarrow> out_ok sb co gc c'"
    and "cn_flushed c' = cn_flushed c" and "cn_inbox c' = cn_inbox c" and "cn_pending c' = cn_pending c"
    and "cn_readerDone c' = cn_readerDone c" and "lk_delivering l' = lk_delivering l"
    and "cause_ok (cn_cause c) \<Longrightarrow> cause_ok (cn_cause c')"
    and "case res of Inl _ \<Rightarrow> cn_recvSeq c' = cn_recvSeq c
         | Inr (p, old) \<Rightarrow> if old then cn_recvSeq c' = cn_recvSeq c \<and> cn_pending c \<noteq> [] \<and> hd (cn_pending c) = p
             else cn_recvSeq c' = cn_recvSeq c + 1 \<and> cn_pending c = []"
    by blast+
qed

lemma reader_finish_effect:
  assumes "reader_finish c l p old hand = Some (c', l', oe)"
  shows "out_ok sb co gc c \<Longrightarrow> out_ok sb co gc c'"
    and "cn_flushed c' = cn_flushed c" and "cn_readerDone c' = cn_readerDone c"
    and "\<not> lk_delivering l'" and "cn_cause c' = cn_cause c" and "cn_recvSeq c' = cn_recvSeq c"
    and "cn_inbox c' @ cn_pending c' = (if old \<and> oe = None then cn_inbox c @ p # tl (cn_pending c)
         else if oe = None then cn_inbox c @ p # cn_pending c
         else if old then cn_inbox c @ cn_pending c
         else cn_inbox c @ cn_pending c @ [p])"
proof -
  show "out_ok sb co gc c'" if o: "out_ok sb co gc c"
    by (rule out_ok_cong [OF o])
      (use assms out_ok_D(6) [OF o] in \<open>auto simp: reader_finish_def handOver_def Let_def
        split: option.splits if_splits\<close>)
qed (use assms in \<open>auto simp: reader_finish_def handOver_def handOver_enter_def Let_def
    split: option.splits if_splits\<close>)

section \<open>The invariant holds\<close>

text \<open>A packet more in the log moves nothing that was written.\<close>

lemma writer_ok_log: "writer_ok L first fl ph w \<Longrightarrow> writer_ok (L @ M) first fl ph w"
  by (auto simp: writer_ok_def chan_ok_log chan_prefix_log chan_ok_def bytes_in_log part_append_log
      split: link_writer_phase.splits)

lemma writer_ok_queued:
  "writer_ok (sealed_log sb co ps) first fl ph w \<Longrightarrow> writer_ok (sealed_log sb co (ps @ qs)) first fl ph w"
  using sealed_log_append [of sb co ps qs] writer_ok_log by metis

lemma writer_ok_done: "writer_ok L first fl ph w \<Longrightarrow> writer_ok L first fl WrDone w"
  using chan_ok_prefix by (fastforce simp: writer_ok_def split: link_writer_phase.splits)

text \<open>Ending a goroutine: whatever else it did, the context has a cause from then on.\<close>

lemma link_cancel_fields [simp]:
  "ln_conn (link_cancel e s) = ln_conn s" "ln_link (link_cancel e s) = ln_link s"
  "ln_closed (link_cancel e s) = ln_closed s" "ln_reader (link_cancel e s) = ln_reader s"
  "ln_writer (link_cancel e s) = ln_writer s" "ln_watch (link_cancel e s) = ln_watch s"
  "ln_wire (link_cancel e s) = ln_wire s" "ln_queued (link_cancel e s) = ln_queued s"
  "ln_got (link_cancel e s) = ln_got s" "ln_ctx (link_cancel e s) \<noteq> None"
  "received (link_cancel e s) = received s"
  by (simp_all add: link_cancel_def received_def split: option.splits)

lemma link_cancel_keeps: "ln_ctx s = Some e' \<Longrightarrow> ln_ctx (link_cancel e s) = Some e'"
  by (simp add: link_cancel_def)

text \<open>What a step on the \<^verbatim>\<open>Conn\<close> alone has to keep.\<close>

lemma link_inv_conn:
  assumes inv: "link_inv sb co first got0 seq0 s"
    and "out_ok sb co (ln_queued s @ qs) c'" and "cn_flushed c' = cn_flushed (ln_conn s)"
    and "cn_readerDone c' = cn_readerDone (ln_conn s)" and "cause_ok (cn_cause c')"
    and "cn_pending c' = cn_pending (ln_conn s)" and "cn_recvSeq c' = cn_recvSeq (ln_conn s)"
    and "ln_got s @ cn_inbox (ln_conn s) = got @ cn_inbox c'"
    and "lk_delivering l' = lk_delivering (ln_link s)"
  shows "link_inv sb co first got0 seq0
    (s\<lparr>ln_conn := c', ln_link := l', ln_got := got, ln_queued := ln_queued s @ qs\<rparr>)"
proof -
  have "received (s\<lparr>ln_conn := c', ln_link := l', ln_got := got, ln_queued := ln_queued s @ qs\<rparr>) = received s"
    using assms(6,8) by (simp add: received_def)
  with assms writer_ok_queued show ?thesis by (simp add: link_inv_def)
qed

lemma watch_pass_effect:
  assumes ok: "out_ok sb co gc c" and sb: "secretbox_laws sb" and w: "watch_pass sb c l probed ev = (c', l', res)"
  shows "out_ok sb co (gc @ (if ring_next (cn_ring c') = ring_next (cn_ring c) then [] else [cn_probe c])) c'"
    and "res = Inl e \<Longrightarrow> c' = c"
    and "cn_flushed c' = cn_flushed c" and "cn_readerDone c' = cn_readerDone c" and "cn_cause c' = cn_cause c"
    and "cn_pending c' = cn_pending c" and "cn_recvSeq c' = cn_recvSeq c" and "cn_inbox c' = cn_inbox c"
    and "lk_delivering l' = lk_delivering l"
proof -
  have pr: "out_ok sb co (gc @ (if ring_next (cn_ring (probeOnce sb c)) = ring_next (cn_ring c) then [] else [cn_probe c]))
      (probeOnce sb c)"
  proof (cases "cn_flushed c \<le> cn_lastProbe c")
    case True
    then show ?thesis using ok by (simp add: probeOnce_def)
  next
    case False
    then have "out_ok sb co (gc @ [cn_probe c]) (probeOnce sb c)" using out_ok_probeOnce [OF ok sb] by simp
    moreover from out_ok_D(5) [OF this] out_ok_D(5) [OF ok]
    have "ring_next (cn_ring (probeOnce sb c)) \<noteq> ring_next (cn_ring c)" by simp
    ultimately show ?thesis by simp
  qed
  then show "out_ok sb co (gc @ (if ring_next (cn_ring c') = ring_next (cn_ring c) then [] else [cn_probe c])) c'"
    using w ok by (auto simp: watch_pass_def split: watch_event.splits if_splits)
qed (use w in \<open>auto simp: watch_pass_def probeOnce_def enqueueLocked_eq Let_def
    split: watch_event.splits if_splits\<close>)

lemma next_piece_drop: "written < length buf \<Longrightarrow>
  drop written buf = next_piece buf written @ drop (written + length (next_piece buf written)) buf"
  by (auto simp: next_piece_def go_slice_def progressChunk_def min_def)
    (metis append_take_drop_id drop_drop add.commute)

lemma counted_more: "counted got0 seq0 got seq \<Longrightarrow> counted got0 seq0 (got @ [p]) (seq + 1)"
  by (auto simp: counted_def)

text \<open>A step of the reader.\<close>

lemma link_inv_reader:
  assumes inv: "link_inv sb co first got0 seq0 s"
    and "out_ok sb co (ln_queued s) c'" and "cn_flushed c' = cn_flushed (ln_conn s)"
    and "cn_readerDone c' = cn_readerDone (ln_conn s)" and "cause_ok (cn_cause c')"
    and "hand_ok ph (cn_pending c')"
    and "counted got0 seq0 (ln_got s @ cn_inbox c' @ cn_pending c' @ in_hand ph) (cn_recvSeq c')"
    and "lk_delivering l' \<longleftrightarrow> (\<exists>rd p old. ph = RdHand rd p old)" and "ph \<noteq> RdDone"
  shows "link_inv sb co first got0 seq0 (s\<lparr>ln_conn := c', ln_link := l', ln_reader := ph\<rparr>)"
  using assms by (auto simp: link_inv_def received_def)

lemma link_inv_reader_end:
  assumes inv: "link_inv sb co first got0 seq0 s"
    and "out_ok sb co (ln_queued s) c'" and "cn_flushed c' = cn_flushed (ln_conn s)"
    and "cn_readerDone c' = cn_readerDone (ln_conn s)" and "cause_ok (cn_cause c')"
    and "counted got0 seq0 (ln_got s @ cn_inbox c' @ cn_pending c') (cn_recvSeq c')"
    and "\<not> lk_delivering l'"
  shows "link_inv sb co first got0 seq0 (link_cancel e (s\<lparr>ln_conn := c', ln_link := l', ln_reader := RdDone\<rparr>))"
  using assms by (auto simp: link_inv_def received_def in_hand_def hand_ok_def)

lemma step_rd_begin:
  assumes inv: "link_inv sb co first got0 seq0 s" and "ln_reader s = RdLoop rd"
    and b: "reader_begin sb (ln_conn s) (ln_link s) rd = (c', l', rd', Inr (p, old))"
  shows "link_inv sb co first got0 seq0
    (s\<lparr>ln_conn := c', ln_link := handOver_enter l', ln_reader := RdHand rd' p old\<rparr>)"
proof (rule link_inv_reader [OF inv])
  note eff = reader_begin_effect [OF b] and i = inv [unfolded link_inv_def received_def]
  have cnt: "counted got0 seq0 (ln_got s @ cn_inbox c' @ cn_pending c') (cn_recvSeq (ln_conn s))"
    using i assms(2) eff(3,4) by (simp add: in_hand_def)
  then show "counted got0 seq0 (ln_got s @ cn_inbox c' @ cn_pending c' @ in_hand (RdHand rd' p old)) (cn_recvSeq c')"
    using eff(8) counted_more [OF cnt, of p] by (cases old) (simp_all add: in_hand_def)
  show "hand_ok (RdHand rd' p old) (cn_pending c')"
    using eff(4,8) by (cases old) (simp_all add: hand_ok_def)
qed (use reader_begin_effect [OF b] inv in \<open>auto simp: link_inv_def handOver_enter_def\<close>)

lemma step_rd_fail:
  assumes inv: "link_inv sb co first got0 seq0 s" and "ln_reader s = RdLoop rd"
    and b: "reader_begin sb (ln_conn s) (ln_link s) rd = (c', l', rd', Inl e)"
  shows "link_inv sb co first got0 seq0 (link_cancel e (s\<lparr>ln_conn := c', ln_link := l', ln_reader := RdDone\<rparr>))"
  by (rule link_inv_reader_end [OF inv])
    (use reader_begin_effect [OF b] inv assms(2) in \<open>auto simp: link_inv_def received_def in_hand_def\<close>)

lemma step_rd_handed:
  assumes inv: "link_inv sb co first got0 seq0 s" and "ln_reader s = RdHand rd p old"
    and f: "reader_finish (ln_conn s) (ln_link s) p old None = Some (c', l', None)"
  shows "link_inv sb co first got0 seq0 (s\<lparr>ln_conn := c', ln_link := l', ln_reader := RdLoop rd\<rparr>)"
proof (rule link_inv_reader [OF inv])
  note eff = reader_finish_effect [OF f] and i = inv [unfolded link_inv_def received_def]
  have "ln_got s @ (cn_inbox c' @ cn_pending c') =
      ln_got s @ cn_inbox (ln_conn s) @ cn_pending (ln_conn s) @ in_hand (ln_reader s)"
    using i assms(2) eff(7) by (cases old) (auto simp: in_hand_def hand_ok_def)
  with i eff(6) show "counted got0 seq0 (ln_got s @ cn_inbox c' @ cn_pending c' @ in_hand (RdLoop rd)) (cn_recvSeq c')"
    by (simp add: in_hand_def)
qed (use reader_finish_effect [OF f] inv in \<open>auto simp: link_inv_def hand_ok_def\<close>)

lemma step_rd_left:
  assumes inv: "link_inv sb co first got0 seq0 s" and "ln_reader s = RdHand rd p old"
    and f: "reader_finish (ln_conn s) (ln_link s) p old (Some e) = Some (c', l', Some e)"
  shows "link_inv sb co first got0 seq0 (link_cancel e (s\<lparr>ln_conn := c', ln_link := l', ln_reader := RdDone\<rparr>))"
proof (rule link_inv_reader_end [OF inv])
  note eff = reader_finish_effect [OF f] and i = inv [unfolded link_inv_def received_def]
  have "ln_got s @ (cn_inbox c' @ cn_pending c') =
      ln_got s @ cn_inbox (ln_conn s) @ cn_pending (ln_conn s) @ in_hand (ln_reader s)"
    using i assms(2) eff(7) by (cases old) (auto simp: in_hand_def)
  with i eff(6) show "counted got0 seq0 (ln_got s @ cn_inbox c' @ cn_pending c') (cn_recvSeq c')" by simp
qed (use reader_finish_effect [OF f] inv in \<open>auto simp: link_inv_def\<close>)

text \<open>A step of the writer.\<close>

lemma step_wr_frame:
  assumes inv: "link_inv sb co first got0 seq0 s" and "ln_writer s = WrLoop"
    and fb: "frame_batch (cn_flushed (ln_conn s)) (cn_lastProbe (ln_conn s)) (writeLoop_take (ln_conn s)) [] 0 0 (- 1)
       = res"
  shows "\<exists>buf sent n pa. res = Inr (buf, sent, n, pa)
    \<and> link_inv sb co first got0 seq0 (s\<lparr>ln_writer := WrSend buf (cn_flushed (ln_conn s)) sent n pa 0\<rparr>)"
proof -
  have "out_ok sb co (ln_queued s) (ln_conn s)"
    "chan_ok (sealed_log sb co (ln_queued s)) first (nat (cn_flushed (ln_conn s))) (ln_wire s) []"
    using inv assms(2) by (simp_all add: link_inv_def writer_ok_def)
  from frame_next [OF this, of "cn_lastProbe (ln_conn s)"] fb inv show ?thesis
    by (auto simp: link_inv_def writer_ok_def received_def)
qed

lemma link_inv_write:
  assumes inv: "link_inv sb co first got0 seq0 s"
    and "writer_ok (sealed_log sb co (ln_queued s)) first (cn_flushed (ln_conn s)) ph w"
    and "lk_delivering l' = lk_delivering (ln_link s)"
  shows "ph \<noteq> WrDone \<Longrightarrow> link_inv sb co first got0 seq0 (s\<lparr>ln_wire := w, ln_writer := ph, ln_link := l'\<rparr>)"
    and "link_inv sb co first got0 seq0 (link_cancel e (s\<lparr>ln_wire := w, ln_writer := WrDone\<rparr>))"
  using assms writer_ok_done by (auto simp: link_inv_def received_def)

lemma step_wr_piece:
  assumes inv: "link_inv sb co first got0 seq0 s" and "ln_writer s = WrSend buf base sent n pa written"
    and lt: "written < length buf" and m: "m \<le> length (next_piece buf written)"
  shows "writer_ok (sealed_log sb co (ln_queued s)) first (cn_flushed (ln_conn s))
      (WrSend buf base sent n pa (written + m)) (ln_wire s @ take m (next_piece buf written))"
proof -
  let ?L = "sealed_log sb co (ln_queued s)" and ?f = "nat (cn_flushed (ln_conn s))"
  have w: "chan_ok ?L first (?f + sent) (ln_wire s) (drop written buf)" "base = cn_flushed (ln_conn s)"
    "int n = bytes_in ?L ?f (?f + sent)"
    using inv assms(2) by (simp_all add: link_inv_def writer_ok_def)
  have "take m (next_piece buf written) = take m (drop written buf)"
    using m next_piece_drop [OF lt] by (metis append_eq_conv_conj take_append diff_is_0_eq take0 append_Nil2)
  then have "drop written buf = take m (next_piece buf written) @ drop (written + m) buf"
    by (metis append_take_drop_id drop_drop add.commute)
  with w chan_ok_write show ?thesis by (simp add: writer_ok_def)
qed

lemma step_wr_commit:
  assumes inv: "link_inv sb co first got0 seq0 s" and "ln_writer s = WrSend buf base sent n pa written"
    and "\<not> written < length buf"
  shows "link_inv sb co first got0 seq0 (s\<lparr>ln_conn := writeLoop_commit (ln_conn s) sent n, ln_writer := WrLoop\<rparr>)"
proof -
  let ?c' = "writeLoop_commit (ln_conn s) sent n"
  have same: "cn_pending ?c' = cn_pending (ln_conn s)" "cn_inbox ?c' = cn_inbox (ln_conn s)"
    "cn_readerDone ?c' = cn_readerDone (ln_conn s)" "cn_cause ?c' = cn_cause (ln_conn s)"
    "cn_recvSeq ?c' = cn_recvSeq (ln_conn s)"
    by (simp_all add: writeLoop_commit_def releaseLocked_def Let_def)
  have w: "out_ok sb co (ln_queued s) (ln_conn s)"
    "chan_ok (sealed_log sb co (ln_queued s)) first (nat (cn_flushed (ln_conn s)) + sent) (ln_wire s) []"
    "int n = bytes_in (sealed_log sb co (ln_queued s)) (nat (cn_flushed (ln_conn s))) (nat (cn_flushed (ln_conn s)) + sent)"
    using inv assms(2,3) by (simp_all add: link_inv_def writer_ok_def)
  from commit_next [OF w] inv same show ?thesis
    by (simp add: link_inv_def writer_ok_def received_def)
qed

lemma link_inv_step:
  assumes sb: "secretbox_laws sb" and inv: "link_inv sb co first got0 seq0 s" and step: "link_step sb s s'"
  shows "link_inv sb co first got0 seq0 s'"
  using step
proof cases
  case parent_done
  then show ?thesis using inv by (simp add: link_inv_def received_def)
next
  case (after_func e j)
  have "in_hand (close_reads j ph) = in_hand ph" "hand_ok (close_reads j ph) q = hand_ok ph q"
    "(\<exists>rd p old. close_reads j ph = RdHand rd p old) = (\<exists>rd p old. ph = RdHand rd p old)" for ph q
    by (cases ph; simp add: close_reads_def in_hand_def hand_ok_def)+
  with after_func inv show ?thesis by (simp add: link_inv_def received_def)
next
  case rd_begin then show ?thesis using step_rd_begin [OF inv] by simp
next
  case rd_fail then show ?thesis using step_rd_fail [OF inv] by simp
next
  case rd_handed then show ?thesis using step_rd_handed [OF inv] by simp
next
  case rd_left then show ?thesis using step_rd_left [OF inv] by simp
next
  case wr_frame then show ?thesis using step_wr_frame [OF inv _ refl] by auto
next
  case wr_corrupt then show ?thesis using step_wr_frame [OF inv _ refl] by simp
next
  case wr_wake
  have "out_ok sb co (ln_queued s) ((ln_conn s)\<lparr>cn_wake := False\<rparr>)"
    by (rule out_ok_same [of _ _ _ "ln_conn s"]) (use inv in \<open>simp_all add: link_inv_def\<close>)
  with wr_wake inv show ?thesis by (simp add: link_inv_def received_def)
next
  case (wr_ctx e)
  have "writer_ok (sealed_log sb co (ln_queued s)) first (cn_flushed (ln_conn s)) (ln_writer s) (ln_wire s)"
    using inv by (simp add: link_inv_def)
  from link_inv_write(2) [OF inv this refl, of e] wr_ctx show ?thesis by simp
next
  case (wr_piece buf base sent n pa written written')
  from step_wr_piece [OF inv wr_piece(2,3) order.refl] wr_piece(5)
  have "writer_ok (sealed_log sb co (ln_queued s)) first (cn_flushed (ln_conn s))
      (WrSend buf base sent n pa written') (ln_wire s @ next_piece buf written)" by simp
  from link_inv_write(1) [OF inv this] wr_piece(1) show ?thesis by simp
next
  case (wr_fail buf base sent n pa written m oe)
  from link_inv_write(2) [OF inv step_wr_piece [OF inv wr_fail(2-4)] refl] wr_fail(1)
  show ?thesis by simp
next
  case wr_commit then show ?thesis using step_wr_commit [OF inv] by simp
next
  case (watch_on probed ev c' l' probed')
  have ok: "out_ok sb co (ln_queued s) (ln_conn s)" and c: "cause_ok (cn_cause (ln_conn s))"
    using inv by (simp_all add: link_inv_def)
  note eff = watch_pass_effect [OF ok sb watch_on(4)]
  from link_inv_conn [OF inv eff(1,3,4) _ eff(6,7) _ eff(9), of "ln_got s"] eff(5,8) c
  have "link_inv sb co first got0 seq0 (s\<lparr>ln_conn := c', ln_link := l', ln_got := ln_got s,
      ln_queued := ln_queued s @ (if ring_next (cn_ring c') = ring_next (cn_ring (ln_conn s))
        then [] else [cn_probe (ln_conn s)])\<rparr>)" by simp
  with watch_on(1) show ?thesis by (simp add: link_inv_def received_def)
next
  case (watch_dead probed ev c' l' e)
  have ok: "out_ok sb co (ln_queued s) (ln_conn s)" using inv by (simp add: link_inv_def)
  note eff = watch_pass_effect [OF ok sb watch_dead(4)]
  have "c' = ln_conn s" using eff(2) by blast
  with watch_dead(1) eff(9) inv show ?thesis by (simp add: link_inv_def received_def)
qed

lemma link_inv_caller:
  assumes sb: "secretbox_laws sb" and inv: "link_inv sb co first got0 seq0 s" and step: "caller_step sb s s'"
  shows "link_inv sb co first got0 seq0 s'"
proof -
  have ok: "out_ok sb co (ln_queued s) (ln_conn s)" and c: "cause_ok (cn_cause (ln_conn s))"
    and rd: "\<not> cn_readerDone (ln_conn s)"
    using inv by (simp_all add: link_inv_def)
  from step show ?thesis
  proof cases
    case (call_write ctx p c')
    have "fits p" using call_write(2) by (simp add: WritePacket_enter_def fits_def split: if_splits)
    from out_ok_WritePacket [OF ok sb this call_write(3)]
    have "link_inv sb co first got0 seq0 (s\<lparr>ln_conn := c', ln_link := ln_link s, ln_got := ln_got s,
        ln_queued := ln_queued s @ [p]\<rparr>)"
      by (rule link_inv_conn [OF inv])
        (use call_write(3) c in \<open>auto simp: WritePacket_pass_def enqueueLocked_eq Let_def
          split: option.splits if_splits\<close>)
    with call_write(1) show ?thesis by simp
  next
    case (call_space c')
    have "out_ok sb co (ln_queued s @ []) c'"
      by (rule out_ok_same [of _ _ _ "ln_conn s"]) (use call_space(2) ok in \<open>auto simp: WritePacket_wait_def\<close>)
    then have "link_inv sb co first got0 seq0 (s\<lparr>ln_conn := c', ln_link := ln_link s, ln_got := ln_got s,
        ln_queued := ln_queued s @ []\<rparr>)"
      by (rule link_inv_conn [OF inv]) (use call_space(2) c in \<open>auto simp: WritePacket_wait_def\<close>)
    with call_space(1) show ?thesis by simp
  next
    case (call_read ctx ch c' p)
    then have c': "\<exists>ps. cn_inbox (ln_conn s) = p # ps \<and> c' = (ln_conn s)\<lparr>cn_inbox := ps\<rparr>"
      using rd by (auto simp: ReadPacket_def split: read_choice.splits list.splits option.splits)
    have "out_ok sb co (ln_queued s @ []) c'"
      using c' out_ok_D(6) [OF ok] by (auto intro: out_ok_cong [OF ok])
    then have "link_inv sb co first got0 seq0 (s\<lparr>ln_conn := c', ln_link := ln_link s, ln_got := ln_got s @ [p],
        ln_queued := ln_queued s @ []\<rparr>)"
      by (rule link_inv_conn [OF inv]) (use c' c in auto)
    with call_read(1) show ?thesis by simp
  next
    case call_close
    have "out_ok sb co (ln_queued s @ []) (conn_cancel (ln_conn s) errClosed)"
      by (rule out_ok_same [of _ _ _ "ln_conn s"]) (use ok in simp_all)
    then have "link_inv sb co first got0 seq0 (s\<lparr>ln_conn := conn_cancel (ln_conn s) errClosed,
        ln_link := ln_link s, ln_got := ln_got s, ln_queued := ln_queued s @ []\<rparr>)"
      by (rule link_inv_conn [OF inv]) (use c in \<open>simp_all add: cause_ok_cancel\<close>)
    with call_close show ?thesis by simp
  qed
qed

lemma link_inv_start:
  assumes "out_ok sb co gc c" and "\<not> cn_readerDone c" and "cause_ok (cn_cause c)"
  shows "link_inv sb co (nat (cn_flushed c)) (cn_inbox c @ cn_pending c) (cn_recvSeq c)
    (runLink_start c catchup r gc)"
  using assms out_ok_D(4) [OF assms(1)]
  by (auto simp: link_inv_def runLink_start_def writer_ok_def hand_ok_def received_def in_hand_def
      counted_def newLink_def chan_ok_new)

text \<open>Against a session: the link starts from what the session has queued and received so far.\<close>

definition link_session_inv :: "secretbox \<Rightarrow> bytes \<Rightarrow> sys \<Rightarrow> run_link \<Rightarrow> bool" where
  "link_session_inv sb key y s \<longleftrightarrow>
     (secretbox_laws sb \<longrightarrow> link_inv sb (stream0 key ClientToServer) (nat (cn_flushed (s_cli y)))
        (cn_inbox (s_cli y) @ cn_pending (s_cli y)) (cn_recvSeq (s_cli y)) s)"

interpretation links: transition_system
  "\<lambda>s. reachable sb key y \<and> \<not> cn_readerDone (s_cli y)
     \<and> (\<exists>catchup r. s = runLink_start (s_cli y) catchup r (g_cout y))"
  "link_move sb" "link_session_inv sb key y" for sb key y
proof
  fix s
  assume s: "reachable sb key y \<and> \<not> cn_readerDone (s_cli y)
     \<and> (\<exists>catchup r. s = runLink_start (s_cli y) catchup r (g_cout y))"
  have "sys_inv sb (stream0 key ClientToServer) (stream0 key ServerToClient) y" if "secretbox_laws sb"
    using reachable_inv [OF that] s by blast
  then have "out_ok sb (stream0 key ClientToServer) (g_cout y) (s_cli y) \<and> cause_ok (cn_cause (s_cli y))"
    if "secretbox_laws sb"
    using that by (auto simp: sys_inv_def in_ok_def cause_ok_def)
  with s show "link_session_inv sb key y s"
    using link_inv_start unfolding link_session_inv_def by blast
next
  fix s s' assume "link_session_inv sb key y s" and "link_move sb s s'"
  then show "link_session_inv sb key y s'"
    using link_inv_step link_inv_caller unfolding link_session_inv_def link_move_def by blast
qed

lemma link_reaches_inv:
  assumes "secretbox_laws sb" and "reachable sb key y" and "link_reaches sb y s"
  shows "link_inv sb (stream0 key ClientToServer) (nat (cn_flushed (s_cli y)))
    (cn_inbox (s_cli y) @ cn_pending (s_cli y)) (cn_recvSeq (s_cli y)) s"
  using links.inv_reachable [of sb key y _ s] assms unfolding link_reaches_def link_session_inv_def by blast

section \<open>The join\<close>

text \<open>Once the context has a cause, every goroutine is at most two of its own steps from its end.\<close>

lemma link_reader_ends:
  assumes "ln_ctx s = Some e"
  shows "\<exists>n s'. n \<le> 2 \<and> (link_step sb ^^ n) s s' \<and> ln_reader s' = RdDone \<and> ln_ctx s' = Some e
    \<and> ln_writer s' = ln_writer s \<and> ln_watch s' = ln_watch s \<and> ln_wire s' = ln_wire s"
proof -
  have hand: "\<exists>s'. link_step sb t s' \<and> ln_reader s' = RdDone \<and> ln_ctx s' = Some e
      \<and> ln_writer s' = ln_writer t \<and> ln_watch s' = ln_watch t \<and> ln_wire s' = ln_wire t"
    if t: "ln_reader t = RdHand rd p old" "ln_ctx t = Some e" for t rd p old
  proof -
    obtain c' l' where "reader_finish (ln_conn t) (ln_link t) p old (Some e) = Some (c', l', Some e)"
      by (simp add: reader_finish_def handOver_def Let_def)
    from rd_left [OF t this] t(2) show ?thesis
      by (intro exI [of _ "link_cancel e (t\<lparr>ln_conn := c', ln_link := l', ln_reader := RdDone\<rparr>)"])
        (simp add: link_cancel_keeps)
  qed
  show ?thesis
  proof (cases "ln_reader s")
    case (RdHand rd p old)
    from hand [OF this assms] show ?thesis by (intro exI [of _ 1]) auto
  next
    case RdDone
    with assms show ?thesis by (intro exI [of _ 0] exI [of _ s]) auto
  next
    case (RdLoop rd)
    obtain c' l' rd' res where b: "reader_begin sb (ln_conn s) (ln_link s) rd = (c', l', rd', res)"
      by (metis prod_cases4)
    show ?thesis
    proof (cases res)
      case (Inl e')
      from rd_fail [OF RdLoop b [unfolded Inl]] assms show ?thesis
        by (intro exI [of _ 1] exI [of _ "link_cancel e' (s\<lparr>ln_conn := c', ln_link := l', ln_reader := RdDone\<rparr>)"])
          (simp add: link_cancel_keeps eq_OO)
    next
      case (Inr po)
      obtain p old where po: "po = (p, old)" by fastforce
      let ?t = "s\<lparr>ln_conn := c', ln_link := handOver_enter l', ln_reader := RdHand rd' p old\<rparr>"
      have t: "link_step sb s ?t" using rd_begin [OF RdLoop b [unfolded Inr po]] .
      obtain s' where "link_step sb ?t s'" "ln_reader s' = RdDone" "ln_ctx s' = Some e"
        "ln_writer s' = ln_writer s" "ln_watch s' = ln_watch s" "ln_wire s' = ln_wire s"
        using hand [of ?t rd' p old] assms by auto
      with t show ?thesis
        by (intro exI [of _ "2::nat"] exI [of _ s']) (auto simp: numeral_2_eq_2)
    qed
  qed
qed

lemma frame_batch_grows:
  assumes "frame_batch base probe fs buf sent n pa = Inr (buf', sent', n', pa')"
  shows "length buf \<le> length buf' \<and> (sent = 0 \<longrightarrow> fs \<noteq> [] \<longrightarrow> length buf < length buf')"
  using assms
  by (induction base probe fs buf sent n pa rule: frame_batch.induct)
    (fastforce simp: AppendFrame_def BigEndian_AppendUint32_def Let_def split: if_splits)+

text \<open>The writer with a batch fails at its next piece; without one it frames one or leaves.\<close>

lemma writer_fails:
  assumes "ln_ctx s = Some e" and "ln_writer s = WrSend buf base sent n pa written" and "written < length buf"
  shows "\<exists>s'. link_step sb s s' \<and> ln_writer s' = WrDone \<and> ln_ctx s' = Some e
    \<and> ln_reader s' = ln_reader s \<and> ln_watch s' = ln_watch s"
  using wr_fail [OF assms(2,3), of 0 "Some NetErrClosed" sb] assms(1)
  by (intro exI [of _ "link_cancel (Wrap ''etcp: write'' [NetErrClosed]) (s\<lparr>ln_wire := ln_wire s @ [], ln_writer := WrDone\<rparr>)"])
    (simp add: link_cancel_keeps)

lemma writer_loop_ends:
  assumes inv: "link_inv sb co first got0 seq0 s" and ctx: "ln_ctx s = Some e" and w: "ln_writer s = WrLoop"
  shows "\<exists>n s'. n \<le> 2 \<and> (link_step sb ^^ n) s s' \<and> ln_writer s' = WrDone \<and> ln_ctx s' = Some e
    \<and> ln_reader s' = ln_reader s \<and> ln_watch s' = ln_watch s"
proof (cases "writeLoop_take (ln_conn s) = []")
  case True
  from wr_ctx [OF w this ctx, of sb] ctx show ?thesis
    by (intro exI [of _ 1] exI [of _ "link_cancel e (s\<lparr>ln_writer := WrDone\<rparr>)"])
      (simp add: link_cancel_keeps eq_OO)
next
  case False
  obtain buf sent n pa where fb: "frame_batch (cn_flushed (ln_conn s)) (cn_lastProbe (ln_conn s))
      (writeLoop_take (ln_conn s)) [] 0 0 (- 1) = Inr (buf, sent, n, pa)"
    using step_wr_frame [OF inv w refl] by blast
  let ?t = "s\<lparr>ln_writer := WrSend buf (cn_flushed (ln_conn s)) sent n pa 0\<rparr>"
  have t: "link_step sb s ?t" using wr_frame [OF w False fb] .
  have "0 < length buf" using frame_batch_grows [OF fb] False by simp
  with writer_fails [of ?t e buf _ sent n pa 0 sb] ctx obtain s' where
    "link_step sb ?t s'" "ln_writer s' = WrDone" "ln_ctx s' = Some e" "ln_reader s' = ln_reader s"
    "ln_watch s' = ln_watch s" by auto
  with t show ?thesis by (intro exI [of _ "2::nat"] exI [of _ s']) (auto simp: numeral_2_eq_2)
qed

lemma writer_ends:
  assumes inv: "link_inv sb co first got0 seq0 s" and ctx: "ln_ctx s = Some e"
  shows "\<exists>n s'. n \<le> 3 \<and> (link_step sb ^^ n) s s' \<and> ln_writer s' = WrDone \<and> ln_ctx s' = Some e
    \<and> ln_reader s' = ln_reader s \<and> ln_watch s' = ln_watch s"
proof (cases "ln_writer s")
  case WrLoop
  from writer_loop_ends [OF inv ctx this] obtain n s' where "n \<le> 2" "(link_step sb ^^ n) s s'"
    "ln_writer s' = WrDone" "ln_ctx s' = Some e" "ln_reader s' = ln_reader s" "ln_watch s' = ln_watch s"
    by blast
  then show ?thesis by (intro exI [of _ n] exI [of _ s']) simp
next
  case WrDone
  with ctx show ?thesis by (intro exI [of _ 0] exI [of _ s]) simp
next
  case (WrSend buf base sent n pa written)
  show ?thesis
  proof (cases "written < length buf")
    case True
    from writer_fails [OF ctx WrSend True, of sb] show ?thesis by (intro exI [of _ 1]) auto
  next
    case False
    let ?t = "s\<lparr>ln_conn := writeLoop_commit (ln_conn s) sent n, ln_writer := WrLoop\<rparr>"
    have t: "link_step sb s ?t" using wr_commit [OF WrSend False] .
    obtain k s' where k: "k \<le> 2" "(link_step sb ^^ k) ?t s'" and s': "ln_writer s' = WrDone"
      "ln_ctx s' = Some e" "ln_reader s' = ln_reader s" "ln_watch s' = ln_watch s"
      using writer_loop_ends [OF step_wr_commit [OF inv WrSend False], of e] ctx by auto
    have "(link_step sb ^^ Suc k) s s'" using relpowp_Suc_I2 t k(2) by metis
    with k(1) s' show ?thesis by (intro exI [of _ "Suc k"] exI [of _ s']) simp
  qed
qed

lemma link_cause_kept: "link_move sb s s' \<Longrightarrow> ln_ctx s = Some e \<Longrightarrow> ln_ctx s' = Some e"
  by (auto simp: link_move_def link_cancel_def elim!: link_step.cases caller_step.cases split: option.splits)

lemma link_closed_kept: "(link_step sb ^^ n) s s' \<Longrightarrow> ln_closed s \<Longrightarrow> ln_closed s'"
  by (induction n arbitrary: s') (auto elim!: link_step.cases)

lemma link_inv_relpowp:
  "(link_step sb ^^ n) s s' \<Longrightarrow> secretbox_laws sb \<Longrightarrow> link_inv sb co first got0 seq0 s
    \<Longrightarrow> link_inv sb co first got0 seq0 s'"
  by (induction n arbitrary: s') (auto intro: link_inv_step)

lemma runLink_joins:
  assumes sb: "secretbox_laws sb" and inv: "link_inv sb co first got0 seq0 s" and ctx: "ln_ctx s = Some e"
  shows "\<exists>n s'. n \<le> 6 \<and> (link_step sb ^^ n) s s' \<and> runLink_joined s' \<and> ln_ctx s' = Some e"
proof -
  obtain n1 s1 where 1: "n1 \<le> 2" "(link_step sb ^^ n1) s s1" "ln_reader s1 = RdDone" "ln_ctx s1 = Some e"
    "ln_watch s1 = ln_watch s"
    using link_reader_ends [OF ctx] by blast
  obtain n2 s2 where 2: "n2 \<le> 3" "(link_step sb ^^ n2) s1 s2" "ln_writer s2 = WrDone" "ln_ctx s2 = Some e"
    "ln_reader s2 = RdDone"
    using writer_ends [OF link_inv_relpowp [OF 1(2) sb inv] 1(4)] 1(3) by auto
  have 12: "(link_step sb ^^ (n1 + n2)) s s2" using 1(2) 2(2) by (auto simp: relpowp_add)
  show ?thesis
  proof (cases "ln_watch s2")
    case None
    with 1(1) 2 12 show ?thesis by (intro exI [of _ "n1 + n2"] exI [of _ s2]) (simp add: runLink_joined_def)
  next
    case (Some probed)
    let ?t = "link_cancel e (s2\<lparr>ln_conn := ln_conn s2, ln_link := ln_link s2, ln_watch := None\<rparr>)"
    have "link_step sb s2 ?t"
      by (rule watch_dead [OF Some, of "WatchCtxDone e"]) (simp_all add: 2(4) watch_pass_def)
    with 12 have "(link_step sb ^^ Suc (n1 + n2)) s ?t" by auto
    with 1(1) 2 show ?thesis
      by (intro exI [of _ "Suc (n1 + n2)"] exI [of _ ?t]) (simp add: runLink_joined_def link_cancel_keeps)
  qed
qed

section \<open>Properties\<close>

text \<open>
  C10. A link ends, the session goes on. On the \<^verbatim>\<open>Conn\<close> of any session, whatever the peer sends and
  however the three goroutines and the callers interleave: the invariant of the \<^verbatim>\<open>Conn\<close> holds at
  every point; no goroutine stops and the socket is not closed before the link has a cause; the first cause is kept,
  and it is what \<^verbatim>\<open>runLink\<close> returns once all three are joined; and a lost link never ends the
  \<^verbatim>\<open>Conn\<close> itself: only its caller does, or a packet that fails the integrity check.
\<close>

theorem runLink_safe:
  assumes "secretbox_laws sb" and "reachable sb key y" and "link_reaches sb y s"
  shows "conn_inv (ln_conn s) \<and> \<not> cn_readerDone (ln_conn s)
    \<and> (ln_closed s \<or> ln_reader s = RdDone \<or> ln_writer s = WrDone \<or> ln_watch s = None \<longrightarrow> ln_ctx s \<noteq> None)
    \<and> (\<forall>s' e. ln_ctx s = Some e \<longrightarrow> link_move sb s s' \<longrightarrow> ln_ctx s' = Some e)
    \<and> (runLink_joined s \<longrightarrow> (\<exists>e. runLink_return s = (s\<lparr>ln_closed := True\<rparr>, Some e)))
    \<and> (\<forall>e. cn_cause (ln_conn s) = Some e \<longrightarrow> e = errClosed \<or> errors_Is e ErrIntegrity)"
proof -
  note inv = link_reaches_inv [OF assms, unfolded link_inv_def]
  have "conn_inv (ln_conn s)" using inv out_ok_D(1) by blast
  moreover have "runLink_joined s \<longrightarrow> (\<exists>e. runLink_return s = (s\<lparr>ln_closed := True\<rparr>, Some e))"
    using inv by (auto simp: runLink_joined_def runLink_return_def)
  ultimately show ?thesis using inv link_cause_kept unfolding cause_ok_def by blast
qed

text \<open>
  C6. What a link carries. Outbound: what the socket took is at every point a prefix of the frames
  of the packets queued, in their order, from the position where the link started, and between
  two batches it is exactly the frames up to the written position, with no byte of a
  batch repeated or skipped. Inbound: every packet counted since the link started was read by the
  caller, is queued for it, is kept for the next link or is in the reader's hand, in the order of
  arrival, behind what was there before.
\<close>

theorem runLink_transfers:
  assumes "secretbox_laws sb" and "reachable sb key y" and "link_reaches sb y s"
  shows "(\<exists>z. ln_wire s @ z = concat (map frame_bytes
        (drop (nat (cn_flushed (s_cli y))) (sealed_log sb (stream0 key ClientToServer) (ln_queued s)))))
    \<and> (ln_writer s = WrLoop \<longrightarrow> ln_wire s = concat (map frame_bytes
        (part (sealed_log sb (stream0 key ClientToServer) (ln_queued s))
          (nat (cn_flushed (s_cli y))) (nat (cn_flushed (ln_conn s))))))
    \<and> (\<exists>ps. ln_got s @ cn_inbox (ln_conn s) @ cn_pending (ln_conn s) @ in_hand (ln_reader s)
          = (cn_inbox (s_cli y) @ cn_pending (s_cli y)) @ ps
        \<and> cn_recvSeq (ln_conn s) = cn_recvSeq (s_cli y) + int (length ps))"
proof -
  let ?L = "sealed_log sb (stream0 key ClientToServer) (ln_queued s)" and ?f = "nat (cn_flushed (s_cli y))"
  note inv = link_reaches_inv [OF assms, unfolded link_inv_def]
  have w: "writer_ok ?L ?f (cn_flushed (ln_conn s)) (ln_writer s) (ln_wire s)" using inv by blast
  have "chan_prefix ?L ?f (ln_wire s)" using writer_ok_done [OF w] by (simp add: writer_ok_def)
  moreover have "ln_writer s = WrLoop \<longrightarrow> ln_wire s = concat (map frame_bytes (part ?L ?f (nat (cn_flushed (ln_conn s)))))"
    using w by (auto simp: writer_ok_def chan_ok_def)
  ultimately show ?thesis using inv unfolding chan_prefix_def counted_def received_def by blast
qed


text \<open>A link for the witnesses: on a session just started, the caller closes at once.\<close>

lemma demo_link:
  "\<exists>y s. reachable demo_box demo_key y \<and> link_reaches demo_box y s \<and> ln_ctx s = Some errClosed
    \<and> ln_writer s = WrLoop \<and> ln_queued s = g_cout y \<and> cn_flushed (ln_conn s) = cn_flushed (s_cli y)
    \<and> cn_cause (ln_conn s) = Some errClosed"
proof -
  obtain y where y: "sys_start demo_dialer [] [] demo_key = Some y" "cn_cause (s_cli y) = None"
    using demo_start by blast
  have r: "reachable demo_box demo_key y" using y by (auto simp: reachable_def session_start_def)
  have rd: "\<not> cn_readerDone (s_cli y)"
    using y by (auto simp: sys_start_def newConn_def NewServer_def Let_def split: if_splits option.splits)
  let ?s = "runLink_start (s_cli y) [] \<lparr>avail = [], rend = EOF\<rparr> (g_cout y)"
  let ?t = "?s\<lparr>ln_conn := conn_cancel (ln_conn ?s) errClosed\<rparr>"
  have "link_move demo_box ?s ?t" using call_close [of demo_box ?s] by (simp add: link_move_def)
  moreover have "link_move demo_box ?t (?t\<lparr>ln_ctx := Some errClosed\<rparr>)"
    using parent_done [of ?t errClosed demo_box] y(2)
    by (simp add: link_move_def runLink_start_def conn_cancel_def)
  ultimately have "link_reaches demo_box y (?t\<lparr>ln_ctx := Some errClosed\<rparr>)"
    using rd unfolding link_reaches_def by (meson rtranclp.rtrancl_into_rtrancl rtranclp.rtrancl_refl)
  with r y(2) show ?thesis
    by (intro exI [of _ y] exI [of _ "?t\<lparr>ln_ctx := Some errClosed\<rparr>"])
      (simp add: runLink_start_def conn_cancel_def)
qed

theorem runLink_safe_witness:
  "\<exists>y s. link_reaches demo_box y s \<and> cn_cause (ln_conn s) = Some errClosed \<and> conn_inv (ln_conn s)"
  using demo_link runLink_safe [OF demo_box_laws] by metis

theorem runLink_transfers_witness:
  "\<exists>y s. link_reaches demo_box y s \<and> ln_writer s = WrLoop \<and> ln_wire s = []"
proof -
  obtain y s where s: "reachable demo_box demo_key y" "link_reaches demo_box y s" "ln_writer s = WrLoop"
    "cn_flushed (ln_conn s) = cn_flushed (s_cli y)" using demo_link by blast
  from runLink_transfers [OF demo_box_laws s(1,2)] s show ?thesis by auto
qed


end
