(* ===== verification/ET_Live.thy ===== *)
theory ET_Live
  imports ET_Link
begin

text \<open>
  The session of \<open>ET_System\<close> with the client's end in full detail: while a link is up, the three
  goroutines of \<^verbatim>\<open>runLink\<close> run on it as in \<open>ET_Link\<close>, interleaved with the callers and with the
  server, and the link is over only when all three have returned. Every run of this system is a
  view of a run of \<open>ET_System\<close> (the locale \<open>simulation\<close>), so what is proved there holds whatever
  the scheduler does inside \<^verbatim>\<open>runLink\<close>.

  In the abstract system the packet in the reader's hand counts as pending; a writer that has
  failed, or a reader that has returned, is one that takes no further step.
\<close>

section \<open>States and steps\<close>

text \<open>
  While a link runs, the client's \<^verbatim>\<open>Conn\<close> and what its callers did are in \<open>lv_run\<close>; the network and
  the server are in \<open>lv_sys\<close>, and the client's fields there are those from the start of the link.
\<close>

record live =
  lv_sys :: sys
  lv_run :: "run_link option"

text \<open>The bytes that have arrived, for a socket still open; how it would end is up to the network.\<close>

definition on_stream :: "reader \<Rightarrow> link_reader_phase \<Rightarrow> link_reader_phase" where
  "on_stream r ph =
     (case ph of
        RdLoop rd \<Rightarrow> RdLoop (rd\<lparr>rd_stream := r\<rparr>)
      | RdHand rd p old \<Rightarrow> RdHand (rd\<lparr>rd_stream := r\<rparr>) p old
      | RdDone \<Rightarrow> RdDone)"

definition feed :: "bytes \<Rightarrow> go_error \<Rightarrow> run_link \<Rightarrow> run_link" where
  "feed w e s =
     (if ln_closed s then s else s\<lparr>ln_reader := on_stream \<lparr>avail = w, rend = e\<rparr> (ln_reader s)\<rparr>)"

text \<open>How many bytes a step of the reader took off the link.\<close>

definition taken :: "link_reader_phase \<Rightarrow> link_reader_phase \<Rightarrow> nat" where
  "taken ph ph' =
     (case (ph, ph') of
        (RdLoop rd, RdHand rd' p old) \<Rightarrow> length (avail (rd_stream rd)) - length (avail (rd_stream rd'))
      | _ \<Rightarrow> 0)"

text \<open>What a step of a goroutine does to the network: bytes written, bytes read.\<close>

definition after_link :: "sys \<Rightarrow> run_link \<Rightarrow> run_link \<Rightarrow> sys" where
  "after_link y s s' = (let k = taken (ln_reader s) (ln_reader s') in
     y\<lparr>s_cw := s_cw y @ drop (length (ln_wire s)) (ln_wire s'), s_sw := drop k (s_sw y),
       g_sbase := (if k = 0 then g_sbase y else Suc (g_sbase y))\<rparr>)"

definition link_over :: "sys \<Rightarrow> run_link \<Rightarrow> sys" where
  "link_over y s = y\<lparr>s_cli := ln_conn s, s_cph := CDown, s_wbuf := None, s_rd := no_reader,
     g_cout := ln_queued s, g_cgot := g_cgot y @ ln_got s\<rparr>"

definition link_of :: "sys \<Rightarrow> run_link" where
  "link_of y = runLink_start (s_cli y) (rd_catchup (s_rd y)) \<lparr>avail = s_sw y, rend = EOF\<rparr> (g_cout y)"

inductive live_step :: "secretbox \<Rightarrow> live \<Rightarrow> live \<Rightarrow> bool" for sb where
  goroutine:
    "lv_run v = Some s \<Longrightarrow> \<not> errors_Is e ErrTooLarge \<Longrightarrow> f = feed (s_sw (lv_sys v)) e s \<Longrightarrow> link_step sb f s' \<Longrightarrow>
     live_step sb v (v\<lparr>lv_sys := after_link (lv_sys v) f s', lv_run := Some s'\<rparr>)"
| caller:
    "lv_run v = Some s \<Longrightarrow> caller_step sb s s' \<Longrightarrow> live_step sb v (v\<lparr>lv_run := Some s'\<rparr>)"
| peer:
    "lv_run v = Some s \<Longrightarrow> srv_step sb (lv_sys v) y' \<Longrightarrow> live_step sb v (v\<lparr>lv_sys := y'\<rparr>)"
| returned:
    "lv_run v = Some s \<Longrightarrow> runLink_joined s \<Longrightarrow>
     live_step sb v (v\<lparr>lv_sys := link_over (lv_sys v) (fst (runLink_return s)), lv_run := None\<rparr>)"
| between:
    "lv_run v = None \<Longrightarrow> sys_step sb (lv_sys v) y' \<Longrightarrow> s_cph y' \<noteq> CUp \<Longrightarrow>
     live_step sb v (v\<lparr>lv_sys := y'\<rparr>)"
| new_link:
    "lv_run v = None \<Longrightarrow> sys_step sb (lv_sys v) y' \<Longrightarrow> s_cph y' = CUp \<Longrightarrow>
     live_step sb v (v\<lparr>lv_sys := y', lv_run := Some (link_of y')\<rparr>)"

definition live_start :: "bytes \<Rightarrow> live \<Rightarrow> bool" where
  "live_start key v \<longleftrightarrow> (\<exists>y. session_start key y \<and> v = \<lparr>lv_sys = y, lv_run = Some (link_of y)\<rparr>)"

definition live_reachable :: "secretbox \<Rightarrow> bytes \<Rightarrow> live \<Rightarrow> bool" where
  "live_reachable sb key v \<longleftrightarrow> (\<exists>v0. live_start key v0 \<and> (live_step sb)\<^sup>*\<^sup>* v0 v)"

section \<open>The abstract view\<close>

text \<open>The \<^verbatim>\<open>Conn\<close> with the packet in the reader's hand put where it would be kept.\<close>

definition kept :: "run_link \<Rightarrow> conn" where
  "kept s = (ln_conn s)\<lparr>cn_pending := cn_pending (ln_conn s) @ in_hand (ln_reader s)\<rparr>"

definition view :: "sys \<Rightarrow> run_link \<Rightarrow> link_reader \<Rightarrow> (bytes \<times> nat \<times> nat) option \<Rightarrow> sys" where
  "view y s rd b = y\<lparr>s_cli := kept s, s_rd := rd, s_wbuf := b, g_cout := ln_queued s,
     g_cgot := g_cgot y @ ln_got s\<rparr>"

definition reader_of :: "link_reader_phase \<Rightarrow> link_reader option" where
  "reader_of ph = (case ph of RdLoop rd \<Rightarrow> Some rd | RdHand rd p old \<Rightarrow> Some rd | RdDone \<Rightarrow> None)"

text \<open>
  The reader of the view has the catchup left to the goroutine, which has seen only bytes of the
  link; the writer of the view has what the goroutine has not yet given to the socket.
\<close>

definition reads :: "bytes \<Rightarrow> link_reader_phase \<Rightarrow> link_reader \<Rightarrow> bool" where
  "reads w ph rd \<longleftrightarrow> (\<forall>r. reader_of ph = Some r \<longrightarrow>
     rd_catchup rd = rd_catchup r \<and> rd_released rd = rd_released r
     \<and> (\<exists>x. w = avail (rd_stream r) @ x) \<and> \<not> errors_Is (rend (rd_stream r)) ErrTooLarge)"

definition writes :: "link_writer_phase \<Rightarrow> (bytes \<times> nat \<times> nat) option \<Rightarrow> bool" where
  "writes ph b =
     (case ph of
        WrLoop \<Rightarrow> b = None
      | WrSend buf base sent n probeAt written \<Rightarrow> b = Some (drop written buf, sent, n)
      | WrDone \<Rightarrow> True)"

definition linked :: "sys \<Rightarrow> run_link \<Rightarrow> sys \<Rightarrow> bool" where
  "linked y s a \<longleftrightarrow> s_cph y = CUp \<and> \<not> cn_readerDone (ln_conn s)
     \<and> hand_ok (ln_reader s) (cn_pending (ln_conn s))
     \<and> (\<exists>rd b. a = view y s rd b \<and> reads (s_sw y) (ln_reader s) rd \<and> writes (ln_writer s) b)"

definition live_rel :: "live \<Rightarrow> sys \<Rightarrow> bool" where
  "live_rel v a =
     (case lv_run v of None \<Rightarrow> s_cph (lv_sys v) \<noteq> CUp \<and> a = lv_sys v | Some s \<Rightarrow> linked (lv_sys v) s a)"

section \<open>Simulation\<close>

lemma view_fields [simp]:
  "s_cli (view y s rd b) = kept s" "s_cph (view y s rd b) = s_cph y" "s_rd (view y s rd b) = rd"
  "s_wbuf (view y s rd b) = b" "s_sw (view y s rd b) = s_sw y" "s_cw (view y s rd b) = s_cw y"
  "g_sbase (view y s rd b) = g_sbase y" "g_cout (view y s rd b) = ln_queued s"
  "g_cgot (view y s rd b) = g_cgot y @ ln_got s" "s_sph (view y s rd b) = s_sph y"
  by (simp_all add: view_def)

lemma kept_fields [simp]:
  "cn_pending (kept s) = cn_pending (ln_conn s) @ in_hand (ln_reader s)"
  "cn_flushed (kept s) = cn_flushed (ln_conn s)" "cn_lastProbe (kept s) = cn_lastProbe (ln_conn s)"
  "cn_ring (kept s) = cn_ring (ln_conn s)" "cn_probe (kept s) = cn_probe (ln_conn s)"
  "cn_inbox (kept s) = cn_inbox (ln_conn s)" "cn_cause (kept s) = cn_cause (ln_conn s)"
  by (simp_all add: kept_def)

text \<open>While the reader lives, nobody else looks at what is pending.\<close>

lemma aside_pending:
  "WritePacket_pass sb c p = (c', r) \<Longrightarrow>
     WritePacket_pass sb (c\<lparr>cn_pending := q\<rparr>) p = (c'\<lparr>cn_pending := q\<rparr>, r) \<and> cn_pending c' = cn_pending c"
  "WritePacket_wait c ev = (c', oe) \<Longrightarrow>
     WritePacket_wait (c\<lparr>cn_pending := q\<rparr>) ev = (c'\<lparr>cn_pending := q\<rparr>, oe) \<and> cn_pending c' = cn_pending c"
  "\<not> cn_readerDone c \<Longrightarrow> ReadPacket ctx ch c = Some (c', Inr pkt) \<Longrightarrow>
     ReadPacket ctx ch (c\<lparr>cn_pending := q\<rparr>) = Some (c'\<lparr>cn_pending := q\<rparr>, Inr pkt) \<and> cn_pending c' = cn_pending c"
  "conn_cancel (c\<lparr>cn_pending := q\<rparr>) e = (conn_cancel c e)\<lparr>cn_pending := q\<rparr>"
  "writeLoop_commit (c\<lparr>cn_pending := q\<rparr>) sent n = (writeLoop_commit c sent n)\<lparr>cn_pending := q\<rparr>"
  "probeOnce sb (c\<lparr>cn_pending := q\<rparr>) = (probeOnce sb c)\<lparr>cn_pending := q\<rparr>"
  "cn_pending (writeLoop_commit c sent n) = cn_pending c" "cn_pending (probeOnce sb c) = cn_pending c"
  by (auto simp: WritePacket_pass_def enqueueLocked_def WritePacket_wait_def ReadPacket_def conn_cancel_def
      writeLoop_commit_def releaseLocked_def probeOnce_def Let_def
      split: option.splits if_splits prod.splits wait_event.splits read_choice.splits list.splits)

lemma linkedI:
  "s_cph y = CUp \<Longrightarrow> \<not> cn_readerDone (ln_conn s) \<Longrightarrow> hand_ok (ln_reader s) (cn_pending (ln_conn s)) \<Longrightarrow> reads (s_sw y) (ln_reader s) rd
   \<Longrightarrow> writes (ln_writer s) b \<Longrightarrow> a = view y s rd b \<Longrightarrow> linked y s a"
  by (auto simp: linked_def)

lemma linked_feed:
  assumes "linked y s a" and "\<not> errors_Is e ErrTooLarge"
  shows "linked y (feed (s_sw y) e s) a"
proof -
  have "in_hand (on_stream r ph) = in_hand ph" "hand_ok (on_stream r ph) q = hand_ok ph q" for r ph q
    by (cases ph; simp add: on_stream_def in_hand_def hand_ok_def)+
  moreover have "reads (s_sw y) (on_stream \<lparr>avail = s_sw y, rend = e\<rparr> ph) rd"
    if "reads (s_sw y) ph rd" for ph rd
    using that assms(2) by (cases ph) (auto simp: reads_def on_stream_def reader_of_def)
  moreover obtain rd b where "a = view y s rd b" "s_cph y = CUp" "\<not> cn_readerDone (ln_conn s)"
    "hand_ok (ln_reader s) (cn_pending (ln_conn s))" "reads (s_sw y) (ln_reader s) rd" "writes (ln_writer s) b"
    using assms(1) by (auto simp: linked_def)
  ultimately show ?thesis
    by (intro linkedI [where rd = rd and b = b]) (simp_all add: feed_def view_def kept_def)
qed

lemma linkedE:
  assumes "linked y s a"
  obtains rd b where "a = view y s rd b" and "s_cph y = CUp" and "\<not> cn_readerDone (ln_conn s)"
    and "hand_ok (ln_reader s) (cn_pending (ln_conn s))" and "reads (s_sw y) (ln_reader s) rd"
    and "writes (ln_writer s) b"
  using assms by (auto simp: linked_def)

text \<open>A step that changes nothing the view shows.\<close>

lemma linked_same:
  assumes "linked y s a" and "ln_conn s' = ln_conn s" and "ln_queued s' = ln_queued s" and "ln_got s' = ln_got s"
    and "in_hand (ln_reader s') = in_hand (ln_reader s)"
    and "hand_ok (ln_reader s') (cn_pending (ln_conn s))"
    and "\<And>rd. reads (s_sw y) (ln_reader s) rd \<Longrightarrow> reads (s_sw y) (ln_reader s') rd"
    and "\<And>b. writes (ln_writer s) b \<Longrightarrow> writes (ln_writer s') b"
  shows "linked y s' a"
  using assms(1)
proof (rule linkedE)
  fix rd b
  assume "a = view y s rd b" "s_cph y = CUp" "\<not> cn_readerDone (ln_conn s)" "reads (s_sw y) (ln_reader s) rd"
    "writes (ln_writer s) b"
  with assms(2-8) show ?thesis
    by (intro linkedI [where rd = rd and b = b]) (simp_all add: view_def kept_def)
qed

lemma to_view: "sys_step sb a t \<Longrightarrow> t = a' \<Longrightarrow> sys_step sb a a'"
  by simp

subsection \<open>The reader\<close>

lemma pending_none: "cn_pending c = [] \<Longrightarrow> c\<lparr>cn_pending := []\<rparr> = c"
  by (cases c) simp

lemma sim_rd_pending:
  assumes L: "linked y s a" and rd: "ln_reader s = RdLoop rd0" and pend: "cn_pending (ln_conn s) = p # ps"
  shows "linked y (s\<lparr>ln_link := l', ln_reader := RdHand rd0 p True\<rparr>) a"
  using L by (rule linked_same)
    (use rd pend in \<open>auto simp: in_hand_def hand_ok_def reads_def reader_of_def\<close>)

lemma sim_rd_open:
  assumes L: "linked y s a" and rd: "ln_reader s = RdLoop rd0" and pend: "cn_pending (ln_conn s) = []"
    and p: "reader_begin sb (ln_conn s) (ln_link s) rd0 = (c', l', rd', Inr (p, False))"
    and k: "k = length (avail (rd_stream rd0)) - length (avail (rd_stream rd'))"
  shows "\<exists>a'. sys_step sb a a'
    \<and> linked (y\<lparr>s_sw := drop k (s_sw y), g_sbase := (if k = 0 then g_sbase y else Suc (g_sbase y))\<rparr>)
        (s\<lparr>ln_conn := c', ln_link := l2, ln_reader := RdHand rd' p False\<rparr>) a'"
  using L
proof (rule linkedE)
  fix rda b
  assume a: "a = view y s rda b" "s_cph y = CUp" "\<not> cn_readerDone (ln_conn s)" "writes (ln_writer s) b"
    and "reads (s_sw y) (ln_reader s) rda"
  then obtain x where same: "rd_catchup rda = rd_catchup rd0" "rd_released rda = rd_released rd0"
    and x: "s_sw y = avail (rd_stream rd0) @ x" and fine: "\<not> errors_Is (rend (rd_stream rd0)) ErrTooLarge"
    using rd by (auto simp: reads_def reader_of_def)
  from reader_begin_more [OF p pend same fine refl, of x EOF] obtain l3 rd2 z where
    q: "reader_begin sb (ln_conn s) (ln_link s) (rda\<lparr>rd_stream := \<lparr>avail = s_sw y, rend = EOF\<rparr>\<rparr>) =
      (c', l3, rd2, Inr (p, False))"
    and rd2: "rd_catchup rd2 = rd_catchup rd'" "rd_released rd2 = rd_released rd'"
      "avail (rd_stream rd2) = avail (rd_stream rd') @ x"
    and z: "avail (rd_stream rd0) = z @ avail (rd_stream rd')" "rend (rd_stream rd') = rend (rd_stream rd0)"
    using x by auto
  note eff = reader_begin_effect [OF p]
  have c': "cn_pending c' = []" "\<not> cn_readerDone c'" using eff(4,5) pend a(3) by auto
  have kz: "k = length z" "drop k (s_sw y) = avail (rd_stream rd2)"
    "avail (rd_stream rd2) = s_sw y \<longleftrightarrow> k = 0"
    using k z(1) x rd2(3) by auto
  let ?s = "s\<lparr>ln_conn := c', ln_link := l2, ln_reader := RdHand rd' p False\<rparr>"
  let ?y = "y\<lparr>s_sw := drop k (s_sw y), g_sbase := (if k = 0 then g_sbase y else Suc (g_sbase y))\<rparr>"
  have cli: "s_cli a = ln_conn s" using rd pend by (simp add: a(1) kept_def in_hand_def pending_none)
  have eq: "a\<lparr>s_cli := c'\<lparr>cn_pending := [p]\<rparr>, s_rd := rd2, s_sw := avail (rd_stream rd2),
      g_sbase := (if avail (rd_stream rd2) = s_sw a then g_sbase a else Suc (g_sbase a))\<rparr> = view ?y ?s rd2 b"
    by (rule sys.equality) (use kz c'(1) in \<open>simp_all add: a(1) view_def kept_def in_hand_def\<close>)
  have "sys_step sb a (view ?y ?s rd2 b)"
    by (rule to_view [OF sys_step.cli_open [of a sb "ln_link s" c' l3 rd2 p] eq])
      (use a(2) q cli in \<open>simp_all add: a(1)\<close>)
  moreover have "linked ?y ?s (view ?y ?s rd2 b)"
    using a(2,4) c' rd2 z fine kz(2)
    by (intro linkedI) (auto simp: hand_ok_def reads_def reader_of_def)
  ultimately show ?thesis by blast
qed

lemma sim_rd_fail:
  assumes sb: "secretbox_laws sb" and L: "linked y s a" and inv: "sys_inv sb co so a"
    and rd: "ln_reader s = RdLoop rd0"
    and p: "reader_begin sb (ln_conn s) (ln_link s) rd0 = (c', l', rd', Inl e)"
  shows "linked y (link_cancel e (s\<lparr>ln_conn := c', ln_link := l', ln_reader := RdDone\<rparr>)) a"
proof -
  have pend: "cn_pending (ln_conn s) = []"
    using p by (cases "cn_pending (ln_conn s)") (simp_all add: reader_pending)
  from L obtain rda b where a: "a = view y s rda b" "s_cph y = CUp" "reads (s_sw y) (ln_reader s) rda"
    by (rule linkedE)
  then obtain x where same: "rd_catchup rda = rd_catchup rd0" "rd_released rda = rd_released rd0"
    and x: "s_sw y = avail (rd_stream rd0) @ x" and fine: "\<not> errors_Is (rend (rd_stream rd0)) ErrTooLarge"
    using rd by (auto simp: reads_def reader_of_def)
  have cli: "s_cli a = ln_conn s" using rd pend by (simp add: a(1) kept_def in_hand_def pending_none)
  have "c' = ln_conn s" if "reader_begin sb (ln_conn s) (ln_link s)
      (rda\<lparr>rd_stream := \<lparr>avail = s_sw y, rend = EOF\<rparr>\<rparr>) = (c', l2, rd2, Inl e2)" for l2 rd2 e2
    using step_cli_open [OF sb inv, of "ln_link s" c' l2 rd2 "Inl e2"] that a cli pend rd by (simp add: in_hand_def)
  with reader_begin_more [OF p pend same fine refl, of x EOF] x have "c' = ln_conn s" by auto
  with L rd show ?thesis
    by (intro linked_same [OF L])
      (auto simp: link_cancel_def in_hand_def hand_ok_def reads_def reader_of_def split: option.splits)
qed

lemma sim_rd_handed:
  assumes L: "linked y s a" and rd: "ln_reader s = RdHand rd0 p old"
    and h: "reader_finish (ln_conn s) (ln_link s) p old None = Some (c', l', None)"
  shows "\<exists>a'. sys_step sb a a' \<and> linked y (s\<lparr>ln_conn := c', ln_link := l', ln_reader := RdLoop rd0\<rparr>) a'"
  using L
proof (rule linkedE)
  fix rda b
  assume a: "a = view y s rda b" "s_cph y = CUp" "\<not> cn_readerDone (ln_conn s)" "writes (ln_writer s) b"
    "reads (s_sw y) (ln_reader s) rda" and ok: "hand_ok (ln_reader s) (cn_pending (ln_conn s))"
  let ?c = "ln_conn s" and ?s = "s\<lparr>ln_conn := c', ln_link := l', ln_reader := RdLoop rd0\<rparr>"
  obtain ps where ps: "cn_pending (kept s) = p # ps" "ps = (if old then tl (cn_pending ?c) else [])"
    using ok rd by (cases "cn_pending ?c") (auto simp: kept_def in_hand_def hand_ok_def split: if_splits)
  have room: "length (cn_inbox ?c) < inboxSize"
    and c': "c' = (if old then (?c\<lparr>cn_inbox := cn_inbox ?c @ [p]\<rparr>)\<lparr>cn_pending := tl (cn_pending ?c)\<rparr>
      else ?c\<lparr>cn_inbox := cn_inbox ?c @ [p]\<rparr>)"
    using h by (auto simp: reader_finish_def handOver_def Let_def split: if_splits)
  have none: "cn_pending ?c = []" if "\<not> old" using ok rd that by (simp add: hand_ok_def)
  have kept': "kept ?s = (kept s)\<lparr>cn_inbox := cn_inbox (kept s) @ [p], cn_pending := ps\<rparr>"
    using none ps(2) by (cases old) (simp_all add: kept_def in_hand_def c')
  have "handOver (kept s) (ln_link s) p None =
      Some ((kept s)\<lparr>cn_inbox := cn_inbox (kept s) @ [p]\<rparr>, (handOver_enter (ln_link s))\<lparr>lk_delivering := False\<rparr>, None)"
    using room by (simp add: handOver_def Let_def)
  moreover have eq: "a\<lparr>s_cli := (kept s)\<lparr>cn_inbox := cn_inbox (kept s) @ [p], cn_pending := ps\<rparr>\<rparr> = view y ?s rda b"
    by (rule sys.equality) (simp_all add: a(1) view_def kept')
  ultimately have "sys_step sb a (view y ?s rda b)"
    by (intro to_view [OF sys_step.cli_hand eq]) (use a(2) ps(1) in \<open>simp_all add: a(1)\<close>)
  moreover have "linked y ?s (view y ?s rda b)"
    using a rd none by (intro linkedI) (auto simp: hand_ok_def reads_def reader_of_def c')
  ultimately show ?thesis by blast
qed

lemma sim_rd_left:
  assumes L: "linked y s a" and rd: "ln_reader s = RdHand rd0 p old"
    and h: "reader_finish (ln_conn s) (ln_link s) p old (Some e) = Some (c', l', Some e)"
  shows "linked y (link_cancel e (s\<lparr>ln_conn := c', ln_link := l', ln_reader := RdDone\<rparr>)) a"
  using L
proof (rule linkedE)
  fix rda b
  assume a: "a = view y s rda b" "s_cph y = CUp" "\<not> cn_readerDone (ln_conn s)" "writes (ln_writer s) b"
  have "c' = (if old then ln_conn s else (ln_conn s)\<lparr>cn_pending := cn_pending (ln_conn s) @ [p]\<rparr>)"
    using h by (auto simp: reader_finish_def handOver_def Let_def split: if_splits)
  with a rd show ?thesis
    by (intro linkedI [where rd = rda and b = b])
      (auto simp: link_cancel_def view_def kept_def in_hand_def hand_ok_def reads_def reader_of_def
        split: option.splits)
qed

subsection \<open>The writer\<close>

lemma take_kept [simp]: "writeLoop_take (kept s) = writeLoop_take (ln_conn s)"
  by (simp add: writeLoop_take_def)

lemma sim_wr_frame:
  assumes L: "linked y s a" and "ln_writer s = WrLoop" and "writeLoop_take (ln_conn s) \<noteq> []"
    and fb: "frame_batch (cn_flushed (ln_conn s)) (cn_lastProbe (ln_conn s)) (writeLoop_take (ln_conn s)) [] 0 0 (- 1)
       = Inr (buf, sent, n, pa)"
  shows "\<exists>a'. sys_step sb a a' \<and> linked y (s\<lparr>ln_writer := WrSend buf base sent n pa 0\<rparr>) a'"
  using L
proof (rule linkedE)
  fix rd b
  assume a: "a = view y s rd b" "s_cph y = CUp" "\<not> cn_readerDone (ln_conn s)" "writes (ln_writer s) b"
    "reads (s_sw y) (ln_reader s) rd" "hand_ok (ln_reader s) (cn_pending (ln_conn s))"
  let ?s = "s\<lparr>ln_writer := WrSend buf base sent n pa 0\<rparr>"
  have eq: "a\<lparr>s_wbuf := Some (buf, sent, n)\<rparr> = view y ?s rd (Some (buf, sent, n))"
    by (rule sys.equality) (simp_all add: a(1) view_def kept_def)
  have "sys_step sb a (view y ?s rd (Some (buf, sent, n)))"
    by (rule to_view [OF sys_step.cli_write_start [of a buf sent n pa] eq])
      (use assms(2-4) a(2,4) in \<open>simp_all add: a(1) writes_def\<close>)
  moreover have "linked y ?s (view y ?s rd (Some (buf, sent, n)))"
    using a by (intro linkedI) (simp_all add: writes_def)
  ultimately show ?thesis by blast
qed

lemma sim_wr_frames:
  assumes L: "linked y s a" and inv: "sys_inv sb co so a" and "ln_writer s = WrLoop"
  shows "frame_batch (cn_flushed (ln_conn s)) (cn_lastProbe (ln_conn s)) (writeLoop_take (ln_conn s)) [] 0 0 (- 1)
       \<noteq> Inl e"
  using L
proof (rule linkedE)
  fix rd b
  assume "a = view y s rd b" "s_cph y = CUp" "writes (ln_writer s) b"
  with step_cli_write_start [OF inv, of "Inl e"] assms(3) show ?thesis by (auto simp: writes_def)
qed

text \<open>A step that changes the \<^verbatim>\<open>Conn\<close> but not what is pending there.\<close>

lemma linked_conn:
  assumes L: "linked y s a" and pend: "cn_pending c' = cn_pending (ln_conn s)" "cn_readerDone c' = cn_readerDone (ln_conn s)"
    and wr: "\<And>b. writes (ln_writer s) b \<Longrightarrow> writes ph (nb b)" and step: "\<And>rd b. a = view y s rd b \<Longrightarrow> writes (ln_writer s) b \<Longrightarrow> s_cph a = CUp \<Longrightarrow>
      sys_step sb a (a\<lparr>s_cli := c'\<lparr>cn_pending := cn_pending (kept s)\<rparr>, s_wbuf := nb b, g_cout := q, g_cgot := g_cgot y @ g\<rparr>)"
    and s': "ln_conn s' = c'" "ln_reader s' = ln_reader s" "ln_writer s' = ph" "ln_queued s' = q" "ln_got s' = g"
  shows "\<exists>a'. sys_step sb a a' \<and> linked y s' a'"
  using L
proof (rule linkedE)
  fix rd b
  assume a: "a = view y s rd b" "s_cph y = CUp" "\<not> cn_readerDone (ln_conn s)" "writes (ln_writer s) b"
    "reads (s_sw y) (ln_reader s) rd" "hand_ok (ln_reader s) (cn_pending (ln_conn s))"
  have eq: "a\<lparr>s_cli := c'\<lparr>cn_pending := cn_pending (kept s)\<rparr>, s_wbuf := nb b, g_cout := q, g_cgot := g_cgot y @ g\<rparr>
      = view y s' rd (nb b)"
    by (rule sys.equality) (use s' pend in \<open>simp_all add: a(1) view_def kept_def\<close>)
  have "sys_step sb a (view y s' rd (nb b))" using step [OF a(1,4)] a(1,2) eq by simp
  moreover have "linked y s' (view y s' rd (nb b))"
    using a s' pend wr by (intro linkedI) simp_all
  ultimately show ?thesis by blast
qed

text \<open>Likewise, with the writer where it was: what the callers, the watcher and the signals do.\<close>

lemma linked_call:
  assumes L: "linked y s a" and pend: "cn_pending c' = cn_pending (ln_conn s)" "cn_readerDone c' = cn_readerDone (ln_conn s)"
    and step: "\<And>t. s_cli t = kept s \<Longrightarrow> s_cph t = CUp \<Longrightarrow> \<exists>t'. sys_step sb t t'
      \<and> t' = t\<lparr>s_cli := c'\<lparr>cn_pending := cn_pending (kept s)\<rparr>, g_cout := g_cout t @ qs, g_cgot := g_cgot t @ gs\<rparr>"
    and s': "ln_conn s' = c'" "ln_reader s' = ln_reader s" "ln_writer s' = ln_writer s"
      "ln_queued s' = ln_queued s @ qs" "ln_got s' = ln_got s @ gs"
  shows "\<exists>a'. sys_step sb a a' \<and> linked y s' a'"
proof (rule linked_conn [OF L pend, where ph = "ln_writer s" and nb = id])
  fix rd b assume a: "a = view y s rd b" "s_cph a = CUp"
  then have "sys_step sb a (a\<lparr>s_cli := c'\<lparr>cn_pending := cn_pending (kept s)\<rparr>, g_cout := g_cout a @ qs,
      g_cgot := g_cgot a @ gs\<rparr>)" using step [of a] by auto
  then show "sys_step sb a (a\<lparr>s_cli := c'\<lparr>cn_pending := cn_pending (kept s)\<rparr>, s_wbuf := id b,
      g_cout := ln_queued s @ qs, g_cgot := g_cgot y @ ln_got s @ gs\<rparr>)"
    by (rule to_view) (auto simp: a(1) view_def intro!: sys.equality)
qed (use s' in simp_all)

lemma sim_wr_wake:
  assumes L: "linked y s a"
  shows "\<exists>a'. sys_step sb a a' \<and> linked y (s\<lparr>ln_conn := (ln_conn s)\<lparr>cn_wake := False\<rparr>\<rparr>) a'"
proof (rule linked_call [OF L, where qs = "[]" and gs = "[]"])
  fix t :: sys assume t: "s_cli t = kept s" "s_cph t = CUp"
  show "\<exists>t'. sys_step sb t t' \<and> t' = t\<lparr>s_cli := (ln_conn s)\<lparr>cn_wake := False, cn_pending := cn_pending (kept s)\<rparr>,
      g_cout := g_cout t @ [], g_cgot := g_cgot t @ []\<rparr>"
    by (intro exI conjI, rule sys_step.cli_wake) (use t in \<open>auto simp: kept_def intro!: conn.equality\<close>)
qed simp_all

lemma sim_wr_commit:
  assumes L: "linked y s a" and wr: "ln_writer s = WrSend buf base sent n pa written" "\<not> written < length buf"
  shows "\<exists>a'. sys_step sb a a' \<and> linked y (s\<lparr>ln_conn := writeLoop_commit (ln_conn s) sent n, ln_writer := WrLoop\<rparr>) a'"
proof (rule linked_conn [OF L, where ph = WrLoop and nb = "\<lambda>_. None" and q = "ln_queued s" and g = "ln_got s"
      and c' = "writeLoop_commit (ln_conn s) sent n"])
  fix rd b assume a: "a = view y s rd b" "writes (ln_writer s) b" "s_cph a = CUp"
  then have "s_wbuf a = Some ([], sent, n)" using wr by (simp add: writes_def)
  from sys_step.cli_write_done [OF a(3) this]
  show "sys_step sb a (a\<lparr>s_cli := (writeLoop_commit (ln_conn s) sent n)\<lparr>cn_pending := cn_pending (kept s)\<rparr>,
      s_wbuf := None, g_cout := ln_queued s, g_cgot := g_cgot y @ ln_got s\<rparr>)"
    by (rule to_view) (auto simp: a(1) view_def kept_def aside_pending intro!: sys.equality)
qed (simp_all add: writes_def aside_pending writeLoop_commit_def releaseLocked_def Let_def)

lemma sim_wr_bytes:
  assumes L: "linked y s a" and wr: "ln_writer s = WrSend buf base sent n pa written"
    and xs: "drop written buf = xs @ ys" and ph: "writes ph (Some (ys, sent, n))"
    and s': "ln_conn s' = ln_conn s" "ln_reader s' = ln_reader s" "ln_writer s' = ph"
      "ln_queued s' = ln_queued s" "ln_got s' = ln_got s"
  shows "\<exists>a'. sys_step sb a a' \<and> linked (y\<lparr>s_cw := s_cw y @ xs\<rparr>) s' a'"
  using L
proof (rule linkedE)
  fix rd b
  assume a: "a = view y s rd b" "s_cph y = CUp" "\<not> cn_readerDone (ln_conn s)" "writes (ln_writer s) b"
    "reads (s_sw y) (ln_reader s) rd" "hand_ok (ln_reader s) (cn_pending (ln_conn s))"
  let ?y = "y\<lparr>s_cw := s_cw y @ xs\<rparr>" and ?b = "Some (ys, sent, n)"
  have b: "s_wbuf a = Some (xs @ ys, sent, n)" using a(1,4) wr xs by (simp add: writes_def)
  have eq: "a\<lparr>s_cw := s_cw a @ xs, s_wbuf := ?b\<rparr> = view ?y s' rd ?b"
    by (rule sys.equality) (use s' in \<open>simp_all add: a(1) view_def kept_def\<close>)
  have "sys_step sb a (view ?y s' rd ?b)"
    by (rule to_view [OF sys_step.cli_write_bytes [OF _ b] eq]) (simp add: a)
  moreover have "linked ?y s' (view ?y s' rd ?b)"
    using a s' ph by (intro linkedI) simp_all
  ultimately show ?thesis by blast
qed

subsection \<open>The watcher and the callers\<close>

lemma probe_counted:
  "ring_next (cn_ring (probeOnce sb c)) = ring_next (cn_ring c) \<longleftrightarrow> cn_flushed c \<le> cn_lastProbe c"
  by (auto simp: probeOnce_def enqueueLocked_def ring_push_def ring_next_def split: prod.splits)

lemma watch_pass_probe:
  assumes "watch_pass sb c l probed ev = (c', l', Inr probed')"
  shows "c' = c \<or> c' = probeOnce sb c \<and> watch_pass sb c l False WatchTimer = (c', l', Inr True)"
  using assms by (auto simp: watch_pass_def split: watch_event.splits if_splits)

lemma sim_watch_on:
  assumes L: "linked y s a" and w: "watch_pass sb (ln_conn s) (ln_link s) probed ev = (c', l', Inr probed')"
    and s': "s' = s\<lparr>ln_conn := c', ln_link := l', ln_watch := Some probed',
       ln_queued := ln_queued s @ (if ring_next (cn_ring c') = ring_next (cn_ring (ln_conn s))
                                   then [] else [cn_probe (ln_conn s)])\<rparr>"
  shows "\<exists>a'. (sys_step sb)\<^sup>*\<^sup>* a a' \<and> linked y s' a'"
  using watch_pass_probe [OF w]
proof
  assume "c' = ln_conn s"
  then have "linked y s' a" by (intro linked_same [OF L]) (use L in \<open>auto simp: s' linked_def\<close>)
  then show ?thesis by blast
next
  assume p: "c' = probeOnce sb (ln_conn s) \<and> watch_pass sb (ln_conn s) (ln_link s) False WatchTimer = (c', l', Inr True)"
  then have timer: "watch_pass sb (kept s) (ln_link s) False WatchTimer
      = (c'\<lparr>cn_pending := cn_pending (kept s)\<rparr>, l', Inr True)"
    by (auto simp: watch_pass_def sealedNone_def kept_def aside_pending split: if_splits)
  let ?qs = "if ring_next (cn_ring c') = ring_next (cn_ring (ln_conn s)) then [] else [cn_probe (ln_conn s)]"
  have "\<exists>a'. sys_step sb a a' \<and> linked y s' a'"
  proof (rule linked_call [OF L, where c' = c' and qs = ?qs and gs = "[]"])
    fix t :: sys assume t: "s_cli t = kept s" "s_cph t = CUp"
    show "\<exists>t'. sys_step sb t t' \<and> t' = t\<lparr>s_cli := c'\<lparr>cn_pending := cn_pending (kept s)\<rparr>,
        g_cout := g_cout t @ ?qs, g_cgot := g_cgot t @ []\<rparr>"
      by (intro exI conjI, rule sys_step.cli_probe [OF t(2) timer [folded t(1)]]) (use p t in \<open>simp add: probe_counted\<close>)
  qed (use p in \<open>simp_all add: s' aside_pending probeOnce_def enqueueLocked_eq Let_def\<close>)
  then show ?thesis by blast
qed

lemma sim_caller:
  assumes L: "linked y s a" and step: "caller_step sb s s'"
  shows "\<exists>a'. sys_step sb a a' \<and> linked y s' a'"
proof -
  have live: "\<not> cn_readerDone (ln_conn s)" using L by (simp add: linked_def)
  have k: "kept s = (ln_conn s)\<lparr>cn_pending := cn_pending (kept s)\<rparr>" by (simp add: kept_def)
  from step show ?thesis
  proof cases
    case (call_write ctx p c')
    note w = aside_pending(1) [OF call_write(3), of "cn_pending (kept s)", folded k]
    have e: "WritePacket_enter None p = None" using call_write(2) by (simp add: WritePacket_enter_def split: if_splits)
    show ?thesis
      by (rule linked_call [OF L, where c' = c' and qs = "[p]" and gs = "[]"])
        (use call_write w e sys_step.cli_write [OF e] in \<open>auto simp: WritePacket_pass_def enqueueLocked_eq Let_def
          split: option.splits if_splits\<close>)
  next
    case (call_space c')
    note w = aside_pending(2) [OF call_space(2), of "cn_pending (kept s)", folded k]
    show ?thesis
      by (rule linked_call [OF L, where c' = c' and qs = "[]" and gs = "[]"])
        (use call_space w sys_step.cli_space in \<open>auto simp: WritePacket_wait_def\<close>)
  next
    case (call_read ctx ch c' p)
    note w = aside_pending(3) [OF live call_read(2), of "cn_pending (kept s)", folded k]
    show ?thesis
      by (rule linked_call [OF L, where c' = c' and qs = "[]" and gs = "[p]"])
        (use call_read w live sys_step.cli_read [of ctx ch] in
          \<open>auto simp: ReadPacket_def split: read_choice.splits list.splits option.splits if_splits\<close>)
  next
    case call_close
    note w = aside_pending(4) [of "cn_pending (kept s)" "ln_conn s" errClosed, folded k]
    have "sys_step sb t (t\<lparr>s_cli := (conn_cancel (ln_conn s) errClosed)\<lparr>cn_pending := cn_pending (kept s)\<rparr>\<rparr>)"
      if "s_cli t = kept s" for t :: sys using sys_step.cli_cancel [of sb t] that w by simp
    then show ?thesis
      by (intro linked_call [OF L, where c' = "conn_cancel (ln_conn s) errClosed" and qs = "[]" and gs = "[]"])
        (use call_close in auto)
  qed
qed

subsection \<open>A step of \<^verbatim>\<open>runLink\<close>\<close>

lemma after_link_same:
  "taken (ln_reader s) (ln_reader s') = 0 \<Longrightarrow> ln_wire s' = ln_wire s \<Longrightarrow> after_link y s s' = y"
  by (simp add: after_link_def)

lemma taken_none [simp]:
  "taken ph ph = 0" "taken ph (close_reads j ph) = 0" "taken ph (RdLoop rd) = 0" "taken ph RdDone = 0"
  "taken (RdHand rd p old) ph = 0"
  by (simp_all add: taken_def close_reads_def split: link_reader_phase.splits)

lemma sim_cut:
  assumes "linked y s a"
  shows "linked y (s\<lparr>ln_closed := True, ln_reader := close_reads j (ln_reader s)\<rparr>) a"
proof (rule linked_same [OF assms])
  have "hand_ok (ln_reader s) (cn_pending (ln_conn s))" using assms by (simp add: linked_def)
  then show "hand_ok (ln_reader (s\<lparr>ln_closed := True, ln_reader := close_reads j (ln_reader s)\<rparr>))
      (cn_pending (ln_conn s))"
    by (cases "ln_reader s") (simp_all add: close_reads_def hand_ok_def)
  fix rd assume "reads (s_sw y) (ln_reader s) rd"
  moreover have "\<exists>z. w @ x = take j w @ z" for w x :: bytes by (metis append.assoc append_take_drop_id)
  ultimately show "reads (s_sw y) (ln_reader (s\<lparr>ln_closed := True, ln_reader := close_reads j (ln_reader s)\<rparr>)) rd"
    by (cases "ln_reader s") (auto simp: reads_def reader_of_def close_reads_def cut_stream_def)
qed (simp_all add: close_reads_def in_hand_def split: link_reader_phase.splits)

lemma sim_rd_begin:
  assumes L: "linked y s a" and rd: "ln_reader s = RdLoop rd"
    and p: "reader_begin sb (ln_conn s) (ln_link s) rd = (c', l', rd', Inr (p, old))"
    and s': "s' = s\<lparr>ln_conn := c', ln_link := l2, ln_reader := RdHand rd' p old\<rparr>"
  shows "\<exists>a'. (sys_step sb)\<^sup>*\<^sup>* a a' \<and> linked (after_link y s s') s' a'"
proof (cases "cn_pending (ln_conn s)")
  case (Cons q qs)
  with p have "c' = ln_conn s" "rd' = rd" "old" "p = q" by (auto simp: reader_pending)
  with sim_rd_pending [OF L rd Cons, of l2] rd s'
  have "linked (after_link y s s') s' a" by (simp add: after_link_def taken_def)
  then show ?thesis by blast
next
  case Nil
  then have "\<not> old" using reader_begin_effect(8) [OF p] by (auto split: if_splits)
  with p sim_rd_open [OF L rd Nil, of sb c' l' rd' p _ l2, OF _ refl] rd s'
  obtain a' where "sys_step sb a a'" "linked (after_link y s s') s' a'"
    by (auto simp: after_link_def taken_def)
  then show ?thesis by blast
qed

text \<open>Steps that move a goroutine and nothing else.\<close>

lemma sim_moved:
  assumes L: "linked y s a" and "ln_conn s' = ln_conn s" and "ln_queued s' = ln_queued s" and "ln_got s' = ln_got s"
    and "ln_reader s' = ln_reader s" and "ln_writer s' = ln_writer s \<or> ln_writer s' = WrDone" and "ln_wire s' = ln_wire s"
  shows "\<exists>a'. (sys_step sb)\<^sup>*\<^sup>* a a' \<and> linked (after_link y s s') s' a'"
proof -
  have "linked y s' a"
    by (rule linked_same [OF L]) (use assms in \<open>auto simp: linked_def writes_def\<close>)
  then show ?thesis using assms(5,7) by (auto simp: after_link_same)
qed

lemma sim_link:
  assumes sb: "secretbox_laws sb" and L: "linked y s a" and inv: "sys_inv sb co so a" and step: "link_step sb s s'"
  shows "\<exists>a'. (sys_step sb)\<^sup>*\<^sup>* a a' \<and> linked (after_link y s s') s' a'"
  using step
proof cases
  case parent_done
  then show ?thesis using sim_moved [OF L] by simp
next
  case (after_func e j)
  then have "linked (after_link y s s') s' a" using sim_cut [OF L, of j] by (simp add: after_link_same)
  then show ?thesis by blast
next
  case rd_begin
  then show ?thesis using sim_rd_begin [OF L] by simp
next
  case (rd_fail rd c' l' rd' e)
  then have "linked (after_link y s s') s' a"
    using sim_rd_fail [OF sb L inv rd_fail(2,3)] by (simp add: after_link_same)
  then show ?thesis by blast
next
  case (rd_handed rd p old c' l')
  from sim_rd_handed [OF L rd_handed(2,3), of sb] rd_handed show ?thesis by (auto simp: after_link_same)
next
  case (rd_left rd p old e c' l')
  then have "linked (after_link y s s') s' a"
    using sim_rd_left [OF L rd_left(2,4)] by (simp add: after_link_same)
  then show ?thesis by blast
next
  case (wr_frame buf sent n pa)
  from sim_wr_frame [OF L wr_frame(2-4), where sb = sb and base = "cn_flushed (ln_conn s)"] wr_frame(1) show ?thesis by (auto simp: after_link_same)
next
  case (wr_corrupt e)
  with sim_wr_frames [OF L inv] show ?thesis by blast
next
  case wr_wake
  from sim_wr_wake [OF L, of sb] wr_wake(1) show ?thesis by (auto simp: after_link_same)
next
  case wr_ctx
  then show ?thesis using sim_moved [OF L] by simp
next
  case (wr_piece buf base sent n pa written written')
  note np = next_piece_drop [OF wr_piece(3)]
  from sim_wr_bytes [OF L wr_piece(2) np, where sb = sb and ph = "ln_writer s'" and s' = s'] wr_piece
  show ?thesis by (auto simp: after_link_def writes_def)
next
  case (wr_fail buf base sent n pa written m oe)
  have "drop written buf = take m (next_piece buf written) @ drop m (next_piece buf written)
      @ drop (written + length (next_piece buf written)) buf"
    using next_piece_drop [OF wr_fail(3)] by (metis append.assoc append_take_drop_id)
  from sim_wr_bytes [OF L wr_fail(2) this, where sb = sb and ph = "ln_writer s'" and s' = s'] wr_fail(1)
  show ?thesis by (auto simp: after_link_def writes_def)
next
  case (wr_commit buf base sent n pa written)
  from sim_wr_commit [OF L wr_commit(2,3), of sb] wr_commit(1) show ?thesis by (auto simp: after_link_same)
next
  case (watch_on probed ev c' l' probed')
  from sim_watch_on [OF L watch_on(4) watch_on(1)] watch_on(1) show ?thesis by (simp add: after_link_same)
next
  case (watch_dead probed ev c' l' e)
  then have "c' = ln_conn s" by (auto simp: watch_pass_def split: watch_event.splits if_splits)
  with watch_dead(1) show ?thesis using sim_moved [OF L] by simp
qed

subsection \<open>The server, and the end and the start of a link\<close>

text \<open>The server's steps do not depend on the client, and during a link they only add to it.\<close>

lemma srv_step_to: "srv_step sb t u \<Longrightarrow> u = u' \<Longrightarrow> srv_step sb t u'"
  by simp

lemma srv_step_view:
  assumes "srv_step sb y y'"
  shows "srv_step sb (view y s rd b) (view y' s rd b)"
  using assms
proof cases
  case srv_send then show ?thesis by - (rule srv_step_to [OF srv_step.srv_send]; auto simp: view_def intro!: sys.equality)
next
  case srv_recv then show ?thesis by - (rule srv_step_to [OF srv_step.srv_recv]; auto simp: view_def intro!: sys.equality)
next
  case srv_end then show ?thesis by - (rule srv_step_to [OF srv_step.srv_end]; auto simp: view_def intro!: sys.equality)
next
  case srv_echo then show ?thesis by - (rule srv_step_to [OF srv_step.srv_echo]; auto simp: view_def intro!: sys.equality)
next
  case srv_write_start then show ?thesis by - (rule srv_step_to [OF srv_step.srv_write_start]; auto simp: view_def intro!: sys.equality)
next
  case srv_write_bytes then show ?thesis by - (rule srv_step_to [OF srv_step.srv_write_bytes]; auto simp: view_def intro!: sys.equality)
next
  case srv_write_done then show ?thesis by - (rule srv_step_to [OF srv_step.srv_write_done]; auto simp: view_def intro!: sys.equality)
next
  case srv_reader then show ?thesis by - (rule srv_step_to [OF srv_step.srv_reader]; auto simp: view_def intro!: sys.equality)
next
  case srv_reader_end then show ?thesis by - (rule srv_step_to [OF srv_step.srv_reader_end]; auto simp: view_def intro!: sys.equality)
next
  case srv_down then show ?thesis by - (rule srv_step_to [OF srv_step.srv_down]; auto simp: view_def intro!: sys.equality)
next
  case srv_seq then show ?thesis by - (rule srv_step_to [OF srv_step.srv_seq]; auto simp: view_def intro!: sys.equality)
next
  case srv_snap then show ?thesis by - (rule srv_step_to [OF srv_step.srv_snap]; auto simp: view_def intro!: sys.equality)
next
  case srv_accept then show ?thesis by - (rule srv_step_to [OF srv_step.srv_accept]; auto simp: view_def intro!: sys.equality)
next
  case srv_accept_fail then show ?thesis by - (rule srv_step_to [OF srv_step.srv_accept_fail]; auto simp: view_def intro!: sys.equality)
qed

lemma srv_step_keeps:
  assumes "srv_step sb y y'" and "s_sph y \<noteq> SSeq"
  shows "s_cph y' = s_cph y" and "g_cgot y' = g_cgot y" and "\<exists>xs. s_sw y' = s_sw y @ xs"
  using assms by (cases; simp)+

lemma sim_peer:
  assumes L: "linked y s a" and inv: "sys_inv sb co so a" and step: "srv_step sb y y'"
  shows "\<exists>a'. sys_step sb a a' \<and> linked y' s a'"
  using L
proof (rule linkedE)
  fix rd b
  assume a: "a = view y s rd b" "s_cph y = CUp" "\<not> cn_readerDone (ln_conn s)" "writes (ln_writer s) b"
    "reads (s_sw y) (ln_reader s) rd" "hand_ok (ln_reader s) (cn_pending (ln_conn s))"
  have "s_sph y \<noteq> SSeq" using inv a(2) by (auto simp: a(1) sys_inv_def shake_def)
  note k = srv_step_keeps [OF step this]
  have "sys_step sb a (view y' s rd b)" unfolding a(1) by (rule sys_step.server [OF srv_step_view [OF step]])
  moreover have "reads (s_sw y') (ln_reader s) rd" using a(5) k(3) by (auto simp: reads_def)
  then have "linked y' s (view y' s rd b)" using a k(1) by (intro linkedI) simp_all
  ultimately show ?thesis by blast
qed

lemma sim_returned:
  assumes L: "linked y s a" and j: "runLink_joined s"
  shows "sys_step sb a (link_over y (fst (runLink_return s)))"
  using L
proof (rule linkedE)
  fix rd b assume a: "a = view y s rd b"
  have "kept s = ln_conn s" using j by (simp add: kept_def runLink_joined_def in_hand_def)
  then show ?thesis
    by (intro to_view [OF sys_step.cli_down])
      (auto simp: a view_def link_over_def runLink_return_def intro!: sys.equality)
qed

lemma link_of_linked:
  assumes "s_cph y = CUp" and "\<not> cn_readerDone (s_cli y)" and "s_wbuf y = None" and "\<not> rd_released (s_rd y)"
  shows "linked y (link_of y) y"
proof (rule linkedI [where rd = "s_rd y" and b = None])
  show "y = view y (link_of y) (s_rd y) None"
    using assms(3) by (intro sys.equality) (simp_all add: view_def link_of_def runLink_start_def kept_def in_hand_def)
qed (use assms in \<open>simp_all add: link_of_def runLink_start_def hand_ok_def reads_def reader_of_def newLinkReader_def
  writes_def\<close>)

text \<open>A \<^verbatim>\<open>Conn\<close> whose reader is done for good has a cause and no link.\<close>

definition sys_open :: "sys \<Rightarrow> bool" where
  "sys_open y \<longleftrightarrow> (s_cph y \<noteq> CDown \<longrightarrow> \<not> cn_readerDone (s_cli y))
     \<and> (cn_readerDone (s_cli y) \<longrightarrow> cn_cause (s_cli y) \<noteq> None)"

lemma srv_step_client: "srv_step sb y y' \<Longrightarrow> s_cli y' = s_cli y \<and> s_cph y' = s_cph y"
  by (erule srv_step.cases) simp_all

lemma sys_open_step:
  assumes "sys_open y" and "sys_step sb y y'"
  shows "sys_open y'"
  using assms(2)
proof cases
  case (cli_open l c' l' rd' p)
  then show ?thesis using assms(1) reader_begin_effect(5) [OF cli_open(3)] by (simp add: sys_open_def)
next
  case (cli_reader_fail l c' l' rd' e)
  then show ?thesis using assms(1) reader_begin_effect(5) [OF cli_reader_fail(3)] by (simp add: sys_open_def)
next
  case server
  then show ?thesis using assms(1) srv_step_client by (simp add: sys_open_def)
qed (use assms(1) in \<open>auto simp: sys_open_def WritePacket_pass_def enqueueLocked_eq watch_pass_def probeOnce_def
    ReadPacket_def WritePacket_wait_def conn_Close_def conn_cancel_def conn_fail_def writeLoop_commit_def
    releaseLocked_def handOver_def recover_commit_def Let_def
    split: option.splits if_splits list.splits read_choice.splits prod.splits\<close>)

lemma sys_open_start: "session_start key y \<Longrightarrow> sys_open y \<and> s_cph y = CUp \<and> s_wbuf y = None \<and> \<not> rd_released (s_rd y)"
  by (auto simp: session_start_def sys_start_def newConn_def sys_open_def no_reader_def newLinkReader_def Let_def
      split: if_splits option.splits)

lemma link_starts:
  assumes "sys_step sb y y'" and "s_cph y \<noteq> CUp" and "s_cph y' = CUp"
  shows "s_wbuf y' = None \<and> \<not> rd_released (s_rd y')"
  using assms by cases (auto simp: newLinkReader_def dest: srv_step_client)

lemma live_sim:
  assumes sb: "secretbox_laws sb" and R: "live_rel v a" and inv: "sys_inv sb co so a" "sys_open a"
    and step: "live_step sb v v'"
  shows "\<exists>a'. (sys_step sb)\<^sup>*\<^sup>* a a' \<and> live_rel v' a'"
  using step
proof cases
  case (goroutine s e f s')
  then have "linked (lv_sys v) f a" using R linked_feed by (simp add: live_rel_def)
  from sim_link [OF sb this inv(1) goroutine(5)] goroutine(1) show ?thesis by (simp add: live_rel_def)
next
  case (caller s s')
  then have "linked (lv_sys v) s a" using R by (simp add: live_rel_def)
  from sim_caller [OF this caller(3)] caller(1) show ?thesis by (auto simp: live_rel_def)
next
  case (peer s y')
  then have "linked (lv_sys v) s a" using R by (simp add: live_rel_def)
  from sim_peer [OF this inv(1) peer(3)] peer(1,2) show ?thesis by (auto simp: live_rel_def)
next
  case (returned s)
  then have "linked (lv_sys v) s a" using R by (simp add: live_rel_def)
  from sim_returned [OF this returned(3)] returned(1) show ?thesis by (auto simp: live_rel_def link_over_def)
next
  case (between y')
  then have "sys_step sb a y'" using R by (simp add: live_rel_def)
  with between show ?thesis by (auto simp: live_rel_def)
next
  case (new_link y')
  then have s: "sys_step sb a y'" "s_cph a \<noteq> CUp" using R by (simp_all add: live_rel_def)
  have "\<not> cn_readerDone (s_cli y')" using sys_open_step [OF inv(2) s(1)] new_link(4) by (simp add: sys_open_def)
  with link_starts [OF s new_link(4)] have "linked y' (link_of y') y'" by (intro link_of_linked new_link(4)) simp_all
  with s(1) new_link(1) show ?thesis by (auto simp: live_rel_def)
qed

interpretation detailed: simulation "session_start key" "sys_step sb" "\<lambda>y. session_inv sb key y \<and> sys_open y"
    "live_start key" "live_step sb" "\<lambda>v a. secretbox_laws sb \<longrightarrow> live_rel v a" for key sb
proof
  fix y assume "session_start key y"
  then show "session_inv sb key y \<and> sys_open y" using session.inv_start sys_open_start by blast
next
  fix y y' assume "session_inv sb key y \<and> sys_open y" and "sys_step sb y y'"
  then show "session_inv sb key y' \<and> sys_open y'" using session.inv_step sys_open_step by blast
next
  fix v assume "live_start key v"
  then obtain y where y: "session_start key y" "v = \<lparr>lv_sys = y, lv_run = Some (link_of y)\<rparr>"
    by (auto simp: live_start_def)
  have "linked y (link_of y) y"
    using sys_open_start [OF y(1)] by (intro link_of_linked) (auto simp: sys_open_def)
  with y show "\<exists>a. session_start key a \<and> (secretbox_laws sb \<longrightarrow> live_rel v a)" by (auto simp: live_rel_def)
next
  fix v a v'
  assume "secretbox_laws sb \<longrightarrow> live_rel v a" and "session_inv sb key a \<and> sys_open a" and "live_step sb v v'"
  then show "\<exists>a'. (sys_step sb)\<^sup>*\<^sup>* a a' \<and> (secretbox_laws sb \<longrightarrow> live_rel v' a')"
    using live_sim unfolding session_inv_def by blast
qed

lemma live_reachable_view:
  assumes "secretbox_laws sb" and "live_reachable sb key v"
  shows "\<exists>a. reachable sb key a \<and> live_rel v a"
  using detailed.sim_reachable [of key _ sb v] assms unfolding live_reachable_def reachable_def by blast

section \<open>Properties\<close>

text \<open>What the callers of the \<^verbatim>\<open>Conn\<close> have queued and been given, and what it holds for them.\<close>

definition live_queued :: "live \<Rightarrow> packet list" where
  "live_queued v = (case lv_run v of None \<Rightarrow> g_cout (lv_sys v) | Some s \<Rightarrow> ln_queued s)"

definition live_got :: "live \<Rightarrow> packet list" where
  "live_got v = g_cgot (lv_sys v) @ (case lv_run v of None \<Rightarrow> [] | Some s \<Rightarrow> ln_got s)"

definition live_conn :: "live \<Rightarrow> conn" where
  "live_conn v = (case lv_run v of None \<Rightarrow> s_cli (lv_sys v) | Some s \<Rightarrow> ln_conn s)"

definition live_held :: "live \<Rightarrow> packet list" where
  "live_held v = cn_inbox (live_conn v) @ cn_pending (live_conn v)
     @ (case lv_run v of None \<Rightarrow> [] | Some s \<Rightarrow> in_hand (ln_reader s))"

lemma live_rel_shows:
  assumes "live_rel v a"
  shows "g_cout a = live_queued v" and "g_cgot a = live_got v" and "g_sout a = g_sout (lv_sys v)"
    and "g_sgot a = g_sgot (lv_sys v)" and "cn_inbox (s_cli a) @ cn_pending (s_cli a) = live_held v"
    and "cn_cause (s_cli a) = cn_cause (live_conn v)" and "cn_recvSeq (s_cli a) = cn_recvSeq (live_conn v)"
    and "cn_ring (s_cli a) = cn_ring (live_conn v)" and "s_srv a = s_srv (lv_sys v)"
    and "cn_unsent (s_cli a) = cn_unsent (live_conn v)" and "cn_inbox (s_cli a) = cn_inbox (live_conn v)"
  using assms
  by (auto simp: live_rel_def linked_def live_queued_def live_got_def live_held_def live_conn_def view_def kept_def
      split: option.splits)

text \<open>A session for the witnesses: one packet written while the first link runs.\<close>

lemma demo_live:
  "\<exists>v. live_reachable demo_box demo_key v \<and> live_queued v = [demo_packet] \<and> lv_run v \<noteq> None"
proof -
  obtain y where y: "sys_start demo_dialer [] [] demo_key = Some y" "s_cph y = CUp" "cn_cause (s_cli y) = None"
    "cn_unsent (s_cli y) = 0" "g_cout y = []" "0 \<le> rg_limit (cn_ring (s_cli y))"
    using demo_start by blast
  let ?v = "\<lparr>lv_sys = y, lv_run = Some (link_of y)\<rparr>"
  have start: "live_start demo_key ?v" using y(1) by (auto simp: live_start_def session_start_def)
  obtain c' where c': "WritePacket_pass demo_box (ln_conn (link_of y)) demo_packet = (c', Queued)"
    using y by (auto simp: link_of_def runLink_start_def WritePacket_pass_def enqueueLocked_eq Let_def)
  have "WritePacket_enter None demo_packet = None"
    by (simp add: WritePacket_enter_def demo_packet_def maxPayload_def MaxFrameSize_def secretbox_Overhead_def)
  from live_step.caller [of ?v, OF _ caller_step.call_write [OF this c']]
  have "live_step demo_box ?v (?v\<lparr>lv_run := Some ((link_of y)\<lparr>ln_conn := c', ln_queued := ln_queued (link_of y) @ [demo_packet]\<rparr>)\<rparr>)"
    (is "live_step demo_box ?v ?w") by simp
  then have "live_reachable demo_box demo_key ?w" using start by (auto simp: live_reachable_def)
  moreover have "live_queued ?w = [demo_packet]" using y(5) by (simp add: live_queued_def link_of_def runLink_start_def)
  ultimately show ?thesis by (intro exI [of _ ?w]) simp
qed

text \<open>
  C3. The goroutines of \<^verbatim>\<open>runLink\<close> refine the session: every state the program can come to with
  reader, writer, watcher, callers, server and network interleaved at their blocking points is a
  view of a reachable state of the session model, in which the reader's pass is one step to open a
  packet and one to hand it over and the link ends at once. In particular the two agree on what was
  queued and delivered at both ends, and on the \<^verbatim>\<open>Conn\<close>'s ring, counters and cause.
\<close>

theorem goroutines_refine_session:
  assumes "secretbox_laws sb" and "live_reachable sb key v"
  shows "\<exists>a. reachable sb key a \<and> live_rel v a \<and> g_cout a = live_queued v \<and> g_cgot a = live_got v
    \<and> g_sout a = g_sout (lv_sys v) \<and> g_sgot a = g_sgot (lv_sys v) \<and> s_srv a = s_srv (lv_sys v)
    \<and> cn_ring (s_cli a) = cn_ring (live_conn v) \<and> cn_recvSeq (s_cli a) = cn_recvSeq (live_conn v)
    \<and> cn_cause (s_cli a) = cn_cause (live_conn v)"
  using live_reachable_view [OF assms] live_rel_shows by blast

theorem goroutines_refine_session_witness:
  "\<exists>v a. live_reachable demo_box demo_key v \<and> lv_run v \<noteq> None \<and> reachable demo_box demo_key a
     \<and> live_rel v a \<and> g_cout a = [demo_packet]"
proof -
  obtain v where v: "live_reachable demo_box demo_key v" "live_queued v = [demo_packet]" "lv_run v \<noteq> None"
    using demo_live by blast
  from goroutines_refine_session [OF demo_box_laws v(1)] v show ?thesis by metis
qed

text \<open>
  C1. Exactly once and in order, whatever the scheduler does: with the goroutines of a link
  interleaved with everything else, what the server's \<^verbatim>\<open>Recv\<close> returned is a prefix of what was queued,
  and what \<^verbatim>\<open>ReadPacket\<close> returned, followed by what the inbox, the kept packets and the reader's hand
  hold, is exactly the first packets the server queued, as many as the \<^verbatim>\<open>Conn\<close> has counted; and nothing but
  its own \<^verbatim>\<open>Close\<close> ends the session.
\<close>

theorem goroutines_deliver_in_order:
  assumes "secretbox_laws sb" and "live_reachable sb key v"
  shows "(\<exists>rest. live_queued v = g_sgot (lv_sys v) @ rest)
    \<and> live_got v @ live_held v = take (nat (cn_recvSeq (live_conn v))) (g_sout (lv_sys v))
    \<and> (cn_cause (live_conn v) = None \<or> cn_cause (live_conn v) = Some errClosed)"
proof -
  obtain a where a: "reachable sb key a" "live_rel v a" using live_reachable_view [OF assms] by blast
  from reachable_inv [OF assms(1) a(1)]
  have "in_ok (stream0 key ServerToClient) (g_sout a) (g_cgot a) (s_cli a)" by (simp add: sys_inv_def)
  with delivered_prefix(1) [OF assms(1) a(1)] live_rel_shows [OF a(2)] show ?thesis
    by (auto simp: in_ok_def simp flip: append_assoc)
qed

theorem goroutines_deliver_in_order_witness:
  "\<exists>v. live_reachable demo_box demo_key v \<and> live_queued v = [demo_packet]
     \<and> live_got v @ live_held v = take (nat (cn_recvSeq (live_conn v))) (g_sout (lv_sys v))"
proof -
  obtain v where v: "live_reachable demo_box demo_key v" "live_queued v = [demo_packet]" using demo_live by blast
  from goroutines_deliver_in_order [OF demo_box_laws v(1)] v show ?thesis by blast
qed

text \<open>
  C11. Memory: in every state the program can come to, the replay ring holds at most three times the
  replay limit plus two packets (one that took the backlog over, one probe), at most the limit of
  written packets outside a hold, and the inbox at most 64 packets.
\<close>

theorem client_memory_bound:
  assumes "secretbox_laws sb" and "live_reachable sb key v"
  shows "rg_bytes (cn_ring (live_conn v)) \<le> 3 * rg_limit (cn_ring (live_conn v)) + 2 * int MaxFrameSize
    \<and> (\<not> rg_held (cn_ring (live_conn v)) \<longrightarrow>
        rg_bytes (cn_ring (live_conn v)) - cn_unsent (live_conn v) \<le> rg_limit (cn_ring (live_conn v)))
    \<and> length (cn_inbox (live_conn v)) \<le> inboxSize"
proof -
  obtain a where a: "reachable sb key a" "live_rel v a" using live_reachable_view [OF assms] by blast
  show ?thesis using reachable_memory [OF assms(1) a(1)] live_rel_shows [OF a(2)] by simp
qed

theorem client_memory_bound_witness:
  "\<exists>v. live_reachable demo_box demo_key v \<and> live_queued v = [demo_packet]
     \<and> rg_bytes (cn_ring (live_conn v)) \<le> 3 * rg_limit (cn_ring (live_conn v)) + 2 * int MaxFrameSize"
proof -
  obtain v where v: "live_reachable demo_box demo_key v" "live_queued v = [demo_packet]" using demo_live by blast
  from client_memory_bound [OF demo_box_laws v(1)] v show ?thesis by blast
qed

end
