(* ===== verification/ET_Text.thy ===== *)
theory ET_Text
  imports ET_Prelude
begin

text \<open>
  File \<^verbatim>\<open>internal/console/utf16.go\<close>: the streaming converters between the console's UTF-16 and
  the session's UTF-8, and \<^verbatim>\<open>chunkLen\<close>. The parts of \<^verbatim>\<open>unicode/utf8\<close> and \<^verbatim>\<open>unicode/utf16\<close> they
  call are modelled first; a rune is a natural number (none of these calls makes a negative
  one). The converters are compared with a reference that reads the whole stream at once: what
  comes out does not depend on how the stream was cut into reads or packets.
\<close>

section \<open>The standard library's UTF-8 and UTF-16\<close>

type_synonym rune = nat
type_synonym code_unit = "16 word"

definition RuneError :: rune where "RuneError = 65533"
definition UTFMax :: nat where "UTFMax = 4"

text \<open>
  The class of a first byte: the length of its sequence and the range of the second byte. An
  invalid first byte counts as a sequence of one byte and has no range.
\<close>

definition utf8_first :: "byte \<Rightarrow> nat \<times> nat \<times> nat" where
  "utf8_first b =
     (let n = unat b in
      if n < 128 then (1, 0, 255)
      else if n < 194 then (1, 1, 0)
      else if n < 224 then (2, 128, 191)
      else if n = 224 then (3, 160, 191)
      else if n = 237 then (3, 128, 159)
      else if n < 240 then (3, 128, 191)
      else if n = 240 then (4, 144, 191)
      else if n < 244 then (4, 128, 191)
      else if n = 244 then (4, 128, 143)
      else (1, 1, 0))"

definition in_range :: "nat \<Rightarrow> nat \<Rightarrow> byte \<Rightarrow> bool" where
  "in_range lo hi b = (lo \<le> unat b \<and> unat b \<le> hi)"

definition utf8_FullRune :: "bytes \<Rightarrow> bool" where
  "utf8_FullRune p =
     (case p of
        [] \<Rightarrow> False
      | b0 # r \<Rightarrow>
          (case utf8_first b0 of (sz, lo, hi) \<Rightarrow>
             sz \<le> length p \<or> (r \<noteq> [] \<and> \<not> in_range lo hi (r ! 0))
             \<or> (2 \<le> length r \<and> \<not> in_range 128 191 (r ! 1))))"

text \<open>
  \<^verbatim>\<open>utf8.DecodeRune\<close>: an invalid first byte (its accept range is empty) and every failed check
  give \<^verbatim>\<open>RuneError\<close> of width one.
\<close>

definition utf8_DecodeRune :: "bytes \<Rightarrow> rune \<times> nat" where
  "utf8_DecodeRune p =
     (case p of
        [] \<Rightarrow> (RuneError, 0)
      | b0 # r \<Rightarrow>
          (case utf8_first b0 of (sz, lo, hi) \<Rightarrow>
             if sz = 1 then (if hi < lo then (RuneError, 1) else (unat b0, 1))
             else if length p < sz then (RuneError, 1)
             else if \<not> in_range lo hi (r ! 0) then (RuneError, 1)
             else if sz = 2 then (unat b0 mod 32 * 64 + unat (r ! 0) mod 64, 2)
             else if \<not> in_range 128 191 (r ! 1) then (RuneError, 1)
             else if sz = 3 then
               (unat b0 mod 16 * 4096 + unat (r ! 0) mod 64 * 64 + unat (r ! 1) mod 64, 3)
             else if \<not> in_range 128 191 (r ! 2) then (RuneError, 1)
             else (unat b0 mod 8 * 262144 + unat (r ! 0) mod 64 * 4096
                     + unat (r ! 1) mod 64 * 64 + unat (r ! 2) mod 64, 4)))"

definition scalar_value :: "rune \<Rightarrow> bool" where
  "scalar_value r = (r < 55296 \<or> (57344 \<le> r \<and> r < 1114112))"

definition utf8_encode :: "rune \<Rightarrow> bytes" where
  "utf8_encode r =
     (if r < 128 then [of_nat r]
      else if r < 2048 then [of_nat (192 + r div 64), of_nat (128 + r mod 64)]
      else if r < 65536 then
        [of_nat (224 + r div 4096), of_nat (128 + r div 64 mod 64), of_nat (128 + r mod 64)]
      else [of_nat (240 + r div 262144), of_nat (128 + r div 4096 mod 64),
            of_nat (128 + r div 64 mod 64), of_nat (128 + r mod 64)])"

definition utf8_AppendRune :: "bytes \<Rightarrow> rune \<Rightarrow> bytes" where
  "utf8_AppendRune p r = p @ utf8_encode (if scalar_value r then r else RuneError)"

definition utf16_encode :: "rune \<Rightarrow> code_unit list" where
  "utf16_encode r =
     (if r < 65536 then [of_nat r]
      else [of_nat (55296 + (r - 65536) div 1024), of_nat (56320 + (r - 65536) mod 1024)])"

definition utf16_AppendRune :: "code_unit list \<Rightarrow> rune \<Rightarrow> code_unit list" where
  "utf16_AppendRune a r = a @ utf16_encode (if scalar_value r then r else RuneError)"

definition utf16_DecodeRune :: "rune \<Rightarrow> rune \<Rightarrow> rune" where
  "utf16_DecodeRune r1 r2 =
     (if 55296 \<le> r1 \<and> r1 < 56320 \<and> 56320 \<le> r2 \<and> r2 < 57344
      then (r1 - 55296) * 1024 + (r2 - 56320) + 65536 else RuneError)"

text \<open>Go strings are byte strings; \<open>string_bytes\<close> and \<open>bytes_string\<close> convert.\<close>

definition string_bytes :: "string \<Rightarrow> bytes" where
  "string_bytes s = map of_char s"

definition bytes_string :: "bytes \<Rightarrow> string" where
  "bytes_string b = map (char_of \<circ> unat) b"

section \<open>The converters (utf16.go)\<close>

definition isHighSurrogate :: "code_unit \<Rightarrow> bool" where
  "isHighSurrogate u = (0xD800 \<le> u \<and> u < 0xDC00)"

definition isLowSurrogate :: "code_unit \<Rightarrow> bool" where
  "isLowSurrogate u = (0xDC00 \<le> u \<and> u < 0xE000)"

record utf16Decoder =
  dec_high :: code_unit

definition new_utf16Decoder :: utf16Decoder where
  "new_utf16Decoder = \<lparr>dec_high = 0\<rparr>"

text \<open>The body of the loop after a pending high surrogate was settled, then the whole loop.\<close>

definition utf16_unit :: "utf16Decoder \<Rightarrow> bytes \<Rightarrow> code_unit \<Rightarrow> utf16Decoder \<times> bytes" where
  "utf16_unit d dst u =
     (if isHighSurrogate u then (d\<lparr>dec_high := u\<rparr>, dst)
      else if isLowSurrogate u then (d, utf8_AppendRune dst RuneError)
      else (d, utf8_AppendRune dst (unat u)))"

fun utf16Decoder_append :: "utf16Decoder \<Rightarrow> bytes \<Rightarrow> code_unit list \<Rightarrow> utf16Decoder \<times> bytes" where
  "utf16Decoder_append d dst [] = (d, dst)"
| "utf16Decoder_append d dst (u # us) =
     (if dec_high d \<noteq> 0 then
        (let high = dec_high d; d = d\<lparr>dec_high := 0\<rparr> in
         if isLowSurrogate u then
           utf16Decoder_append d (utf8_AppendRune dst (utf16_DecodeRune (unat high) (unat u))) us
         else
           (case utf16_unit d (utf8_AppendRune dst RuneError) u of
              (d, dst) \<Rightarrow> utf16Decoder_append d dst us))
      else (case utf16_unit d dst u of (d, dst) \<Rightarrow> utf16Decoder_append d dst us))"

text \<open>\<open>enc_carry\<close> is \<^verbatim>\<open>carry[:n]\<close>; \<^verbatim>\<open>copy\<close> into the array keeps at most \<^verbatim>\<open>utf8.UTFMax\<close> bytes.\<close>

record utf8Encoder =
  enc_carry :: bytes

definition new_utf8Encoder :: utf8Encoder where
  "new_utf8Encoder = \<lparr>enc_carry = []\<rparr>"

lemma utf8_DecodeRune_pos: "p \<noteq> [] \<Longrightarrow> 0 < snd (utf8_DecodeRune p)"
  by (auto simp: utf8_DecodeRune_def Let_def split: list.splits prod.splits)

text \<open>The loop over whole sequences: what is left when it ends is the carried tail.\<close>

function utf8_loop :: "code_unit list \<Rightarrow> bytes \<Rightarrow> code_unit list \<times> bytes" where
  "utf8_loop dst p =
     (if p = [] \<or> \<not> utf8_FullRune p then (dst, p)
      else (case utf8_DecodeRune p of
              (r, sz) \<Rightarrow> utf8_loop (utf16_AppendRune dst r) (drop sz p)))"
  by pat_completeness auto
termination
proof (relation "measure (length \<circ> snd)", simp, clarsimp)
  fix p and r sz :: nat
  assume "(r, sz) = utf8_DecodeRune p" "p \<noteq> []"
  with utf8_DecodeRune_pos [of p] show "length p - sz < length p" by (metis diff_less length_greater_0_conv snd_conv)
qed

declare utf8_loop.simps [simp del]

text \<open>
  The loop over the carried bytes joined with the first bytes of \<^verbatim>\<open>p\<close>. It ends with the number of
  bytes used, or (\<open>Inl\<close>) with the bytes still to carry.
\<close>

function carry_loop ::
  "nat \<Rightarrow> bytes \<Rightarrow> code_unit list \<Rightarrow> nat \<Rightarrow> code_unit list \<times> (bytes + nat)" where
  "carry_loop n joined dst used =
     (if n \<le> used then (dst, Inr used)
      else if \<not> utf8_FullRune (drop used joined) then (dst, Inl (drop used joined))
      else (case utf8_DecodeRune (drop used joined) of
              (r, sz) \<Rightarrow> carry_loop n joined (utf16_AppendRune dst r) (used + sz)))"
  by pat_completeness auto
termination
proof (relation "measure (\<lambda>(n, joined, dst, used). n - used)", simp, clarsimp)
  fix n joined and used r sz :: nat
  assume "\<not> n \<le> used" "utf8_FullRune (drop used joined)"
    "(r, sz) = utf8_DecodeRune (drop used joined)"
  moreover from this have "drop used joined \<noteq> []" by (auto simp: utf8_FullRune_def)
  ultimately show "n - (used + sz) < n - used"
    using utf8_DecodeRune_pos [of "drop used joined"] by (metis diff_less_mono2 not_le less_add_same_cancel1 snd_conv)
qed

declare carry_loop.simps [simp del]

definition utf8Encoder_append ::
  "utf8Encoder \<Rightarrow> code_unit list \<Rightarrow> bytes \<Rightarrow> utf8Encoder \<times> code_unit list" where
  "utf8Encoder_append e dst p =
     (let n = length (enc_carry e);
          finish = (\<lambda>dst p. case utf8_loop dst p of
             (dst, rest) \<Rightarrow> (e\<lparr>enc_carry := take UTFMax rest\<rparr>, dst))
      in if 0 < n then
           (case carry_loop n (enc_carry e @ take (min (length p) UTFMax) p) dst 0 of
              (dst, Inl rest) \<Rightarrow> (e\<lparr>enc_carry := take UTFMax rest\<rparr>, dst)
            | (dst, Inr used) \<Rightarrow> finish dst (drop (used - n) p))
         else finish dst p)"

text \<open>\<open>None\<close> is the panic on a limit below two.\<close>

definition chunkLen :: "code_unit list \<Rightarrow> nat \<Rightarrow> nat option" where
  "chunkLen units limit =
     (if limit < 2 then None
      else if length units \<le> limit then Some (length units)
      else if isHighSurrogate (units ! (limit - 1)) \<and> isLowSurrogate (units ! limit)
      then Some (limit - 1) else Some limit)"

section \<open>Sequences and what follows them\<close>

lemma utf8_first_cases:
  "utf8_first b = (sz, lo, hi) \<Longrightarrow>
     (sz = 1 \<and> (hi < lo \<longleftrightarrow> 128 \<le> unat b)) \<or> (sz \<in> {2, 3, 4} \<and> lo \<le> hi \<and> 128 \<le> lo \<and> hi \<le> 191)"
  by (auto simp: utf8_first_def Let_def split: if_splits)

lemma utf8_FullRune_append:
  assumes "utf8_FullRune p"
  shows "utf8_FullRune (p @ q)" and "utf8_DecodeRune (p @ q) = utf8_DecodeRune p"
proof -
  obtain b0 r where p: "p = b0 # r" using assms by (cases p) (auto simp: utf8_FullRune_def)
  obtain sz lo hi where f: "utf8_first b0 = (sz, lo, hi)" by (cases "utf8_first b0")
  show "utf8_FullRune (p @ q)"
    using assms p f by (auto simp: utf8_FullRune_def nth_append)
  have nth: "i < length r \<Longrightarrow> (r @ q) ! i = r ! i" for i by (simp add: nth_append)
  show "utf8_DecodeRune (p @ q) = utf8_DecodeRune p"
  proof (cases "sz \<le> length p")
    case True
    from utf8_first_cases [OF f] show ?thesis
    proof (elim disjE conjE insertE emptyE)
      assume "sz = 1"
      then show ?thesis using p f by (simp add: utf8_DecodeRune_def)
    next
      assume "sz = 2"
      then show ?thesis using True p f nth [of 0] by (cases r) (simp_all add: utf8_DecodeRune_def)
    next
      assume "sz = 3"
      then show ?thesis using True p f nth [of 0] nth [of 1]
        by (auto simp: utf8_DecodeRune_def numeral_2_eq_2 Suc_le_length_iff)
    next
      assume "sz = 4"
      then show ?thesis using True p f nth [of 0] nth [of 1] nth [of 2]
        by (auto simp: utf8_DecodeRune_def numeral_2_eq_2 numeral_3_eq_3 Suc_le_length_iff)
    qed
  next
    case False
    with p utf8_first_cases [OF f] have sz: "sz \<noteq> 1" "2 \<le> length r \<Longrightarrow> sz = 4" by auto
    have D: "utf8_DecodeRune p = (RuneError, 1)" using False p f sz by (simp add: utf8_DecodeRune_def)
    from assms False p f
    have "(r \<noteq> [] \<and> \<not> in_range lo hi (r ! 0)) \<or> (2 \<le> length r \<and> \<not> in_range 128 191 (r ! 1))"
      by (auto simp: utf8_FullRune_def)
    then show ?thesis
    proof (elim disjE conjE)
      assume "r \<noteq> []" "\<not> in_range lo hi (r ! 0)"
      then show ?thesis using D p f sz nth [of 0] by (simp add: utf8_DecodeRune_def)
    next
      assume "2 \<le> length r" "\<not> in_range 128 191 (r ! 1)"
      then show ?thesis using D p f sz(2) nth [of 0] nth [of 1]
        by (cases r; cases "tl r") (simp_all add: utf8_DecodeRune_def)
    qed
  qed
qed

lemma utf8_DecodeRune_size:
  assumes "p \<noteq> []"
  shows "snd (utf8_DecodeRune p) \<le> length p"
proof -
  obtain b0 r where p: "p = b0 # r" using assms by (cases p) auto
  obtain sz lo hi where f: "utf8_first b0 = (sz, lo, hi)" by (cases "utf8_first b0")
  from utf8_first_cases [OF f] p f show ?thesis
    by (elim disjE conjE) (auto simp: utf8_DecodeRune_def Suc_le_eq)
qed

lemma drop_append_le: "k \<le> length xs \<Longrightarrow> drop k (xs @ ys) = drop k xs @ ys"
  by simp

lemma utf8_not_full_short: "\<not> utf8_FullRune p \<Longrightarrow> length p < UTFMax"
  by (auto simp: utf8_FullRune_def UTFMax_def split: list.splits prod.splits dest!: utf8_first_cases)

section \<open>The stream reference\<close>

lemma utf8_loop_stop: "p = [] \<or> \<not> utf8_FullRune p \<Longrightarrow> utf8_loop dst p = (dst, p)"
  by (simp add: utf8_loop.simps)

lemma utf8_loop_step:
  "utf8_FullRune p \<Longrightarrow> utf8_DecodeRune p = (r, sz) \<Longrightarrow>
     utf8_loop dst p = utf8_loop (utf16_AppendRune dst r) (drop sz p)"
  by (subst utf8_loop.simps) (auto simp: utf8_FullRune_def)

text \<open>Induction over the sequences of a byte string.\<close>

lemma utf8_induct [case_names stop step]:
  assumes "\<And>p. \<not> utf8_FullRune p \<Longrightarrow> P p"
    and "\<And>p r sz. utf8_FullRune p \<Longrightarrow> utf8_DecodeRune p = (r, sz) \<Longrightarrow> 0 < sz \<Longrightarrow> sz \<le> length p \<Longrightarrow>
           P (drop sz p) \<Longrightarrow> P p"
  shows "P p"
proof (induction p rule: measure_induct_rule [where f = length])
  case (less p)
  show ?case
  proof (cases "utf8_FullRune p")
    case False
    then show ?thesis by (rule assms(1))
  next
    case True
    then have ne: "p \<noteq> []" by (auto simp: utf8_FullRune_def)
    obtain r sz where d: "utf8_DecodeRune p = (r, sz)" by fastforce
    from utf8_DecodeRune_pos [OF ne] utf8_DecodeRune_size [OF ne] d
    have sz: "0 < sz" "sz \<le> length p" by simp_all
    with less [of "drop sz p"] ne have "P (drop sz p)" by simp
    with assms(2) [OF True d sz] show ?thesis .
  qed
qed

lemma utf8_loop_dst: "utf8_loop dst p = (dst @ fst (utf8_loop [] p), snd (utf8_loop [] p))"
proof (induction p arbitrary: dst rule: utf8_induct)
  case (stop p)
  then show ?case by (simp add: utf8_loop_stop)
next
  case (step p r sz)
  have "utf8_loop dst p = utf8_loop (dst @ utf16_AppendRune [] r) (drop sz p)"
    by (simp add: utf8_loop_step [OF step.hyps(1,2)] utf16_AppendRune_def)
  also have "\<dots> = (dst @ utf16_AppendRune [] r @ fst (utf8_loop [] (drop sz p)), snd (utf8_loop [] (drop sz p)))"
    by (subst step.IH) simp
  finally show ?case
    by (subst (1 2) utf8_loop_step [OF step.hyps(1,2)], subst (1 2) step.IH) simp
qed

lemma utf8_loop_rest: "\<not> utf8_FullRune (snd (utf8_loop dst p))"
proof (induction p arbitrary: dst rule: utf8_induct)
  case (stop p)
  then show ?case by (simp add: utf8_loop_stop)
next
  case (step p r sz)
  then show ?case by (simp add: utf8_loop_step)
qed

text \<open>Reading a stream in two parts, the second after the tail the first left.\<close>

lemma utf8_loop_append:
  "utf8_loop dst (p @ q) = utf8_loop (fst (utf8_loop dst p)) (snd (utf8_loop dst p) @ q)"
proof (induction p arbitrary: dst rule: utf8_induct)
  case (stop p)
  then show ?case by (simp add: utf8_loop_stop)
next
  case (step p r sz)
  note app = utf8_FullRune_append [OF step.hyps(1), of q]
  have "utf8_loop dst (p @ q) = utf8_loop (utf16_AppendRune dst r) (drop sz p @ q)"
    using utf8_loop_step [OF app(1)] app(2) step.hyps by simp
  with step.IH step.hyps show ?case by (simp add: utf8_loop_step)
qed

section \<open>The encoder against the reference\<close>

lemma carry_loop_step:
  "used < n \<Longrightarrow> utf8_FullRune (drop used joined) \<Longrightarrow> utf8_DecodeRune (drop used joined) = (r, sz) \<Longrightarrow>
     carry_loop n joined dst used = carry_loop n joined (utf16_AppendRune dst r) (used + sz)"
  by (subst carry_loop.simps) auto

lemma carry_loop_correct:
  assumes "used \<le> length (c @ take UTFMax p)" and "n = length c" and "joined = c @ take UTFMax p"
  shows "case carry_loop n joined dst used of
           (dst', Inl rest) \<Rightarrow> utf8_loop dst (drop used (c @ p)) = (dst', rest)
         | (dst', Inr u) \<Rightarrow> utf8_loop dst (drop used (c @ p)) = utf8_loop dst' (drop (u - n) p)"
  using assms
proof (induction n joined dst used rule: carry_loop.induct)
  case (1 n joined dst used)
  consider "n \<le> used" | "used < n" "\<not> utf8_FullRune (drop used joined)"
    | "used < n" "utf8_FullRune (drop used joined)" by linarith
  then show ?case
  proof cases
    case a: 1
    with "1.prems" show ?thesis by (simp add: carry_loop.simps)
  next
    case 2
    with utf8_not_full_short have "length (take UTFMax p) < UTFMax" using "1.prems" by fastforce
    then have "take UTFMax p = p" by simp
    with 2 "1.prems" show ?thesis by (simp add: carry_loop.simps utf8_loop_stop)
  next
    case 3
    obtain r sz where d: "utf8_DecodeRune (drop used joined) = (r, sz)" by fastforce
    from 3 have "drop used joined \<noteq> []" by (auto simp: utf8_FullRune_def)
    from utf8_DecodeRune_size [OF this] d "1.prems" have sz: "used + sz \<le> length (c @ take UTFMax p)"
      by simp
    have split: "drop used (c @ p) = drop used joined @ drop UTFMax p"
      using "1.prems" drop_append_le [of used joined "drop UTFMax p"] by simp
    from utf8_FullRune_append [OF 3(2), of "drop UTFMax p"] d split
    have "utf8_loop dst (drop used (c @ p)) =
        utf8_loop (utf16_AppendRune dst r) (drop sz (drop used (c @ p)))"
      by (metis utf8_loop_step)
    then have "utf8_loop dst (drop used (c @ p)) =
        utf8_loop (utf16_AppendRune dst r) (drop (used + sz) (c @ p))"
      by (simp only: drop_drop add.commute)
    moreover from 3 have "\<not> n \<le> used" by simp
    note "1.IH" [OF this _ d [symmetric] sz "1.prems"(2,3), unfolded not_not, OF 3(2)]
    ultimately show ?thesis unfolding carry_loop_step [OF 3 d] by (simp only: simp_thms)
  qed
qed

text \<open>The carried bytes are always the beginning of one sequence.\<close>

definition encoder_wf :: "utf8Encoder \<Rightarrow> bool" where
  "encoder_wf e \<longleftrightarrow> \<not> utf8_FullRune (enc_carry e)"

lemma take_rest: "take UTFMax (snd (utf8_loop dst p)) = snd (utf8_loop dst p)"
  using utf8_not_full_short [OF utf8_loop_rest] by (simp add: less_imp_le)

lemma utf8Encoder_append_eq:
  assumes "encoder_wf e"
  shows "utf8Encoder_append e dst p =
    (\<lparr>enc_carry = snd (utf8_loop dst (enc_carry e @ p))\<rparr>, fst (utf8_loop dst (enc_carry e @ p)))"
proof (cases "enc_carry e = []")
  case True
  then show ?thesis
    using take_rest [of dst p] by (cases e) (simp add: utf8Encoder_append_def case_prod_beta)
next
  case False
  let ?n = "length (enc_carry e)" and ?j = "enc_carry e @ take UTFMax p"
  have min: "take (min (length p) UTFMax) p = take UTFMax p" by (simp add: min_def)
  obtain dst' res where c: "carry_loop ?n ?j dst 0 = (dst', res)" by fastforce
  have ok: "case carry_loop ?n ?j dst 0 of
      (dst', Inl rest) \<Rightarrow> utf8_loop dst (drop 0 (enc_carry e @ p)) = (dst', rest)
    | (dst', Inr u) \<Rightarrow> utf8_loop dst (drop 0 (enc_carry e @ p)) = utf8_loop dst' (drop (u - ?n) p)"
    by (rule carry_loop_correct) simp_all
  show ?thesis
  proof (cases res)
    case (Inl rest)
    with ok c have "utf8_loop dst (enc_carry e @ p) = (dst', rest)" by simp
    with take_rest [of dst "enc_carry e @ p"] Inl c False min show ?thesis
      by (cases e) (simp add: utf8Encoder_append_def)
  next
    case (Inr u)
    with ok c have "utf8_loop dst (enc_carry e @ p) = utf8_loop dst' (drop (u - ?n) p)" by simp
    with take_rest [of dst' "drop (u - ?n) p"] Inr c False min show ?thesis
      by (cases e) (simp add: utf8Encoder_append_def case_prod_beta Let_def)
  qed
qed

lemma new_utf8Encoder_wf: "encoder_wf new_utf8Encoder"
  by (simp add: encoder_wf_def new_utf8Encoder_def utf8_FullRune_def)

lemma utf8Encoder_append_wf: "encoder_wf e \<Longrightarrow> encoder_wf (fst (utf8Encoder_append e dst p))"
  by (simp add: utf8Encoder_append_eq encoder_wf_def utf8_loop_rest)

text \<open>The encoder over a sequence of packets: the units of each packet and the encoder after them.\<close>

fun encode_packets :: "utf8Encoder \<Rightarrow> bytes list \<Rightarrow> code_unit list \<times> utf8Encoder" where
  "encode_packets e [] = ([], e)"
| "encode_packets e (p # ps) =
     (case utf8Encoder_append e [] p of
        (e', us) \<Rightarrow> (case encode_packets e' ps of (vs, e'') \<Rightarrow> (us @ vs, e'')))"

lemma encode_packets_eq:
  "encoder_wf e \<Longrightarrow> encode_packets e ps =
     (fst (utf8_loop [] (enc_carry e @ concat ps)),
      \<lparr>enc_carry = snd (utf8_loop [] (enc_carry e @ concat ps))\<rparr>)"
proof (induction ps arbitrary: e)
  case Nil
  then show ?case by (cases e) (simp add: encoder_wf_def utf8_loop_stop)
next
  case (Cons p ps)
  let ?l = "utf8_loop [] (enc_carry e @ p)"
  have wf: "encoder_wf \<lparr>enc_carry = snd ?l\<rparr>" by (simp add: encoder_wf_def utf8_loop_rest)
  have "utf8_loop [] (enc_carry e @ concat (p # ps)) = utf8_loop (fst ?l) (snd ?l @ concat ps)"
    using utf8_loop_append [of "[]" "enc_carry e @ p" "concat ps"] by simp
  with Cons.IH [OF wf] Cons.prems show ?case
    by (simp add: utf8Encoder_append_eq utf8_loop_dst [of "fst ?l"])
qed

section \<open>Whole characters\<close>

lemma utf8_first_of_nat:
  "n < 256 \<Longrightarrow> utf8_first (of_nat n) =
     (if n < 128 then (1, 0, 255) else if n < 194 then (1, 1, 0) else if n < 224 then (2, 128, 191)
      else if n = 224 then (3, 160, 191) else if n = 237 then (3, 128, 159)
      else if n < 240 then (3, 128, 191) else if n = 240 then (4, 144, 191)
      else if n < 244 then (4, 128, 191) else if n = 244 then (4, 128, 143) else (1, 1, 0))"
  by (simp add: utf8_first_def Let_def unat_of_nat take_bit_nat_eq_self)

lemma unat_byte: "n < 256 \<Longrightarrow> unat (of_nat n :: byte) = n"
  by (simp add: unat_of_nat take_bit_nat_eq_self)

lemma unat_unit: "n < 65536 \<Longrightarrow> unat (of_nat n :: code_unit) = n"
  by (simp add: unat_of_nat take_bit_nat_eq_self)

lemma byte_range:
  "n < 256 \<Longrightarrow> in_range lo hi (of_nat n) \<longleftrightarrow> lo \<le> n \<and> n \<le> hi"
  by (simp add: in_range_def unat_byte)

lemma digits64:
  fixes r :: nat
  shows "r = r div 64 * 64 + r mod 64" and "r div 64 = r div 4096 * 64 + r div 64 mod 64"
    and "r div 4096 = r div 262144 * 64 + r div 4096 mod 64"
proof -
  have "r div 4096 = r div 64 div 64" "r div 262144 = r div 4096 div 64"
    by (simp_all add: div_mult2_eq [symmetric])
  then show "r = r div 64 * 64 + r mod 64" and "r div 64 = r div 4096 * 64 + r div 64 mod 64"
    and "r div 4096 = r div 262144 * 64 + r div 4096 mod 64" by simp_all
qed

lemma mod_plus_base:
  fixes x :: nat
  shows "x < 32 \<Longrightarrow> (192 + x) mod 32 = x" and "x < 16 \<Longrightarrow> (224 + x) mod 16 = x"
    and "x < 8 \<Longrightarrow> (240 + x) mod 8 = x" and "x < 64 \<Longrightarrow> (128 + x) mod 64 = x"
proof -
  show "x < 32 \<Longrightarrow> (192 + x) mod 32 = x" using mod_mult_self1 [of x 6 32] by (simp add: add.commute)
  show "x < 16 \<Longrightarrow> (224 + x) mod 16 = x" using mod_mult_self1 [of x 14 16] by (simp add: add.commute)
  show "x < 8 \<Longrightarrow> (240 + x) mod 8 = x" using mod_mult_self1 [of x 30 8] by (simp add: add.commute)
  show "x < 64 \<Longrightarrow> (128 + x) mod 64 = x" using mod_mult_self1 [of x 2 64] by (simp add: add.commute)
qed

text \<open>Characters of two, three and four bytes.\<close>

lemma utf8_decode_two:
  assumes two: "128 \<le> r" "r < 2048"
  shows "utf8_FullRune (utf8_encode r @ q) \<and> utf8_DecodeRune (utf8_encode r @ q) = (r, length (utf8_encode r))"
proof -
  define h where "h = r div 64"
  define l where "l = r mod 64"
  from two have b: "2 \<le> h" "h < 32" "l < 64" and r: "r = h * 64 + l"
    using digits64(1) [of r] by (simp_all add: h_def l_def)
  obtain b0 b1 where e: "utf8_encode r = [b0, b1]" "b0 = of_nat (192 + h)" "b1 = of_nat (128 + l)"
    using two by (simp add: utf8_encode_def h_def l_def)
  with b have "utf8_first b0 = (2, 128, 191)" "unat b0 = 192 + h" "unat b1 = 128 + l"
    by (simp_all only: utf8_first_of_nat unat_byte) simp_all
  with b e(1) show ?thesis
    by (simp add: utf8_FullRune_def utf8_DecodeRune_def in_range_def mod_plus_base) (simp add: r)
qed

lemma utf8_decode_three:
  assumes three: "2048 \<le> r" "r < 65536" and "scalar_value r"
  shows "utf8_FullRune (utf8_encode r @ q) \<and> utf8_DecodeRune (utf8_encode r @ q) = (r, length (utf8_encode r))"
proof -
  define h m l where "h = r div 4096" and "m = r div 64 mod 64" and "l = r mod 64"
  have r: "r = h * 4096 + m * 64 + l"
    using digits64(1,2) [of r] unfolding h_def m_def l_def by linarith
  from three have b: "h < 16" "m < 64" "l < 64" by (simp_all add: h_def m_def l_def)
  from three r b have hm: "h = 0 \<Longrightarrow> 32 \<le> m" by simp
  from assms(3) three r b have hs: "h = 13 \<Longrightarrow> m < 32" by (auto simp: scalar_value_def)
  obtain b0 b1 b2 where e: "utf8_encode r = [b0, b1, b2]"
    "b0 = of_nat (224 + h)" "b1 = of_nat (128 + m)" "b2 = of_nat (128 + l)"
    using three by (simp add: utf8_encode_def h_def m_def l_def)
  with b have u: "unat b0 = 224 + h" "unat b1 = 128 + m" "unat b2 = 128 + l"
    by (simp_all only: unat_byte)
  define lo hi :: nat where "lo = (if h = 0 then 160 else 128)" and "hi = (if h = 13 then 159 else 191)"
  have "utf8_first b0 = (3, lo, hi)" using u b by (simp add: utf8_first_def Let_def lo_def hi_def)
  moreover have "lo \<le> 128 + m" "128 + m \<le> hi" using b hm hs by (auto simp: lo_def hi_def)
  ultimately show ?thesis using b e(1) u
    by (simp add: utf8_FullRune_def utf8_DecodeRune_def in_range_def mod_plus_base) (simp add: r)
qed

lemma utf8_decode_four:
  assumes four: "65536 \<le> r" "r < 1114112"
  shows "utf8_FullRune (utf8_encode r @ q) \<and> utf8_DecodeRune (utf8_encode r @ q) = (r, length (utf8_encode r))"
proof -
  define h m n l where "h = r div 262144" and "m = r div 4096 mod 64" and "n = r div 64 mod 64"
    and "l = r mod 64"
  have r: "r = h * 262144 + m * 4096 + n * 64 + l"
    using digits64 [of r] unfolding h_def m_def n_def l_def by linarith
  from four have b: "h < 5" "m < 64" "n < 64" "l < 64" by (simp_all add: h_def m_def n_def l_def)
  from four r b have hm: "h = 0 \<Longrightarrow> 16 \<le> m" by simp
  from four r b have hs: "h = 4 \<Longrightarrow> m < 16" by simp
  obtain b0 b1 b2 b3 where e: "utf8_encode r = [b0, b1, b2, b3]"
    "b0 = of_nat (240 + h)" "b1 = of_nat (128 + m)" "b2 = of_nat (128 + n)" "b3 = of_nat (128 + l)"
    using four by (simp add: utf8_encode_def h_def m_def n_def l_def)
  with b have u: "unat b0 = 240 + h" "unat b1 = 128 + m" "unat b2 = 128 + n" "unat b3 = 128 + l"
    by (simp_all only: unat_byte)
  define lo hi :: nat where "lo = (if h = 0 then 144 else 128)" and "hi = (if h = 4 then 143 else 191)"
  have "utf8_first b0 = (4, lo, hi)" using u b by (simp add: utf8_first_def Let_def lo_def hi_def)
  moreover have "lo \<le> 128 + m" "128 + m \<le> hi" using b hm hs by (auto simp: lo_def hi_def)
  ultimately show ?thesis using b e(1) u
    by (simp add: utf8_FullRune_def utf8_DecodeRune_def in_range_def mod_plus_base) (simp add: r)
qed

lemma utf8_decode_encode:
  assumes "scalar_value r"
  shows "utf8_FullRune (utf8_encode r @ q)"
    and "utf8_DecodeRune (utf8_encode r @ q) = (r, length (utf8_encode r))"
proof -
  consider (one) "r < 128" | (two) "128 \<le> r" "r < 2048" | (three) "2048 \<le> r" "r < 65536"
    | (four) "65536 \<le> r" "r < 1114112"
    using assms by (cases "r < 128"; cases "r < 2048"; cases "r < 65536") (auto simp: scalar_value_def)
  then have "utf8_FullRune (utf8_encode r @ q) \<and>
      utf8_DecodeRune (utf8_encode r @ q) = (r, length (utf8_encode r))"
  proof cases
    case one
    then show ?thesis
      by (simp add: utf8_encode_def utf8_FullRune_def utf8_DecodeRune_def utf8_first_of_nat unat_byte)
  qed (use assms utf8_decode_two utf8_decode_three utf8_decode_four in blast)+
  then show "utf8_FullRune (utf8_encode r @ q)"
    and "utf8_DecodeRune (utf8_encode r @ q) = (r, length (utf8_encode r))" by simp_all
qed

lemma utf8_loop_text:
  "list_all scalar_value rs \<Longrightarrow>
     utf8_loop dst (concat (map utf8_encode rs)) = (dst @ concat (map utf16_encode rs), [])"
proof (induction rs arbitrary: dst)
  case Nil
  show ?case by (simp add: utf8_loop_stop)
next
  case (Cons r rs)
  let ?q = "concat (map utf8_encode rs)"
  from Cons.prems have "scalar_value r" by simp
  from utf8_loop_step [OF utf8_decode_encode [OF this], where dst = dst] Cons show ?case
    by (simp add: utf16_AppendRune_def)
qed

lemma surrogate_of_nat:
  assumes "n < 65536"
  shows "isHighSurrogate (of_nat n) \<longleftrightarrow> 55296 \<le> n \<and> n < 56320"
    and "isLowSurrogate (of_nat n) \<longleftrightarrow> 56320 \<le> n \<and> n < 57344"
  using unat_unit [OF assms]
  by (simp_all add: isHighSurrogate_def isLowSurrogate_def word_le_nat_alt word_less_nat_alt)

lemma of_nat_unit_zero: "n < 65536 \<Longrightarrow> (of_nat n :: code_unit) = 0 \<longleftrightarrow> n = 0"
  using unat_unit [of n] unat_eq_zero [of "of_nat n :: code_unit"] by simp

lemma utf16_decode_encode:
  assumes "scalar_value r" and "dec_high d = 0"
  shows "utf16Decoder_append d dst (utf16_encode r @ us) = utf16Decoder_append d (dst @ utf8_encode r) us"
proof (cases "r < 65536")
  case True
  with assms surrogate_of_nat [OF True] unat_unit [OF True] show ?thesis
    by (auto simp: utf16_encode_def utf16_unit_def utf8_AppendRune_def scalar_value_def)
next
  case False
  define h l where "h = 55296 + (r - 65536) div 1024" and "l = 56320 + (r - 65536) mod 1024"
  have hl: "55296 \<le> h" "h < 56320" "56320 \<le> l" "l < 57344" "(h - 55296) * 1024 + (l - 56320) + 65536 = r"
    using assms(1) False by (auto simp: h_def l_def scalar_value_def)
  obtain hu lu :: code_unit where u: "hu = of_nat h" "lu = of_nat l" by simp
  with hl surrogate_of_nat [of h] surrogate_of_nat [of l] of_nat_unit_zero [of h]
  have s: "isHighSurrogate hu" "\<not> isLowSurrogate hu" "isLowSurrogate lu" "hu \<noteq> 0"
    by simp_all
  have "unat hu = h" "unat lu = l" using u hl by (simp_all add: unat_unit)
  with hl have r: "utf16_DecodeRune (unat hu) (unat lu) = r" by (simp add: utf16_DecodeRune_def)
  have "utf16_encode r = [hu, lu]" using False by (simp add: utf16_encode_def u h_def l_def)
  with s r assms show ?thesis
    by (cases d) (simp add: utf16_unit_def utf8_AppendRune_def Let_def)
qed

text \<open>The decoder over a sequence of reads.\<close>

fun decode_reads :: "utf16Decoder \<Rightarrow> code_unit list list \<Rightarrow> bytes \<times> utf16Decoder" where
  "decode_reads d [] = ([], d)"
| "decode_reads d (us # uss) =
     (case utf16Decoder_append d [] us of
        (d', b) \<Rightarrow> (case decode_reads d' uss of (bs, d'') \<Rightarrow> (b @ bs, d'')))"

lemma utf16_unit_dst: "utf16_unit d dst u = (fst (utf16_unit d [] u), dst @ snd (utf16_unit d [] u))"
  by (simp add: utf16_unit_def utf8_AppendRune_def)

lemma utf16Decoder_append_dst:
  "utf16Decoder_append d dst us = (fst (utf16Decoder_append d [] us), dst @ snd (utf16Decoder_append d [] us))"
proof (induction us arbitrary: d dst)
  case Nil
  show ?case by simp
next
  case (Cons u us)
  show ?case
    by (simp add: Let_def case_prod_beta utf8_AppendRune_def utf16_unit_dst [of _ "dst @ _"]
        utf16_unit_dst [of _ dst] utf16_unit_dst [of _ "utf8_encode _"]
        Cons.IH [of _ "_ @ _"] Cons.IH [of _ "utf8_encode _"] Cons.IH [of _ "snd _"])
qed

lemma utf16Decoder_append_append:
  "utf16Decoder_append d dst (us @ vs) =
     (case utf16Decoder_append d dst us of (d', dst') \<Rightarrow> utf16Decoder_append d' dst' vs)"
  by (induction us arbitrary: d dst) (simp_all add: Let_def case_prod_beta)

lemma decode_reads_eq:
  "decode_reads d uss = (snd (utf16Decoder_append d [] (concat uss)), fst (utf16Decoder_append d [] (concat uss)))"
proof (induction uss arbitrary: d)
  case Nil
  show ?case by simp
next
  case (Cons us uss)
  obtain d' b where d: "utf16Decoder_append d [] us = (d', b)" by fastforce
  with Cons utf16Decoder_append_dst [of d' b "concat uss"] show ?case
    by (simp add: utf16Decoder_append_append case_prod_beta)
qed

lemma utf16_text:
  "list_all scalar_value rs \<Longrightarrow> dec_high d = 0 \<Longrightarrow>
     utf16Decoder_append d dst (concat (map utf16_encode rs)) = (d, dst @ concat (map utf8_encode rs))"
  by (induction rs arbitrary: dst) (simp_all add: utf16_decode_encode)

section \<open>Chunks\<close>

lemma chunkLen_total: "2 \<le> limit \<Longrightarrow> \<exists>k. chunkLen us limit = Some k"
  by (simp add: chunkLen_def)

lemma surrogates_disjoint: "isHighSurrogate u \<Longrightarrow> \<not> isLowSurrogate u"
  by (auto simp: isHighSurrogate_def isLowSurrogate_def)

lemma chunkLen_bounds:
  assumes "chunkLen us limit = Some k"
  shows "k \<le> limit" and "k \<le> length us" and "us \<noteq> [] \<Longrightarrow> 0 < k"
    and "0 < k \<Longrightarrow> k < length us \<Longrightarrow> \<not> (isHighSurrogate (us ! (k - 1)) \<and> isLowSurrogate (us ! k))"
proof -
  have "k < length us \<Longrightarrow> 0 < k \<Longrightarrow> \<not> (isHighSurrogate (us ! (k - 1)) \<and> isLowSurrogate (us ! k))"
    using assms surrogates_disjoint [of "us ! k"]
    by (auto simp: chunkLen_def split: if_splits)
  then show "k \<le> limit" and "k \<le> length us" and "us \<noteq> [] \<Longrightarrow> 0 < k"
    and "0 < k \<Longrightarrow> k < length us \<Longrightarrow> \<not> (isHighSurrogate (us ! (k - 1)) \<and> isLowSurrogate (us ! k))"
    using assms by (auto simp: chunkLen_def split: if_splits)
qed

section \<open>Properties\<close>

text \<open>
  Remote output is encoded independently of packet boundaries, valid UTF-8 or not: two ways of
  cutting the same bytes into packets produce the same UTF-16 units in total and leave the same
  incomplete sequence held back. So a character split over packets is encoded once.
\<close>

lemma packets_independent:
  assumes "concat ps = concat qs"
  shows "encode_packets new_utf8Encoder ps = encode_packets new_utf8Encoder qs"
  using assms by (simp add: encode_packets_eq new_utf8Encoder_wf)

lemma packets_independent_witness:
  "encode_packets new_utf8Encoder [[0xE2], [0x82], [0xAC, 0x41]] =
     encode_packets new_utf8Encoder [[0xE2, 0x82, 0xAC], [0x41]]"
  by (rule packets_independent) simp

text \<open>
  C31. Text survives both converters: for every sequence of Unicode scalar values, its UTF-8 cut
  into any packets is encoded to exactly its UTF-16 with nothing held back, and that UTF-16 cut
  into any console reads (inside surrogate pairs too) is decoded to exactly the original bytes
  with no surrogate held back.
\<close>

theorem text_roundtrip:
  assumes "list_all scalar_value rs" and "concat ps = concat (map utf8_encode rs)"
    and "concat uss = concat (map utf16_encode rs)"
  shows "encode_packets new_utf8Encoder ps = (concat uss, new_utf8Encoder)
    \<and> decode_reads new_utf16Decoder uss = (concat ps, new_utf16Decoder)"
  using assms utf8_loop_text [OF assms(1), of "[]"]
    utf16_text [OF assms(1), of new_utf16Decoder "[]"]
  by (simp add: encode_packets_eq new_utf8Encoder_wf decode_reads_eq)
     (simp add: new_utf8Encoder_def new_utf16Decoder_def)

theorem text_roundtrip_witness:
  "encode_packets new_utf8Encoder [[0x41, 0xF0, 0x9F], [0x98, 0x80]] =
     (concat [[0x41, 0xD83D], [0xDE00]], new_utf8Encoder)
   \<and> decode_reads new_utf16Decoder [[0x41, 0xD83D], [0xDE00]] =
     (concat [[0x41, 0xF0, 0x9F], [0x98, 0x80]], new_utf16Decoder)"
  by (rule text_roundtrip [of "[65, 128512]"])
     (simp_all add: scalar_value_def utf8_encode_def utf16_encode_def)

end
