(* ===== verification/ET_Console.thy ===== *)
theory ET_Console
  imports ET_Text
begin

text \<open>
  Package \<^verbatim>\<open>internal/console\<close>: the window size and \<^verbatim>\<open>resizeCheck\<close> (console.go), the Unix
  \<^verbatim>\<open>Console\<close> (console_unix.go) and the Windows \<^verbatim>\<open>Console\<close> (console_windows.go). The operating system's
  calls (golang.org/x/term, golang.org/x/sys) are records of functions on a world of type
  \<open>'w\<close>; what the code relies on is \<open>tty_laws\<close> and
  \<open>wincon_laws\<close>. The locale \<open>restorable\<close> is the contract both platforms share:
  \<^verbatim>\<open>MakeRaw\<close>, \<^verbatim>\<open>restore\<close> and \<^verbatim>\<open>Close\<close> always lead back to the state recorded by \<^verbatim>\<open>Open\<close>.

  The Windows \<^verbatim>\<open>Read\<close> and \<^verbatim>\<open>Write\<close> are modelled between their lock operations, so that a \<^verbatim>\<open>Close\<close> that
  starts while a console call is in flight is visible to them.
\<close>

section \<open>Sizes and the resize sequence (console.go)\<close>

record Size =
  sz_Rows :: int
  sz_Cols :: int
  sz_Width :: int
  sz_Height :: int

definition zero_Size :: Size where
  "zero_Size = \<lparr>sz_Rows = 0, sz_Cols = 0, sz_Width = 0, sz_Height = 0\<rparr>"

text \<open>
  \<^verbatim>\<open>resizeCheck\<close>: \<open>ctx\<close> says whether the context has ended, \<open>yield\<close> is the loop
  body's answer. The result is the new \<^verbatim>\<open>*last\<close>, the size yielded, and whether to go on.
\<close>

definition resizeCheck :: "bool \<Rightarrow> Size result \<Rightarrow> Size \<Rightarrow> bool \<Rightarrow> Size \<times> Size option \<times> bool" where
  "resizeCheck ctx query prev yield =
     (case query of
        Inl err \<Rightarrow> if errors_Is err OsErrClosed then (prev, None, False) else (prev, None, True)
      | Inr sz \<Rightarrow>
          if sz = prev then (prev, None, True)
          else if ctx then (sz, None, False)
          else (sz, Some sz, yield))"

text \<open>
  The sequence \<^verbatim>\<open>Resizes\<close> returns. Each wake-up (a \<^verbatim>\<open>SIGWINCH\<close> on Unix, a tick on Windows) reads the
  size once; \<open>ResizeCtxDone\<close> is the \<^verbatim>\<open>ctx.Done()\<close> case. The Unix sequence checks once before it waits.
\<close>

datatype resize_event = ResizeCtxDone | ResizeWake bool "Size result" bool

fun resizes_loop :: "Size \<Rightarrow> resize_event list \<Rightarrow> Size list" where
  "resizes_loop prev [] = []"
| "resizes_loop prev (ResizeCtxDone # evs) = []"
| "resizes_loop prev (ResizeWake ctx query yield # evs) =
     (case resizeCheck ctx query prev yield of
        (prev', y, go) \<Rightarrow>
          (case y of Some sz \<Rightarrow> [sz] | None \<Rightarrow> []) @ (if go then resizes_loop prev' evs else []))"

definition Size_or_zero :: "Size result \<Rightarrow> Size" where
  "Size_or_zero r = (case r of Inl _ \<Rightarrow> zero_Size | Inr sz \<Rightarrow> sz)"

definition unix_Resizes :: "Size result \<Rightarrow> bool \<times> Size result \<times> bool \<Rightarrow> resize_event list \<Rightarrow> Size list" where
  "unix_Resizes query0 first evs =
     (case first of (ctx, query, yield) \<Rightarrow>
        resizes_loop (Size_or_zero query0) (ResizeWake ctx query yield # evs))"

definition windows_Resizes :: "Size result \<Rightarrow> resize_event list \<Rightarrow> Size list" where
  "windows_Resizes query0 evs = resizes_loop (Size_or_zero query0) evs"

section \<open>The Unix console (console_unix.go)\<close>

text \<open>
  \<open>tty_control\<close> is \<^verbatim>\<open>SyscallConn\<close> with \<^verbatim>\<open>Control\<close>: an error means the function was not run.
  \<open>tty_setState\<close> is \<^verbatim>\<open>term.Restore\<close>.
\<close>

record ('w, 's) tty_ops =
  tty_control :: "'w \<Rightarrow> go_error option"
  tty_getState :: "'w \<Rightarrow> 's result"
  tty_setState :: "'s \<Rightarrow> 'w \<Rightarrow> 'w \<times> go_error option"
  tty_makeRaw :: "'w \<Rightarrow> 'w \<times> go_error option"
  tty_winsize :: "'w \<Rightarrow> (16 word \<times> 16 word \<times> 16 word \<times> 16 word) result"
  tty_close :: "'w \<Rightarrow> 'w \<times> go_error option"

record 's console =
  con_base :: 's
  con_closed :: bool

text \<open>\<^verbatim>\<open>errors.Join\<close>: nil if every argument is nil.\<close>

definition errors_Join :: "go_error option list \<Rightarrow> go_error option" where
  "errors_Join es =
     (case map the (filter (\<lambda>e. e \<noteq> None) es) of [] \<Rightarrow> None | errs \<Rightarrow> Some (Wrap '''' errs))"

definition controlFile ::
  "('w, 's) tty_ops \<Rightarrow> 'w \<Rightarrow> ('w \<Rightarrow> 'w \<times> go_error option) \<Rightarrow> 'w \<times> go_error option" where
  "controlFile ops w f = (case tty_control ops w of Some e \<Rightarrow> (w, Some e) | None \<Rightarrow> f w)"

definition controlValue :: "('w, 's) tty_ops \<Rightarrow> 'w \<Rightarrow> ('w \<Rightarrow> 'v result) \<Rightarrow> 'v result" where
  "controlValue ops w f = (case tty_control ops w of Some e \<Rightarrow> Inl e | None \<Rightarrow> f w)"

definition isTerminal :: "('w, 's) tty_ops \<Rightarrow> ('w \<Rightarrow> bool) \<Rightarrow> 'w \<Rightarrow> bool" where
  "isTerminal ops term w = (case controlValue ops w (\<lambda>w. Inr (term w)) of Inr b \<Rightarrow> b | Inl _ \<Rightarrow> False)"

definition noTerminalToOpen :: "go_error \<Rightarrow> bool" where
  "noTerminalToOpen err = (errors_Is err ENXIO \<or> errors_Is err ENOENT)"

definition newConsole :: "('w, 's) tty_ops \<Rightarrow> 'w \<Rightarrow> 's console result" where
  "newConsole ops w =
     (case controlValue ops w (tty_getState ops) of
        Inl err \<Rightarrow> Inl (Wrap ''read terminal state'' [ErrNotTerminal, err])
      | Inr base \<Rightarrow> Inr \<lparr>con_base = base, con_closed = False\<rparr>)"

text \<open>
  \<^verbatim>\<open>open\<close>: \<open>term\<close> is \<^verbatim>\<open>term.IsTerminal\<close> on the standard files' worlds, \<open>opened\<close> the outcome of
  \<^verbatim>\<open>os.OpenFile\<close>. A terminal whose state cannot be read is closed again.
\<close>

definition console_open ::
  "('w, 's) tty_ops \<Rightarrow> ('w \<Rightarrow> bool) \<Rightarrow> 'w \<Rightarrow> 'w \<Rightarrow> 'w result \<Rightarrow> ('s console \<times> 'w) result \<times> 'w option" where
  "console_open ops term stdin stdout opened =
     (if \<not> isTerminal ops term stdin \<or> \<not> isTerminal ops term stdout then (Inl ErrNotTerminal, None)
      else (case opened of
              Inl err \<Rightarrow>
                (if noTerminalToOpen err then (Inl (Wrap '''' [ErrNotTerminal, err]), None)
                 else (Inl (Wrap ''console'' [err]), None))
            | Inr w \<Rightarrow>
                (case newConsole ops w of
                   Inl err \<Rightarrow> (Inl err, Some (fst (tty_close ops w)))
                 | Inr c \<Rightarrow> (Inr (c, w), Some w))))"

definition unix_MakeRaw ::
  "('w, 's) tty_ops \<Rightarrow> 's console \<times> 'w \<Rightarrow> ('s console \<times> 'w) \<times> go_error option" where
  "unix_MakeRaw ops = (\<lambda>(c, w).
     if con_closed c then ((c, w), Some (Wrap ''console: make raw'' [OsErrClosed]))
     else (case controlFile ops w (tty_makeRaw ops) of
             (w', Some err) \<Rightarrow> ((c, w'), Some (Wrap ''console: make raw'' [err]))
           | (w', None) \<Rightarrow> ((c, w'), None)))"

definition unix_restoreLocked ::
  "('w, 's) tty_ops \<Rightarrow> 's console \<times> 'w \<Rightarrow> 'w \<times> go_error option" where
  "unix_restoreLocked ops = (\<lambda>(c, w).
     case controlFile ops w (\<lambda>w.
            case tty_getState ops w of
              Inl err \<Rightarrow> (w, Some err)
            | Inr cur \<Rightarrow> if cur = con_base c then (w, None) else tty_setState ops (con_base c) w) of
       (w', Some err) \<Rightarrow> (w', Some (Wrap ''console: restore'' [err]))
     | (w', None) \<Rightarrow> (w', None))"

definition unix_restore ::
  "('w, 's) tty_ops \<Rightarrow> 's console \<times> 'w \<Rightarrow> ('s console \<times> 'w) \<times> go_error option" where
  "unix_restore ops = (\<lambda>(c, w).
     if con_closed c then ((c, w), None)
     else (case unix_restoreLocked ops (c, w) of (w', e) \<Rightarrow> ((c, w'), e)))"

definition unix_Size :: "('w, 's) tty_ops \<Rightarrow> 's console \<times> 'w \<Rightarrow> Size result" where
  "unix_Size ops = (\<lambda>(c, w).
     if con_closed c then Inl (Wrap ''console: size'' [OsErrClosed])
     else (case controlValue ops w (tty_winsize ops) of
             Inl err \<Rightarrow> Inl (Wrap ''console: size'' [err])
           | Inr (row, col, xp, yp) \<Rightarrow>
               Inr \<lparr>sz_Rows = uint row, sz_Cols = uint col, sz_Width = uint xp, sz_Height = uint yp\<rparr>))"

definition unix_Close ::
  "('w, 's) tty_ops \<Rightarrow> 's console \<times> 'w \<Rightarrow> ('s console \<times> 'w) \<times> go_error option" where
  "unix_Close ops = (\<lambda>(c, w).
     if con_closed c then ((c, w), None)
     else (let c' = c\<lparr>con_closed := True\<rparr> in
           case unix_restoreLocked ops (c', w) of
             (w1, e1) \<Rightarrow> (case tty_close ops w1 of (w2, e2) \<Rightarrow> ((c', w2), errors_Join [e1, e2]))))"

section \<open>The Windows console (console_windows.go)\<close>

datatype handle = HIn | HOut

type_synonym mode = "32 word"

record keyEventRecord =
  ke_KeyDown :: int
  ke_RepeatCount :: "16 word"
  ke_VirtualKeyCode :: "16 word"
  ke_VirtualScanCode :: "16 word"
  ke_UnicodeChar :: code_unit
  ke_ControlKeyState :: "32 word"

record inputRecord =
  ir_EventType :: "16 word"
  ir_Event :: keyEventRecord

text \<open>
  \<open>wo_procInput\<close> is \<^verbatim>\<open>procWriteConsoleInputW.Call\<close>: the first result is zero when the call failed,
  and the error, which \<^verbatim>\<open>Call\<close> always returns, then says why.
\<close>

record 'w wincon_ops =
  wo_getMode :: "handle \<Rightarrow> 'w \<Rightarrow> mode result"
  wo_setMode :: "handle \<Rightarrow> mode \<Rightarrow> 'w \<Rightarrow> 'w \<times> go_error option"
  wo_write :: "code_unit list \<Rightarrow> 'w \<Rightarrow> 'w \<times> nat \<times> go_error option"
  wo_flush :: "'w \<Rightarrow> 'w \<times> go_error option"
  wo_procInput :: "inputRecord list \<Rightarrow> 'w \<Rightarrow> 'w \<times> nat \<times> go_error"

definition readUnits :: nat where "readUnits = 4096"
definition writeUnits :: nat where "writeUnits = 8192"

record wconsole =
  wc_inBase :: mode
  wc_outBase :: mode
  wc_closing :: bool
  wc_reading :: bool
  wc_exited :: bool
  wc_dec :: utf16Decoder
  wc_pending :: bytes
  wc_pendingOff :: nat
  wc_enc :: utf8Encoder

definition new_wconsole :: "mode \<Rightarrow> mode \<Rightarrow> wconsole" where
  "new_wconsole inB outB =
     \<lparr>wc_inBase = inB, wc_outBase = outB, wc_closing = False, wc_reading = False, wc_exited = False,
      wc_dec = new_utf16Decoder, wc_pending = [], wc_pendingOff = 0, wc_enc = new_utf8Encoder\<rparr>"

text \<open>\<^verbatim>\<open>Open\<close>: the outcomes of the two \<^verbatim>\<open>GetStdHandle\<close> calls, then the two mode reads.\<close>

definition windows_Open ::
  "'w wincon_ops \<Rightarrow> go_error option \<Rightarrow> go_error option \<Rightarrow> 'w \<Rightarrow> wconsole result" where
  "windows_Open ops ein eout w =
     (case ein of
        Some err \<Rightarrow> Inl (Wrap ''stdin handle'' [ErrNotTerminal, err])
      | None \<Rightarrow>
     (case eout of
        Some err \<Rightarrow> Inl (Wrap ''stdout handle'' [ErrNotTerminal, err])
      | None \<Rightarrow>
     (case wo_getMode ops HIn w of
        Inl err \<Rightarrow> Inl (Wrap ''stdin console mode'' [ErrNotTerminal, err])
      | Inr inB \<Rightarrow>
     (case wo_getMode ops HOut w of
        Inl err \<Rightarrow> Inl (Wrap ''stdout console mode'' [ErrNotTerminal, err])
      | Inr outB \<Rightarrow> Inr (new_wconsole inB outB)))))"

text \<open>
  The mode bits: processed, line, echo and window input are cleared and VT input is set; VT and
  processed output and wrapping are set, and newline auto-return is disabled where the host allows.
\<close>

definition rawIn :: "mode \<Rightarrow> mode" where
  "rawIn base = (base AND NOT (1 OR 2 OR 4 OR 8)) OR 0x200"

definition rawOut :: "mode \<Rightarrow> mode" where
  "rawOut base = base OR 4 OR 1 OR 2"

definition windows_MakeRaw ::
  "'w wincon_ops \<Rightarrow> wconsole \<times> 'w \<Rightarrow> (wconsole \<times> 'w) \<times> go_error option" where
  "windows_MakeRaw ops = (\<lambda>(c, w).
     if wc_closing c then ((c, w), Some (Wrap ''console: make raw'' [OsErrClosed]))
     else (case wo_setMode ops HIn (rawIn (wc_inBase c)) w of
       (w1, Some err) \<Rightarrow> ((c, w1), Some (Wrap ''console: set input mode'' [err]))
     | (w1, None) \<Rightarrow>
         (case wo_setMode ops HOut (rawOut (wc_outBase c) OR 8) w1 of
            (w2, None) \<Rightarrow> ((c, w2), None)
          | (w2, Some _) \<Rightarrow>
              (case wo_setMode ops HOut (rawOut (wc_outBase c)) w2 of
                 (w3, None) \<Rightarrow> ((c, w3), None)
               | (w3, Some err) \<Rightarrow>
                   (case wo_setMode ops HIn (wc_inBase c) w3 of
                      (w4, rb) \<Rightarrow>
                        ((c, w4), errors_Join
                           [Some (Wrap ''console: set output mode'' [err]),
                            map_option (\<lambda>e. Wrap ''console: roll back input mode'' [e]) rb]))))))"

definition setModeIfChanged :: "'w wincon_ops \<Rightarrow> handle \<Rightarrow> mode \<Rightarrow> 'w \<Rightarrow> 'w \<times> go_error option" where
  "setModeIfChanged ops h m w =
     (case wo_getMode ops h w of
        Inl err \<Rightarrow> (w, Some err)
      | Inr cur \<Rightarrow> if cur = m then (w, None) else wo_setMode ops h m w)"

definition windows_restoreLocked :: "'w wincon_ops \<Rightarrow> wconsole \<times> 'w \<Rightarrow> 'w \<times> go_error option" where
  "windows_restoreLocked ops = (\<lambda>(c, w).
     case setModeIfChanged ops HIn (wc_inBase c) w of
       (w1, e1) \<Rightarrow>
         (case setModeIfChanged ops HOut (wc_outBase c) w1 of
            (w2, e2) \<Rightarrow>
              (case errors_Join [e1, e2] of
                 Some err \<Rightarrow> (w2, Some (Wrap ''console: restore'' [err]))
               | None \<Rightarrow> (w2, None))))"

definition windows_restore ::
  "'w wincon_ops \<Rightarrow> wconsole \<times> 'w \<Rightarrow> (wconsole \<times> 'w) \<times> go_error option" where
  "windows_restore ops = (\<lambda>(c, w).
     if wc_closing c then ((c, w), None)
     else (case windows_restoreLocked ops (c, w) of (w', e) \<Rightarrow> ((c, w'), e)))"

subsection \<open>Read\<close>

text \<open>
  \<^verbatim>\<open>Read\<close> up to the console call: it has returned, it copies buffered bytes, or it goes into the
  console. After the call it looks at \<^verbatim>\<open>closing\<close> again.
\<close>

datatype read_action = RClosed | REmpty | RCopy | RConsole

definition Read_enter :: "nat \<Rightarrow> wconsole \<Rightarrow> wconsole \<times> read_action" where
  "Read_enter n c =
     (if wc_closing c then (c, RClosed)
      else if n = 0 then (c, REmpty)
      else if wc_pending c \<noteq> [] then (c, RCopy)
      else (c\<lparr>wc_reading := True\<rparr>, RConsole))"

definition Read_console :: "code_unit list \<Rightarrow> go_error option \<Rightarrow> wconsole \<Rightarrow> wconsole \<times> go_error option" where
  "Read_console us err c =
     (let c1 = c\<lparr>wc_reading := False\<rparr> in
      if wc_closing c then (c1\<lparr>wc_exited := True\<rparr>, Some OsErrClosed)
      else (case err of
              Some e \<Rightarrow> (c1, Some (Wrap ''console: read'' [e]))
            | None \<Rightarrow>
                (case utf16Decoder_append (wc_dec c) [] us of
                   (d, b) \<Rightarrow> (c1\<lparr>wc_dec := d, wc_pending := b\<rparr>, None))))"

definition Read_copy :: "nat \<Rightarrow> wconsole \<Rightarrow> wconsole \<times> bytes" where
  "Read_copy n c =
     (let b = take n (drop (wc_pendingOff c) (wc_pending c));
          off = wc_pendingOff c + length b
      in if off = length (wc_pending c) then (c\<lparr>wc_pending := [], wc_pendingOff := 0\<rparr>, b)
         else (c\<lparr>wc_pendingOff := off\<rparr>, b))"

text \<open>
  One \<^verbatim>\<open>Read\<close> into a buffer of \<open>n\<close> bytes. Each console call is the units and error it
  returned and whether \<^verbatim>\<open>Close\<close> started meanwhile; \<open>None\<close> while the last one is still blocked. The
  calls that were used are counted.
\<close>

fun windows_Read ::
  "nat \<Rightarrow> wconsole \<Rightarrow> (bool \<times> code_unit list \<times> go_error option) list
     \<Rightarrow> (wconsole \<times> bytes \<times> go_error option \<times> (bool \<times> code_unit list \<times> go_error option) list) option" where
  "windows_Read n c reads =
     (case Read_enter n c of
        (c1, RClosed) \<Rightarrow> Some (c1, [], Some OsErrClosed, reads)
      | (c1, REmpty) \<Rightarrow> Some (c1, [], None, reads)
      | (c1, RCopy) \<Rightarrow> (case Read_copy n c1 of (c2, b) \<Rightarrow> Some (c2, b, None, reads))
      | (c1, RConsole) \<Rightarrow>
          (case reads of
             [] \<Rightarrow> None
           | (closes, us, err) # reads' \<Rightarrow>
               (case Read_console us err (if closes then c1\<lparr>wc_closing := True\<rparr> else c1) of
                  (c2, Some e) \<Rightarrow> Some (c2, [], Some e, reads')
                | (c2, None) \<Rightarrow> windows_Read n c2 reads')))"

declare windows_Read.simps [simp del]

subsection \<open>Write\<close>

text \<open>The loop of \<^verbatim>\<open>Write\<close>; \<^verbatim>\<open>chunkLen\<close> cannot panic at the limit it is called with.\<close>

function write_units ::
  "'w wincon_ops \<Rightarrow> 'w \<Rightarrow> code_unit list \<Rightarrow> 'w \<times> go_error option" where
  "write_units ops w us =
     (if us = [] then (w, None)
      else (case chunkLen us writeUnits of
              None \<Rightarrow> (w, Some (OtherError ''panic''))
            | Some k \<Rightarrow>
                (case wo_write ops (take k us) w of
                   (w1, _, Some err) \<Rightarrow> (w1, Some (Wrap ''console: write'' [err]))
                 | (w1, n, None) \<Rightarrow>
                     if n = 0 then (w1, Some ErrShortWrite)
                     else if length (take k us) < n then
                       (w1, Some (OtherError ''console: write: console reported units written''))
                     else write_units ops w1 (drop n us))))"
  by pat_completeness auto
termination
  by (relation "measure (\<lambda>(ops, w, us). length us)") auto

declare write_units.simps [simp del]

definition windows_Write ::
  "'w wincon_ops \<Rightarrow> wconsole \<Rightarrow> 'w \<Rightarrow> bytes \<Rightarrow> (wconsole \<times> 'w) \<times> nat \<times> go_error option" where
  "windows_Write ops c w p =
     (if wc_closing c then ((c, w), 0, Some OsErrClosed)
      else (case utf8Encoder_append (wc_enc c) [] p of
              (e, us) \<Rightarrow>
                (case write_units ops w us of
                   (w', Some err) \<Rightarrow> ((c\<lparr>wc_enc := e\<rparr>, w'), 0, Some err)
                 | (w', None) \<Rightarrow> ((c\<lparr>wc_enc := e\<rparr>, w'), length p, None))))"

text \<open>The window rectangle is left, top, right, bottom in 16-bit coordinates.\<close>

definition windows_Size ::
  "wconsole \<Rightarrow> (16 word \<times> 16 word \<times> 16 word \<times> 16 word) result \<Rightarrow> Size result" where
  "windows_Size c query =
     (if wc_closing c then Inl (Wrap ''console: size'' [OsErrClosed])
      else (case query of
              Inl err \<Rightarrow> Inl (Wrap ''console: size'' [err])
            | Inr (l, t, r, b) \<Rightarrow>
                Inr \<lparr>sz_Rows = sint (b - t) + 1, sz_Cols = sint (r - l) + 1,
                     sz_Width = 0, sz_Height = 0\<rparr>))"

subsection \<open>Close\<close>

definition enter_record :: inputRecord where
  "enter_record =
     \<lparr>ir_EventType = 1,
      ir_Event = \<lparr>ke_KeyDown = 1, ke_RepeatCount = 1, ke_VirtualKeyCode = 0x0D,
        ke_VirtualScanCode = 0x1C, ke_UnicodeChar = 13, ke_ControlKeyState = 0\<rparr>\<rparr>"

text \<open>The result of a raw DLL call, and the calls that \<^verbatim>\<open>syscall_windows.go\<close> wraps.\<close>

definition proc_error :: "nat \<times> go_error \<Rightarrow> go_error option" where
  "proc_error = (\<lambda>(r1, err). if r1 = 0 then Some err else None)"

definition writeConsoleInput ::
  "'w wincon_ops \<Rightarrow> inputRecord list \<Rightarrow> 'w \<Rightarrow> 'w \<times> go_error option" where
  "writeConsoleInput ops recs w =
     (if recs = [] then (w, None)
      else (case wo_procInput ops recs w of (w', r) \<Rightarrow> (w', proc_error r)))"

text \<open>\<open>call\<close> is \<^verbatim>\<open>procSetConsoleCtrlHandler.Call\<close> with the handler: its argument is the add flag.\<close>

definition setConsoleCtrlHandler :: "(nat \<Rightarrow> nat \<times> go_error) \<Rightarrow> bool \<Rightarrow> go_error option" where
  "setConsoleCtrlHandler call add = proc_error (call (if add then 1 else 0))"

definition wakeReader :: "'w wincon_ops \<Rightarrow> 'w \<Rightarrow> 'w \<times> go_error option" where
  "wakeReader ops w =
     (case writeConsoleInput ops [enter_record] w of
        (w', Some err) \<Rightarrow> (w', Some (Wrap ''console: wake reader'' [err]))
      | (w', None) \<Rightarrow> (w', None))"

datatype wake_event = WakeExited | WakeTick | WakeDeadline

text \<open>\<open>None\<close> while the wait goes on; the deadline ends it after a second.\<close>

fun wakeAndWait ::
  "'w wincon_ops \<Rightarrow> 'w \<Rightarrow> go_error option \<Rightarrow> wake_event list \<Rightarrow> ('w \<times> go_error option) option" where
  "wakeAndWait ops w injectErr [] = None"
| "wakeAndWait ops w injectErr (ev # evs) =
     (case wakeReader ops w of
        (w1, e) \<Rightarrow>
          (let injectErr = (case e of Some _ \<Rightarrow> e | None \<Rightarrow> injectErr) in
           case ev of
             WakeExited \<Rightarrow> Some (w1, None)
           | WakeTick \<Rightarrow> wakeAndWait ops w1 injectErr evs
           | WakeDeadline \<Rightarrow>
               Some (w1, errors_Join
                 [Some (OtherError ''console: reader did not return after close''), injectErr])))"

definition windows_Close ::
  "'w wincon_ops \<Rightarrow> wake_event list \<Rightarrow> wconsole \<times> 'w \<Rightarrow> ((wconsole \<times> 'w) \<times> go_error option) option" where
  "windows_Close ops evs = (\<lambda>(c, w).
     if wc_closing c then Some ((c, w), None)
     else (let c' = c\<lparr>wc_closing := True\<rparr> in
           case (if wc_reading c then wakeAndWait ops w None evs else Some (w, None)) of
             None \<Rightarrow> None
           | Some (w1, e1) \<Rightarrow>
               (case wo_flush ops w1 of
                  (w2, e2) \<Rightarrow>
                    (case windows_restoreLocked ops (c', w2) of
                       (w3, e3) \<Rightarrow>
                         Some ((c', w3), errors_Join
                           [e1, map_option (\<lambda>e. Wrap ''console: flush input'' [e]) e2, e3])))))"

subsection \<open>Ctrl+Break\<close>

text \<open>
  \<open>br_once\<close> is \<^verbatim>\<open>handlerOnce\<close>; \<open>br_installed\<close> says whether the handler could be installed. A failed
  installation is not tried again.
\<close>

record 'f break_state =
  br_func :: "'f option"
  br_once :: bool
  br_installed :: bool

definition OnBreak :: "(nat \<Rightarrow> nat \<times> go_error) \<Rightarrow> 'f option \<Rightarrow> 'f break_state \<Rightarrow> 'f break_state" where
  "OnBreak call f b =
     (case f of
        None \<Rightarrow> b\<lparr>br_func := None\<rparr>
      | Some _ \<Rightarrow>
          (if br_once b then b\<lparr>br_func := f\<rparr>
           else b\<lparr>br_func := f, br_once := True, br_installed := setConsoleCtrlHandler call True = None\<rparr>))"

text \<open>The function to run, if any; without one the event goes to the next handler.\<close>

definition ctrlHandler :: "32 word \<Rightarrow> 'f break_state \<Rightarrow> 'f option" where
  "ctrlHandler ctrlType b = (if ctrlType \<noteq> 1 then None else br_func b)"

section \<open>The contract of both platforms\<close>

text \<open>
  What a client of a console relies on: \<^verbatim>\<open>MakeRaw\<close>, \<^verbatim>\<open>restore\<close> and \<^verbatim>\<open>Close\<close> keep the baseline, do
  nothing once the console is closed, and a \<^verbatim>\<open>restore\<close> or first \<^verbatim>\<open>Close\<close> that reports no error has put
  the terminal back (given \<open>ok\<close>, the documented behaviour of the operating system).
\<close>

locale restorable =
  fixes ok :: bool
    and raw restore :: "'c \<Rightarrow> 'c \<times> go_error option"
    and close :: "'c \<Rightarrow> 'c \<times> go_error option \<Rightarrow> bool"
    and closed :: "'c \<Rightarrow> bool"
    and cur base :: "'c \<Rightarrow> 's"
  assumes raw_closed: "closed c \<Longrightarrow> fst (raw c) = c"
    and restore_closed: "closed c \<Longrightarrow> fst (restore c) = c"
    and close_closed: "closed c \<Longrightarrow> close c r \<Longrightarrow> fst r = c"
    and raw_open: "closed (fst (raw c)) = closed c"
    and raw_base: "base (fst (raw c)) = base c"
    and restore_base: "base (fst (restore c)) = base c"
    and close_base: "close c r \<Longrightarrow> base (fst r) = base c"
    and restore_ok: "ok \<Longrightarrow> \<not> closed c \<Longrightarrow> restore c = (c', None) \<Longrightarrow> cur c' = base c"
    and close_ok: "ok \<Longrightarrow> \<not> closed c \<Longrightarrow> close c (c', None) \<Longrightarrow> closed c' \<and> cur c' = base c"
begin

definition op_step :: "'c \<Rightarrow> 'c \<Rightarrow> bool" where
  "op_step c c' \<longleftrightarrow> c' = fst (raw c) \<or> c' = fst (restore c) \<or> (\<exists>e. close c (c', e))"

lemma op_step_base: "op_step c c' \<Longrightarrow> base c' = base c"
  using raw_base restore_base close_base by (fastforce simp: op_step_def)

lemma op_step_closed: "closed c \<Longrightarrow> op_step c c' \<Longrightarrow> c' = c"
  using raw_closed restore_closed close_closed by (fastforce simp: op_step_def)

end

sublocale restorable \<subseteq> baseline: transition_system "\<lambda>c. base c = b" op_step "\<lambda>c. base c = b" for b
  by unfold_locales (simp_all add: op_step_base)

sublocale restorable \<subseteq> at_rest: transition_system
    "\<lambda>c. closed c \<and> cur c = b" op_step "\<lambda>c. closed c \<and> cur c = b" for b
  by unfold_locales (auto dest: op_step_closed)

context restorable
begin

lemma back_to_baseline:
  assumes "ok" and "op_step\<^sup>*\<^sup>* c c1" and "\<not> closed c1" and "close c1 (c2, None)" and "op_step\<^sup>*\<^sup>* c2 c3"
  shows "closed c3 \<and> cur c3 = base c"
proof -
  have "base c1 = base c" using baseline.inv_steps [OF assms(2)] by simp
  with close_ok [OF assms(1,3,4)] have "closed c2 \<and> cur c2 = base c" by simp
  with at_rest.inv_steps [OF assms(5)] show ?thesis by simp
qed

lemma restored:
  assumes "ok" and "op_step\<^sup>*\<^sup>* c c1" and "\<not> closed c1" and "restore c1 = (c2, None)"
  shows "cur c2 = base c"
  using baseline.inv_steps [OF assms(2)] restore_ok [OF assms(1,3,4)] by simp

end

text \<open>
  The documented behaviour of the system calls: \<open>st\<close> is the state the terminal really has.
\<close>

definition tty_laws :: "('w, 's) tty_ops \<Rightarrow> ('w \<Rightarrow> 's) \<Rightarrow> bool" where
  "tty_laws ops st \<longleftrightarrow>
     (\<forall>w s. tty_getState ops w = Inr s \<longrightarrow> st w = s)
     \<and> (\<forall>s w w'. tty_setState ops s w = (w', None) \<longrightarrow> st w' = s)
     \<and> (\<forall>w. st (fst (tty_close ops w)) = st w)"

definition wincon_laws :: "'w wincon_ops \<Rightarrow> (handle \<Rightarrow> 'w \<Rightarrow> mode) \<Rightarrow> bool" where
  "wincon_laws ops md \<longleftrightarrow>
     (\<forall>h w m. wo_getMode ops h w = Inr m \<longrightarrow> md h w = m)
     \<and> (\<forall>h m w w'. wo_setMode ops h m w = (w', None) \<longrightarrow> md h w' = m \<and> (\<forall>h'. h' \<noteq> h \<longrightarrow> md h' w' = md h' w))"

lemma errors_Join_None: "errors_Join es = None \<longleftrightarrow> list_all (\<lambda>e. e = None) es"
proof -
  have "filter (\<lambda>e. e \<noteq> None) es = [] \<longleftrightarrow> list_all (\<lambda>e. e = None) es"
    by (auto simp: list_all_iff filter_empty_conv)
  then show ?thesis by (auto simp: errors_Join_def split: list.splits)
qed

lemmas None_errors_Join = trans [OF eq_commute errors_Join_None]

lemma unix_restoreLocked_ok:
  "tty_laws ops st \<Longrightarrow> unix_restoreLocked ops (c, w) = (w', None) \<Longrightarrow> st w' = con_base c"
  by (auto simp: unix_restoreLocked_def controlFile_def tty_laws_def split: option.splits sum.splits
      prod.splits if_splits)

interpretation unix: restorable "tty_laws ops st" "unix_MakeRaw ops" "unix_restore ops"
    "\<lambda>c r. r = unix_Close ops c" "\<lambda>c. con_closed (fst c)" "\<lambda>c. st (snd c)" "\<lambda>c. con_base (fst c)"
  for ops st
proof unfold_locales
  fix c :: "'b console \<times> 'a" and c'
  assume a: "tty_laws ops st" "\<not> con_closed (fst c)"
  obtain k w where c: "c = (k, w)" by (cases c)
  show "st (snd c') = con_base (fst c)" if "unix_restore ops c = (c', None)"
    using that a c unix_restoreLocked_ok [OF a(1), of k w]
    by (auto simp: unix_restore_def split: prod.splits)
  show "con_closed (fst c') \<and> st (snd c') = con_base (fst c)" if "(c', None) = unix_Close ops c"
  proof -
    obtain w1 e1 where r: "unix_restoreLocked ops (k\<lparr>con_closed := True\<rparr>, w) = (w1, e1)" by fastforce
    with that a(2) c have "e1 = None" and c': "c' = (k\<lparr>con_closed := True\<rparr>, fst (tty_close ops w1))"
      by (auto simp: unix_Close_def Let_def None_errors_Join split: prod.splits)
    with r unix_restoreLocked_ok [OF a(1)] have "st w1 = con_base k" by fastforce
    with a(1) c c' show ?thesis by (simp add: tty_laws_def)
  qed
qed (auto simp: unix_MakeRaw_def unix_restore_def unix_Close_def Let_def
      split: prod.splits option.splits)

lemma setModeIfChanged_ok:
  "wincon_laws ops md \<Longrightarrow> setModeIfChanged ops h m w = (w', None) \<Longrightarrow>
     md h w' = m \<and> (\<forall>h'. h' \<noteq> h \<longrightarrow> md h' w' = md h' w)"
  by (auto simp: setModeIfChanged_def wincon_laws_def split: sum.splits if_splits)

lemma windows_restoreLocked_ok:
  assumes "wincon_laws ops md" and "windows_restoreLocked ops (c, w) = (w', None)"
  shows "md HIn w' = wc_inBase c \<and> md HOut w' = wc_outBase c"
proof -
  obtain w1 e1 where 1: "setModeIfChanged ops HIn (wc_inBase c) w = (w1, e1)" by fastforce
  obtain w2 e2 where 2: "setModeIfChanged ops HOut (wc_outBase c) w1 = (w2, e2)" by fastforce
  from assms(2) 1 2 have "e1 = None" "e2 = None" "w' = w2"
    by (auto simp: windows_restoreLocked_def errors_Join_None split: option.splits)
  with setModeIfChanged_ok [OF assms(1)] 1 2 show ?thesis by fastforce
qed

interpretation windows: restorable "wincon_laws ops md" "windows_MakeRaw ops" "windows_restore ops"
    "\<lambda>c r. \<exists>evs. windows_Close ops evs c = Some r" "\<lambda>c. wc_closing (fst c)"
    "\<lambda>c. (md HIn (snd c), md HOut (snd c))" "\<lambda>c. (wc_inBase (fst c), wc_outBase (fst c))"
  for ops md
proof unfold_locales
  fix c :: "wconsole \<times> 'a" and c'
  assume a: "wincon_laws ops md" "\<not> wc_closing (fst c)"
  obtain k w where c: "c = (k, w)" by (cases c)
  show "(md HIn (snd c'), md HOut (snd c')) = (wc_inBase (fst c), wc_outBase (fst c))"
    if "windows_restore ops c = (c', None)"
    using that a c windows_restoreLocked_ok [OF a(1), of k w]
    by (auto simp: windows_restore_def split: prod.splits)
  show "wc_closing (fst c') \<and> (md HIn (snd c'), md HOut (snd c')) = (wc_inBase (fst c), wc_outBase (fst c))"
    if "\<exists>evs. windows_Close ops evs c = Some (c', None)"
  proof -
    from that a(2) c obtain w1 e1 where close: "(case wo_flush ops w1 of (w2, e2) \<Rightarrow>
        (case windows_restoreLocked ops (k\<lparr>wc_closing := True\<rparr>, w2) of (w3, e3) \<Rightarrow>
           ((k\<lparr>wc_closing := True\<rparr>, w3), errors_Join
              [e1, map_option (\<lambda>e. Wrap ''console: flush input'' [e]) e2, e3]))) = (c', None)"
      by (auto simp: windows_Close_def Let_def case_prod_beta split: option.split_asm if_split_asm)
    obtain w2 e2 where "wo_flush ops w1 = (w2, e2)" by fastforce
    moreover obtain w3 e3 where "windows_restoreLocked ops (k\<lparr>wc_closing := True\<rparr>, w2) = (w3, e3)"
      by fastforce
    moreover from this close calculation have "e3 = None" "c' = (k\<lparr>wc_closing := True\<rparr>, w3)"
      by (auto simp: errors_Join_None)
    ultimately have "windows_restoreLocked ops (k\<lparr>wc_closing := True\<rparr>, w2) = (w3, None)"
      "c' = (k\<lparr>wc_closing := True\<rparr>, w3)" by simp_all
    with windows_restoreLocked_ok [OF a(1)] c show ?thesis by fastforce
  qed
qed (auto simp: windows_MakeRaw_def windows_restore_def windows_Close_def Let_def case_prod_beta
      split: option.splits if_splits)

section \<open>Reading and writing as a stream\<close>

text \<open>The bytes of the console's input that \<^verbatim>\<open>Read\<close> has decoded but not returned yet.\<close>

definition unread :: "wconsole \<Rightarrow> bytes" where
  "unread c = drop (wc_pendingOff c) (wc_pending c)"

definition reader_wf :: "wconsole \<Rightarrow> bool" where
  "reader_wf c \<longleftrightarrow> (if wc_pending c = [] then wc_pendingOff c = 0 else wc_pendingOff c < length (wc_pending c))"

lemma Read_copy_stream:
  assumes "Read_copy n c = (c', b)" and "reader_wf c"
  shows "unread c = b @ unread c'" and "reader_wf c'" and "wc_dec c' = wc_dec c"
    and "wc_closing c' = wc_closing c" and "length b = min n (length (unread c))"
proof -
  have "length b = min n (length (unread c)) \<and> b = take n (unread c)"
    using assms(1) by (auto simp: Read_copy_def Let_def unread_def split: if_splits)
  then show "unread c = b @ unread c'" and "reader_wf c'" and "wc_dec c' = wc_dec c"
    and "wc_closing c' = wc_closing c" and "length b = min n (length (unread c))"
    using assms append_take_drop_id [of n "unread c"]
    by (auto simp: Read_copy_def Let_def unread_def reader_wf_def min_def add.commute
        split: if_splits)
qed

lemma Read_console_stream:
  assumes "Read_console us err c = (c', None)" and "reader_wf c" and "wc_pending c = []"
  shows "utf16Decoder_append (wc_dec c) [] us = (wc_dec c', unread c')" and "reader_wf c'"
    and "wc_closing c' = wc_closing c" and "\<not> wc_closing c" and "err = None"
  using assms
  by (auto simp: Read_console_def Let_def reader_wf_def unread_def split: if_splits option.splits prod.splits)

lemma windows_Read_buffered:
  assumes "windows_Read n c reads = Some (c', b, None, rest)" and "reader_wf c"
    and "n = 0 \<or> wc_pending c \<noteq> []"
  shows "rest = reads \<and> wc_dec c' = wc_dec c \<and> unread c = b @ unread c' \<and> reader_wf c' \<and> (0 < n \<longrightarrow> b \<noteq> [])"
proof (cases "n = 0")
  case True
  with assms show ?thesis by (auto simp: windows_Read.simps [of 0 c] Read_enter_def split: if_splits)
next
  case False
  with assms have cp: "Read_copy n c = (c', b)" and "rest = reads"
    by (auto simp: windows_Read.simps [of n c] Read_enter_def split: if_splits prod.splits)
  moreover from False assms have "unread c \<noteq> []" by (simp add: unread_def reader_wf_def)
  ultimately show ?thesis using Read_copy_stream [OF cp assms(2)]
    by (auto simp: min_def split: if_splits)
qed

lemma windows_Read_stream:
  assumes "windows_Read n c reads = Some (c', b, None, rest)" and "reader_wf c"
  shows "\<exists>used. reads = used @ rest
    \<and> utf16Decoder_append (wc_dec c) (unread c) (concat (map (fst \<circ> snd) used)) = (wc_dec c', b @ unread c')
    \<and> reader_wf c' \<and> (0 < n \<longrightarrow> b \<noteq> [])"
  using assms
proof (induction reads arbitrary: c)
  case Nil
  then have "n = 0 \<or> wc_pending c \<noteq> []"
    by (auto simp: windows_Read.simps [of n c] Read_enter_def split: if_splits)
  with windows_Read_buffered [OF Nil] show ?case by auto
next
  case (Cons r reads)
  obtain closes us err where r: "r = (closes, us, err)" by (cases r)
  show ?case
  proof (cases "n = 0 \<or> wc_pending c \<noteq> []")
    case True
    with windows_Read_buffered [OF Cons.prems] show ?thesis by auto
  next
    case False
    with Cons.prems(1) have 4: "\<not> wc_closing c" "0 < n" "wc_pending c = []"
      by (auto simp: windows_Read.simps [of n c] Read_enter_def split: if_splits)
    let ?c1 = "c\<lparr>wc_reading := True, wc_closing := closes\<rparr>"
    have c1: "(if closes then c\<lparr>wc_reading := True, wc_closing := True\<rparr> else c\<lparr>wc_reading := True\<rparr>) = ?c1"
      using 4(1) by (cases c) auto
    obtain c2 e where rc: "Read_console us err ?c1 = (c2, e)" by fastforce
    from Cons.prems(1) 4 r rc c1 have e: "e = None"
      and go: "windows_Read n c2 reads = Some (c', b, None, rest)"
      by (auto simp: windows_Read.simps [of n c] Read_enter_def split: option.splits)
    have wf1: "reader_wf ?c1" "wc_pending ?c1 = []" using Cons.prems(2) 4 by (auto simp: reader_wf_def)
    note rs = Read_console_stream [OF rc [unfolded e] wf1]
    from Cons.IH [OF go rs(2)] obtain used where u: "reads = used @ rest"
      "utf16Decoder_append (wc_dec c2) (unread c2) (concat (map (fst \<circ> snd) used)) = (wc_dec c', b @ unread c')"
      "reader_wf c'" "0 < n \<longrightarrow> b \<noteq> []" by blast
    have "unread c = []" using 4 by (simp add: unread_def)
    with rs(1) u(2) have "utf16Decoder_append (wc_dec c) (unread c) (concat (map (fst \<circ> snd) (r # used))) =
        (wc_dec c', b @ unread c')"
      by (simp add: r utf16Decoder_append_append)
    with u show ?thesis by (intro exI [of _ "r # used"]) (simp add: comp_def)
  qed
qed

text \<open>A sequence of \<^verbatim>\<open>Read\<close> calls with the given buffer sizes, as long as none fails.\<close>

fun windows_Reads ::
  "nat list \<Rightarrow> wconsole \<Rightarrow> (bool \<times> code_unit list \<times> go_error option) list
     \<Rightarrow> (wconsole \<times> bytes list \<times> (bool \<times> code_unit list \<times> go_error option) list) option" where
  "windows_Reads [] c reads = Some (c, [], reads)"
| "windows_Reads (n # ns) c reads =
     (case windows_Read n c reads of
        Some (c1, b, None, reads1) \<Rightarrow>
          (case windows_Reads ns c1 reads1 of
             Some (c2, bs, reads2) \<Rightarrow> Some (c2, b # bs, reads2)
           | None \<Rightarrow> None)
      | _ \<Rightarrow> None)"

lemma windows_Reads_stream:
  "windows_Reads ns c reads = Some (c', bs, rest) \<Longrightarrow> reader_wf c \<Longrightarrow>
     \<exists>used. reads = used @ rest \<and> reader_wf c'
       \<and> utf16Decoder_append (wc_dec c) (unread c) (concat (map (fst \<circ> snd) used)) =
           (wc_dec c', concat bs @ unread c')"
proof (induction ns arbitrary: c reads bs)
  case Nil
  then show ?case by auto
next
  case (Cons n ns)
  from Cons.prems(1) obtain c1 b reads1 bs1 where
    1: "windows_Read n c reads = Some (c1, b, None, reads1)"
      "windows_Reads ns c1 reads1 = Some (c', bs1, rest)" "bs = b # bs1"
    by (auto split: option.splits prod.splits)
  from windows_Read_stream [OF 1(1) Cons.prems(2)] obtain u1 where
    u1: "reads = u1 @ reads1" "reader_wf c1"
      "utf16Decoder_append (wc_dec c) (unread c) (concat (map (fst \<circ> snd) u1)) = (wc_dec c1, b @ unread c1)"
    by blast
  from Cons.IH [OF 1(2) u1(2)] obtain u2 where
    u2: "reads1 = u2 @ rest" "reader_wf c'"
      "utf16Decoder_append (wc_dec c1) (unread c1) (concat (map (fst \<circ> snd) u2)) =
         (wc_dec c', concat bs1 @ unread c')" by blast
  have "utf16Decoder_append (wc_dec c1) (b @ unread c1) (concat (map (fst \<circ> snd) u2)) =
      (wc_dec c', b @ concat bs1 @ unread c')"
    using u2(3) utf16Decoder_append_dst [of "wc_dec c1" "b @ unread c1"]
      utf16Decoder_append_dst [of "wc_dec c1" "unread c1"] by auto
  with u1 u2 1(3) show ?case
    by (intro exI [of _ "u1 @ u2"]) (simp add: utf16Decoder_append_append comp_def)
qed

text \<open>
  A console call shows as many of its units as it reports; \<open>screen\<close> is what the screen has
  been sent so far.
\<close>

definition screen_laws :: "'w wincon_ops \<Rightarrow> ('w \<Rightarrow> code_unit list) \<Rightarrow> bool" where
  "screen_laws ops screen \<longleftrightarrow>
     (\<forall>us w w' n e. wo_write ops us w = (w', n, e) \<longrightarrow> screen w' = screen w @ take n us)"

lemma write_units_screen:
  assumes "screen_laws ops screen" and "write_units ops w us = (w', e)"
  shows "\<exists>k. screen w' = screen w @ take k us \<and> (e = None \<longrightarrow> length us \<le> k)"
  using assms
proof (induction ops w us rule: write_units.induct)
  case (1 ops w us)
  show ?case
  proof (cases "us = []")
    case True
    with "1.prems" show ?thesis by (simp add: write_units.simps)
  next
    case False
    obtain k where k: "chunkLen us writeUnits = Some k"
      using chunkLen_total [of writeUnits us] by (auto simp: writeUnits_def)
    obtain w1 n e1 where wr: "wo_write ops (take k us) w = (w1, n, e1)" by (cases "wo_write ops (take k us) w") auto
    have scr: "screen w1 = screen w @ take n (take k us)"
      using "1.prems"(1) wr unfolding screen_laws_def by blast
    show ?thesis
    proof (cases "e1 = None \<and> 0 < n \<and> n \<le> length (take k us)")
      case True
      then have rec: "write_units ops w us = write_units ops w1 (drop n us)"
        using False k wr by (subst write_units.simps) auto
      from True have "\<exists>j. screen w' = screen w1 @ take j (drop n us) \<and> (e = None \<longrightarrow> length (drop n us) \<le> j)"
        using "1.IH" [OF False k wr [symmetric] refl] "1.prems" rec by auto
      then obtain j where j: "screen w' = screen w1 @ take j (drop n us)" "e = None \<longrightarrow> length (drop n us) \<le> j"
        by blast
      have "take n (take k us) @ take j (drop n us) = take (n + j) us"
        using True by (simp add: take_add min_def split: if_splits)
      with scr j True show ?thesis by (intro exI [of _ "n + j"]) auto
    next
      case no: False
      with "1.prems"(2) False k wr have "w' = w1" "e \<noteq> None"
        by (auto simp: write_units.simps [of ops w us] split: option.splits if_splits)
      with scr show ?thesis by (intro exI [of _ "min n k"]) auto
    qed
  qed
qed

section \<open>Properties\<close>

text \<open>One operation on an open or closed console, whatever its outcome.\<close>

definition unix_op :: "('w, 's) tty_ops \<Rightarrow> 's console \<times> 'w \<Rightarrow> 's console \<times> 'w \<Rightarrow> bool" where
  "unix_op ops c c' \<longleftrightarrow>
     c' = fst (unix_MakeRaw ops c) \<or> c' = fst (unix_restore ops c) \<or> c' = fst (unix_Close ops c)"

lemma unix_op_step: "unix.op_step ops = unix_op ops"
  by (auto simp: unix.op_step_def unix_op_def fun_eq_iff) (metis fst_conv surj_pair)+

definition windows_op :: "'w wincon_ops \<Rightarrow> wconsole \<times> 'w \<Rightarrow> wconsole \<times> 'w \<Rightarrow> bool" where
  "windows_op ops c c' \<longleftrightarrow>
     c' = fst (windows_MakeRaw ops c) \<or> c' = fst (windows_restore ops c)
     \<or> (\<exists>evs e. windows_Close ops evs c = Some (c', e))"

lemma windows_op_step: "windows.op_step ops = windows_op ops"
  by (auto simp: windows.op_step_def windows_op_def fun_eq_iff)

lemma console_open_base:
  "tty_laws ops st \<Longrightarrow> console_open ops term i out opened = (Inr (c, w), x) \<Longrightarrow>
     con_base c = st w \<and> \<not> con_closed c"
  by (auto simp: console_open_def newConsole_def controlValue_def tty_laws_def
      split: if_splits sum.splits option.splits)

text \<open>A terminal of one number, and a console of two modes, for the witnesses.\<close>

definition demo_tty :: "(nat, nat) tty_ops" where
  "demo_tty = \<lparr>tty_control = \<lambda>_. None, tty_getState = Inr, tty_setState = \<lambda>s _. (s, None),
     tty_makeRaw = \<lambda>w. (w + 1, None), tty_winsize = \<lambda>_. Inr (24, 80, 0, 0), tty_close = \<lambda>w. (w, None)\<rparr>"

lemma demo_tty_laws: "tty_laws demo_tty id"
  by (simp add: tty_laws_def demo_tty_def)

definition demo_wincon :: "(mode \<times> mode \<times> code_unit list) wincon_ops" where
  "demo_wincon =
     \<lparr>wo_getMode = \<lambda>h (i, x, s). Inr (case h of HIn \<Rightarrow> i | HOut \<Rightarrow> x),
      wo_setMode = \<lambda>h m (i, x, s). (case h of HIn \<Rightarrow> (m, x, s) | HOut \<Rightarrow> (i, m, s), None),
      wo_write = \<lambda>us (i, x, s). ((i, x, s @ take 3 us), min 3 (length us), None),
      wo_flush = \<lambda>w. (w, None), wo_procInput = \<lambda>_ w. (w, 1, OtherError ''success'')\<rparr>"

definition demo_mode :: "handle \<Rightarrow> mode \<times> mode \<times> code_unit list \<Rightarrow> mode" where
  "demo_mode h = (\<lambda>(i, x, s). case h of HIn \<Rightarrow> i | HOut \<Rightarrow> x)"

lemma demo_wincon_laws: "wincon_laws demo_wincon demo_mode"
  by (auto simp: wincon_laws_def demo_wincon_def demo_mode_def split: handle.splits)

lemma demo_screen_laws: "screen_laws demo_wincon (\<lambda>(i, x, s). s)"
  by (auto simp: screen_laws_def demo_wincon_def min_def)

lemma resizes_loop_fresh: "distinct_adj (prev # resizes_loop prev evs)"
proof (induction prev evs rule: resizes_loop.induct)
  case (3 prev ctx query yield evs)
  then show ?case
    by (auto simp: resizeCheck_def split: sum.splits if_splits)
qed simp_all

text \<open>
  Unix: the user's terminal always gets its own state back. After \<^verbatim>\<open>Open\<close>, whatever sequence of
  \<^verbatim>\<open>MakeRaw\<close>, \<^verbatim>\<open>restore\<close> and \<^verbatim>\<open>Close\<close> calls follows with whatever errors, once the first \<^verbatim>\<open>Close\<close> has
  reported no error the terminal is in the state it had at \<^verbatim>\<open>Open\<close>, and no later call on the
  console (a stale \<^verbatim>\<open>restore\<close>, a \<^verbatim>\<open>MakeRaw\<close>, another \<^verbatim>\<open>Close\<close>) changes that.
\<close>

lemma unix_terminal_restored:
  assumes "tty_laws ops st" and "console_open ops term i out opened = (Inr (k, w), x)"
    and "(unix_op ops)\<^sup>*\<^sup>* (k, w) c1" and "\<not> con_closed (fst c1)" and "unix_Close ops c1 = (c2, None)"
    and "(unix_op ops)\<^sup>*\<^sup>* c2 c3"
  shows "st (snd c3) = st w"
  using unix.back_to_baseline [where ops = ops and st = st and c = "(k, w)" and ?c1.0 = c1 and ?c2.0 = c2 and ?c3.0 = c3]
    assms console_open_base [OF assms(1,2)]
  by (simp add: unix_op_step)

lemma unix_terminal_restored_witness: "id (snd (\<lparr>con_base = 5, con_closed = True\<rparr> :: nat console, 5 :: nat)) = id 5"
proof (rule unix_terminal_restored [OF demo_tty_laws])
  show "console_open demo_tty (\<lambda>_. True) 0 0 (Inr 5) = (Inr (\<lparr>con_base = 5, con_closed = False\<rparr>, 5), Some 5)"
    by (simp add: console_open_def isTerminal_def controlValue_def newConsole_def demo_tty_def)
  have "unix_op demo_tty (\<lparr>con_base = 5, con_closed = False\<rparr>, 5) (\<lparr>con_base = 5, con_closed = False\<rparr>, 6)"
    by (simp add: unix_op_def unix_MakeRaw_def controlFile_def demo_tty_def)
  then show "(unix_op demo_tty)\<^sup>*\<^sup>* (\<lparr>con_base = 5, con_closed = False\<rparr>, 5) (\<lparr>con_base = 5, con_closed = False\<rparr>, 6)"
    by blast
  show "unix_Close demo_tty (\<lparr>con_base = 5, con_closed = False\<rparr>, 6) = ((\<lparr>con_base = 5, con_closed = True\<rparr>, 5), None)"
    by (simp add: unix_Close_def unix_restoreLocked_def controlFile_def demo_tty_def errors_Join_def)
  have "unix_op demo_tty (\<lparr>con_base = 5, con_closed = True\<rparr>, 5) (\<lparr>con_base = 5, con_closed = True\<rparr>, 5)"
    by (simp add: unix_op_def unix_MakeRaw_def)
  then show "(unix_op demo_tty)\<^sup>*\<^sup>* (\<lparr>con_base = 5, con_closed = True\<rparr>, 5) (\<lparr>con_base = 5, con_closed = True\<rparr>, 5)"
    by blast
qed simp

text \<open>
  Windows: the same for both console modes, with a reader blocked in the console or not, and
  whether or not the host rejected a mode on the way.
\<close>

lemma windows_modes_restored:
  assumes "wincon_laws ops md" and "windows_Open ops None None w = Inr k"
    and "(windows_op ops)\<^sup>*\<^sup>* (k, w) c1" and "\<not> wc_closing (fst c1)"
    and "windows_Close ops evs c1 = Some (c2, None)" and "(windows_op ops)\<^sup>*\<^sup>* c2 c3"
  shows "md h (snd c3) = md h w"
proof -
  have "wc_inBase k = md HIn w \<and> wc_outBase k = md HOut w"
    using assms(1,2) by (auto simp: windows_Open_def wincon_laws_def new_wconsole_def split: sum.splits)
  with windows.back_to_baseline [where ops = ops and md = md and c = "(k, w)" and ?c1.0 = c1 and ?c2.0 = c2 and ?c3.0 = c3]
    assms show ?thesis by (cases h) (auto simp: windows_op_step)
qed

lemma windows_modes_restored_witness:
  "demo_mode HIn (snd (new_wconsole 0x1f7 7\<lparr>wc_closing := True\<rparr>, (0x1f7, 7, []))) = demo_mode HIn (0x1f7, 7, [])"
proof (rule windows_modes_restored [OF demo_wincon_laws])
  show "windows_Open demo_wincon None None (0x1f7, 7, []) = Inr (new_wconsole 0x1f7 7)"
    by (simp add: windows_Open_def demo_wincon_def)
  have "windows_op demo_wincon (new_wconsole 0x1f7 7, (0x1f7, 7, [])) (new_wconsole 0x1f7 7, (0x3f0, 15, []))"
    by (simp add: windows_op_def windows_MakeRaw_def new_wconsole_def demo_wincon_def rawIn_def rawOut_def)
  then show "(windows_op demo_wincon)\<^sup>*\<^sup>* (new_wconsole 0x1f7 7, (0x1f7, 7, [])) (new_wconsole 0x1f7 7, (0x3f0, 15, []))"
    by blast
  show "windows_Close demo_wincon [] (new_wconsole 0x1f7 7, (0x3f0, 15, [])) =
      Some ((new_wconsole 0x1f7 7\<lparr>wc_closing := True\<rparr>, (0x1f7, 7, [])), None)"
    by (simp add: windows_Close_def new_wconsole_def demo_wincon_def windows_restoreLocked_def
        setModeIfChanged_def errors_Join_def)
  have "windows_op demo_wincon (new_wconsole 0x1f7 7\<lparr>wc_closing := True\<rparr>, (0x1f7, 7, []))
      (new_wconsole 0x1f7 7\<lparr>wc_closing := True\<rparr>, (0x1f7, 7, []))"
    by (simp add: windows_op_def windows_restore_def)
  then show "(windows_op demo_wincon)\<^sup>*\<^sup>* (new_wconsole 0x1f7 7\<lparr>wc_closing := True\<rparr>, (0x1f7, 7, []))
      (new_wconsole 0x1f7 7\<lparr>wc_closing := True\<rparr>, (0x1f7, 7, []))" by blast
qed (simp add: new_wconsole_def)

text \<open>
  C32. Windows keyboard input is neither lost, repeated nor reordered: over any sequence of \<^verbatim>\<open>Read\<close>
  calls with any buffer sizes, the bytes returned followed by those still buffered are the UTF-8 of
  all units the console delivered, read as one stream (a surrogate pair split over two console
  reads is one character).
\<close>

theorem windows_input_lossless:
  assumes "windows_Reads ns (new_wconsole i out) reads = Some (c', bs, rest)"
  shows "\<exists>used. reads = used @ rest
    \<and> decode_reads new_utf16Decoder (map (fst \<circ> snd) used) = (concat bs @ unread c', wc_dec c')"
proof -
  have "reader_wf (new_wconsole i out)" "unread (new_wconsole i out) = []" "wc_dec (new_wconsole i out) = new_utf16Decoder"
    by (simp_all add: new_wconsole_def reader_wf_def unread_def)
  with windows_Reads_stream [OF assms] show ?thesis by (auto simp: decode_reads_eq)
qed

theorem windows_input_lossless_witness:
  "\<exists>used. [(False, [0x41, 0xD83D], None :: go_error option), (False, [0xDE00], None)] = used @ []
    \<and> decode_reads new_utf16Decoder (map (fst \<circ> snd) used) =
        (concat [[0x41], [0xF0, 0x9F, 0x98]] @ unread (new_wconsole 0 0\<lparr>wc_pending := [0xF0, 0x9F, 0x98, 0x80], wc_pendingOff := 3\<rparr>),
         wc_dec (new_wconsole 0 0\<lparr>wc_pending := [0xF0, 0x9F, 0x98, 0x80], wc_pendingOff := 3\<rparr>))"
proof (rule windows_input_lossless [of "[8, 3]" 0 0])
  show "windows_Reads [8, 3] (new_wconsole 0 0) [(False, [0x41, 0xD83D], None), (False, [0xDE00], None)] =
    Some (new_wconsole 0 0\<lparr>wc_pending := [0xF0, 0x9F, 0x98, 0x80], wc_pendingOff := 3\<rparr>, [[0x41], [0xF0, 0x9F, 0x98]], [])"
    by (simp add: windows_Read.simps Read_enter_def Read_console_def Read_copy_def new_wconsole_def
        new_utf16Decoder_def utf16_unit_def isHighSurrogate_def isLowSurrogate_def utf8_AppendRune_def
        utf8_encode_def utf16_DecodeRune_def scalar_value_def)
qed

text \<open>
  Windows output: a \<^verbatim>\<open>Write\<close> on an open console that reports success has sent the screen exactly
  the UTF-16 of the bytes it was given (after the tail an earlier \<^verbatim>\<open>Write\<close> held back), however the
  console cut the calls, and holds back exactly the new incomplete tail; a \<^verbatim>\<open>Write\<close> that fails has
  sent a prefix of it.
\<close>

lemma windows_output_exact:
  assumes "screen_laws ops screen" and "encoder_wf (wc_enc c)" and "\<not> wc_closing c"
    and "windows_Write ops c w p = ((c', w'), n, e)"
  shows "(\<exists>k. screen w' = screen w @ take k (fst (encode_packets (wc_enc c) [p]))
            \<and> (e = None \<longrightarrow> n = length p \<and> length (fst (encode_packets (wc_enc c) [p])) \<le> k))
    \<and> wc_enc c' = snd (encode_packets (wc_enc c) [p]) \<and> encoder_wf (wc_enc c')"
proof -
  obtain e1 us where a: "utf8Encoder_append (wc_enc c) [] p = (e1, us)" by fastforce
  obtain w1 r where u: "write_units ops w us = (w1, r)" by fastforce
  from assms(3,4) a u have "w' = w1" "wc_enc c' = e1" "e = r" "e = None \<Longrightarrow> n = length p"
    by (auto simp: windows_Write_def split: option.splits)
  with write_units_screen [OF assms(1) u] a utf8Encoder_append_wf [OF assms(2), of "[]" p]
  show ?thesis by auto
qed

lemma windows_output_exact_witness:
  "(\<exists>k. [0x41, 0x42, 0x43, 0x44] = [] @ take k (fst (encode_packets new_utf8Encoder [[0x41, 0x42, 0x43, 0x44, 0xE2]]))
            \<and> (None = (None :: go_error option) \<longrightarrow> (5 :: nat) = length [0x41, 0x42, 0x43, 0x44, 0xE2 :: byte]
               \<and> length (fst (encode_packets new_utf8Encoder [[0x41, 0x42, 0x43, 0x44, 0xE2]])) \<le> k))
    \<and> \<lparr>enc_carry = [0xE2]\<rparr> = snd (encode_packets new_utf8Encoder [[0x41, 0x42, 0x43, 0x44, 0xE2]])
    \<and> encoder_wf \<lparr>enc_carry = [0xE2]\<rparr>"
proof -
  have "windows_Write demo_wincon (new_wconsole 0 0) (0, 0, []) [0x41, 0x42, 0x43, 0x44, 0xE2] =
      ((new_wconsole 0 0\<lparr>wc_enc := \<lparr>enc_carry = [0xE2]\<rparr>\<rparr>, (0, 0, [0x41, 0x42, 0x43, 0x44])), 5, None)"
  proof -
    have "utf8Encoder_append (wc_enc (new_wconsole 0 0)) [] [0x41, 0x42, 0x43, 0x44, 0xE2] =
        (\<lparr>enc_carry = [0xE2]\<rparr>, [0x41, 0x42, 0x43, 0x44])"
      by (simp add: utf8Encoder_append_def new_wconsole_def new_utf8Encoder_def utf8_loop.simps
          utf8_FullRune_def utf8_first_def utf8_DecodeRune_def in_range_def utf16_AppendRune_def
          scalar_value_def utf16_encode_def UTFMax_def)
    then show ?thesis
      by (simp add: windows_Write_def write_units.simps chunkLen_def writeUnits_def demo_wincon_def new_wconsole_def)
  qed
  from windows_output_exact [OF demo_screen_laws _ _ this] new_utf8Encoder_wf show ?thesis
    by (auto simp: new_wconsole_def simp del: encode_packets.simps)
qed

text \<open>
  \<^verbatim>\<open>Resizes\<close> reports changes only: the first size it yields differs from the size when it was
  called, and each further one from the one before it, so a signal or tick without a change is never
  passed on.
\<close>

lemma resizes_are_changes: "distinct_adj (Size_or_zero query0 # unix_Resizes query0 first evs)"
  by (cases first) (simp add: unix_Resizes_def resizes_loop_fresh del: resizes_loop.simps)

end
