(* ===== verification/ET_Session.thy ===== *)
theory ET_Session
  imports ET_Wire ET_Console "HOL-Library.Sublist"
begin

text \<open>
  Package \<^verbatim>\<open>internal/session\<close>: \<^verbatim>\<open>Start\<close> (session.go), the local escape (escape.go), the router
  (router.go), the terminal service with its pending input and window sizes (terminal.go), and \<^verbatim>\<open>Run\<close>
  (run.go). Every operation is a function; \<open>sess_step\<close> puts the goroutines of \<^verbatim>\<open>Run\<close> together:
  each rule is one goroutine running from one blocking point to the next, so the rules cover every
  interleaving. The transport and the terminal appear through the outcomes of their calls.
\<close>

section \<open>Start (session.go)\<close>

definition MaxInputPacket :: nat where "MaxInputPacket = 65536"
definition maxRejectText :: nat where "maxRejectText = 256"

record session_codecs =
  sc_InitialPayload :: "InitialPayload proto_codec"
  sc_InitialResponse :: "InitialResponse proto_codec"
  sc_ExitStatus :: "TerminalExitStatus proto_codec"
  sc_TerminalBuffer :: "TerminalBuffer proto_codec"
  sc_TerminalInfo :: "TerminalInfo proto_codec"

text \<open>
  \<^verbatim>\<open>strings.ToValidUTF8(s, "")\<close>: bytes that are not part of a valid sequence are dropped.
\<close>

function to_valid :: "bytes \<Rightarrow> bytes" where
  "to_valid p =
     (if p = [] then []
      else (case utf8_DecodeRune p of
              (r, sz) \<Rightarrow>
                if sz = 1 \<and> 128 \<le> hd p then to_valid (tl p)
                else take sz p @ to_valid (drop sz p)))"
  by pat_completeness auto
termination
proof (relation "measure length", simp, simp, clarsimp)
  fix p and r sz :: nat
  assume "(r, sz) = utf8_DecodeRune p" "p \<noteq> []"
  with utf8_DecodeRune_pos [of p] show "length p - sz < length p"
    by (metis diff_less length_greater_0_conv snd_conv)
qed

declare to_valid.simps [simp del]

definition strings_ToValidUTF8 :: "string \<Rightarrow> string" where
  "strings_ToValidUTF8 s = bytes_string (to_valid (string_bytes s))"

definition reject_text :: "string \<Rightarrow> string" where
  "reject_text msg =
     (if maxRejectText < length msg then strings_ToValidUTF8 (take maxRejectText msg) else msg)"

text \<open>
  \<open>write\<close> and \<open>read\<close> are the outcomes of the transport's calls, \<open>timeout\<close> says
  whether the five-second timer is the cause of the read context's end; \<open>quote\<close> is \<^verbatim>\<open>%q\<close>. The
  packets handed to the transport come back with the result.
\<close>

definition session_Start ::
  "session_codecs \<Rightarrow> (string \<Rightarrow> string) \<Rightarrow> go_error option \<Rightarrow> packet result \<Rightarrow> bool
     \<Rightarrow> packet list \<times> go_error option" where
  "session_Start cd quote write read timeout =
     (let payload = InitialPayload_SetSupportsExitStatus True new_InitialPayload in
      case pb_marshal (sc_InitialPayload cd) payload of
        Inl err \<Rightarrow> ([], Some (Wrap ''session: encode initial payload'' [err]))
      | Inr b \<Rightarrow>
          (let out = [\<lparr>pkt_header = HeaderInitialPayload, pkt_payload = b\<rparr>] in
           case write of
             Some err \<Rightarrow> (out, Some (Wrap ''session: send initial payload'' [err]))
           | None \<Rightarrow>
               (case read of
                  Inl err \<Rightarrow>
                    (if timeout then (out, Some ErrStartTimeout)
                     else (out, Some (Wrap ''session: wait for initial response'' [err])))
                | Inr p \<Rightarrow>
                    (if pkt_header p \<noteq> HeaderInitialResponse
                     then (out, Some (Wrap ''session: expected INITIAL_RESPONSE'' []))
                     else (case pb_unmarshal (sc_InitialResponse cd) (pkt_payload p) of
                             Inl err \<Rightarrow> (out, Some (Wrap ''session: decode initial response'' [err]))
                           | Inr resp \<Rightarrow>
                               (let msg = InitialResponse_GetError resp in
                                if msg \<noteq> '''' then (out, Some (Wrap (quote (reject_text msg)) [ErrStartRejected]))
                                else (out, None)))))))"

section \<open>The local escape (escape.go)\<close>

record escapeFilter =
  esc_midLine :: bool
  esc_tilde :: bool

definition new_escapeFilter :: escapeFilter where
  "new_escapeFilter = \<lparr>esc_midLine = False, esc_tilde = False\<rparr>"

definition is_newline :: "byte \<Rightarrow> bool" where
  "is_newline b = (b = 13 \<or> b = 10)"

fun escape_filter :: "escapeFilter \<Rightarrow> bytes \<Rightarrow> bytes \<Rightarrow> escapeFilter \<times> bytes \<times> bool" where
  "escape_filter f dst [] = (f, dst, False)"
| "escape_filter f dst (b # src) =
     (if esc_tilde f then
        (let f1 = f\<lparr>esc_tilde := False\<rparr> in
         if b = 46 then (f1, dst, True)
         else if b = 126 then escape_filter (f1\<lparr>esc_midLine := True\<rparr>) (dst @ [126]) src
         else escape_filter (f1\<lparr>esc_midLine := \<not> is_newline b\<rparr>) (dst @ [126] @ [b]) src)
      else if \<not> esc_midLine f \<and> b = 126 then escape_filter (f\<lparr>esc_tilde := True\<rparr>) dst src
      else escape_filter (f\<lparr>esc_midLine := \<not> is_newline b\<rparr>) (dst @ [b]) src)"

section \<open>The router (router.go)\<close>

definition queueLen :: nat where "queueLen = 64"

definition sessionHeader :: "Header \<Rightarrow> bool" where
  "sessionHeader h =
     (h = HeaderKeepAlive \<or> h = HeaderTerminalExitStatus \<or> h = HeaderTerminalClose)"

text \<open>A service is its number; its headers are listed. The routes map a header to a service.\<close>

type_synonym routes = "Header \<rightharpoonup> nat"

fun add_routes :: "nat \<Rightarrow> Header list \<Rightarrow> routes \<Rightarrow> routes result" where
  "add_routes s [] r = Inr r"
| "add_routes s (h # hs) r =
     (if sessionHeader h then Inl (OtherError ''session: header is handled by the router'')
      else (case r h of
              Some _ \<Rightarrow> Inl (OtherError ''session: header registered twice'')
            | None \<Rightarrow> add_routes s hs (r(h \<mapsto> s))))"

fun newRouter_loop :: "nat \<Rightarrow> Header list list \<Rightarrow> routes \<Rightarrow> routes result" where
  "newRouter_loop s [] r = Inr r"
| "newRouter_loop s (hs # services) r =
     (case add_routes s hs r of Inl e \<Rightarrow> Inl e | Inr r' \<Rightarrow> newRouter_loop (Suc s) services r')"

definition newRouter :: "Header list list \<Rightarrow> routes result" where
  "newRouter services = newRouter_loop 0 services Map.empty"

text \<open>What \<^verbatim>\<open>run\<close> does with one packet, and with an error of \<^verbatim>\<open>ReadPacket\<close> (\<open>ctx\<close>: the context's cause).\<close>

datatype route_action = RSkip | RExit int | REnd | RDeliver nat | RFail go_error

definition router_packet :: "session_codecs \<Rightarrow> routes \<Rightarrow> packet \<Rightarrow> route_action" where
  "router_packet cd routes p =
     (if pkt_header p = HeaderKeepAlive then RSkip
      else if pkt_header p = HeaderTerminalExitStatus then
        (case pb_unmarshal (sc_ExitStatus cd) (pkt_payload p) of
           Inl err \<Rightarrow> RFail (Wrap ''session: decode exit status'' [err])
         | Inr st \<Rightarrow>
             if TerminalExitStatus_HasExitcode st then RExit (TerminalExitStatus_GetExitcode st) else RSkip)
      else if pkt_header p = HeaderTerminalClose then REnd
      else (case routes (pkt_header p) of None \<Rightarrow> RSkip | Some s \<Rightarrow> RDeliver s))"

definition router_readErr :: "go_error option \<Rightarrow> go_error \<Rightarrow> route_action" where
  "router_readErr ctx err =
     (case ctx of
        Some cause \<Rightarrow> RFail cause
      | None \<Rightarrow> if errors_Is err EOF then REnd else RFail (Wrap ''session: read'' [err]))"

definition router_ended :: "int option \<Rightarrow> go_error" where
  "router_ended exit = (case exit of Some n \<Rightarrow> ExitError n | None \<Rightarrow> ErrEnded)"

section \<open>The terminal service (terminal.go)\<close>

definition maxPending :: nat where "maxPending = 1048576"
definition readBufSize :: nat where "readBufSize = 32768"

definition defaultSize :: Size where
  "defaultSize = \<lparr>sz_Rows = 24, sz_Cols = 80, sz_Width = 0, sz_Height = 0\<rparr>"

definition terminal_headers :: "Header list" where
  "terminal_headers = [HeaderTerminalBuffer]"

definition terminalInfo :: "Size \<Rightarrow> TerminalInfo" where
  "terminalInfo sz =
     (let sz = (if sz_Rows sz = 0 \<or> sz_Cols sz = 0
                then sz\<lparr>sz_Rows := sz_Rows defaultSize, sz_Cols := sz_Cols defaultSize\<rparr> else sz)
      in TerminalInfo_SetHeight (int32 (sz_Height sz)) (TerminalInfo_SetWidth (int32 (sz_Width sz))
           (TerminalInfo_SetColumn (int32 (sz_Cols sz)) (TerminalInfo_SetRow (int32 (sz_Rows sz))
             new_TerminalInfo))))"

text \<open>\<^verbatim>\<open>write\<close>: the packet it hands to the transport, and how it reports a failed send.\<close>

definition write_packet :: "'m proto_codec \<Rightarrow> Header \<Rightarrow> 'm \<Rightarrow> packet result" where
  "write_packet pb h m =
     (case pb_marshal pb m of
        Inl err \<Rightarrow> Inl (Wrap ''session: encode'' [err])
      | Inr b \<Rightarrow> Inr \<lparr>pkt_header = h, pkt_payload = b\<rparr>)"

definition write_err :: "go_error option \<Rightarrow> go_error \<Rightarrow> go_error" where
  "write_err ctx err = (case ctx of Some cause \<Rightarrow> cause | None \<Rightarrow> Wrap ''session: send'' [err])"

record pendingInput =
  pi_buf :: bytes
  pi_stalled :: bool
  pi_max :: nat
  pi_ready :: bool
  pi_space :: bool

definition new_pendingInput :: pendingInput where
  "new_pendingInput =
     \<lparr>pi_buf = [], pi_stalled = False, pi_max = maxPending, pi_ready = False, pi_space = False\<rparr>"

text \<open>
  One pass of the loop of \<^verbatim>\<open>push\<close>, for a non-empty rest: the bytes taken, whether it goes on,
  returns (dropping the rest) or waits. Then the three ways the wait ends.
\<close>

datatype push_next = PushOn | PushDrop | PushWait

definition push_pass :: "pendingInput \<Rightarrow> bytes \<Rightarrow> pendingInput \<times> bytes \<times> push_next" where
  "push_pass p b =
     (let n = min (length b) (pi_max p - length (pi_buf p));
          p1 = p\<lparr>pi_buf := pi_buf p @ take n b\<rparr>
      in if 0 < n then (p1\<lparr>pi_ready := True\<rparr>, drop n b, PushOn)
         else if pi_stalled p then (p1, b, PushDrop)
         else (p1, b, PushWait))"

definition push_timeout :: "pendingInput \<Rightarrow> pendingInput" where
  "push_timeout p = p\<lparr>pi_stalled := True\<rparr>"

definition pending_take :: "pendingInput \<Rightarrow> nat \<Rightarrow> pendingInput \<times> bytes" where
  "pending_take p limit =
     (let n = min limit (length (pi_buf p)) in
      if n = 0 then (p, [])
      else (p\<lparr>pi_buf := drop n (pi_buf p), pi_stalled := False, pi_space := True\<rparr>, take n (pi_buf p)))"

record latestSize =
  ls_sz :: Size
  ls_dirty :: bool
  ls_changed :: bool

definition new_latestSize :: latestSize where
  "new_latestSize = \<lparr>ls_sz = zero_Size, ls_dirty = False, ls_changed = False\<rparr>"

definition latestSize_set :: "latestSize \<Rightarrow> Size \<Rightarrow> latestSize" where
  "latestSize_set l sz = l\<lparr>ls_sz := sz, ls_dirty := True, ls_changed := True\<rparr>"

definition latestSize_take :: "latestSize \<Rightarrow> latestSize \<times> Size option" where
  "latestSize_take l =
     (if \<not> ls_dirty l then (l, None) else (l\<lparr>ls_dirty := False\<rparr>, Some (ls_sz l)))"

text \<open>The error \<^verbatim>\<open>read\<close> returns after a failed console read, and \<^verbatim>\<open>output\<close> on a packet.\<close>

definition read_err :: "go_error option \<Rightarrow> go_error \<Rightarrow> go_error" where
  "read_err ctx err =
     (case ctx of
        Some cause \<Rightarrow> cause
      | None \<Rightarrow>
          if errors_Is err EOF then Wrap ''session: terminal input closed'' [err]
          else Wrap ''session: read terminal'' [err])"

definition output_bytes :: "session_codecs \<Rightarrow> packet \<Rightarrow> bytes result" where
  "output_bytes cd p =
     (case pb_unmarshal (sc_TerminalBuffer cd) (pkt_payload p) of
        Inl err \<Rightarrow> Inl (Wrap ''session: decode terminal buffer'' [err])
      | Inr tb \<Rightarrow> Inr (TerminalBuffer_GetBuffer tb))"

definition output_err :: "go_error option \<Rightarrow> go_error \<Rightarrow> go_error" where
  "output_err ctx err = (case ctx of Some cause \<Rightarrow> cause | None \<Rightarrow> Wrap ''session: write terminal'' [err])"

section \<open>Run (run.go): the goroutines together\<close>

datatype router_phase = RtReading | RtHolding packet | RtEnding | RtDone

text \<open>What \<^verbatim>\<open>read\<close> does once its \<^verbatim>\<open>push\<close> has returned.\<close>

datatype reader_after = AfterLoop | AfterErr go_error | AfterDetach

datatype reader_phase = KbRead | KbPush bytes reader_after | KbWait bytes reader_after | KbDone

datatype sender_phase = SnWait | SnSize | SnDrain | SnWrite packet | SnDone

text \<open>
  The session: the context's cause, the router with its queue, the output goroutine, the keyboard
  reader, the pending input, the sender and the window size. The last seven fields record the
  history: the packets read from the transport, those written to the terminal with their bytes, the
  keyboard bytes read, those that entered the pending buffer, whether any were dropped, and the
  packets sent.
\<close>

record sess =
  ss_cause :: "go_error option"
  ss_router :: router_phase
  ss_exit :: "int option"
  ss_queue :: "packet list"
  ss_qclosed :: bool
  ss_drained :: bool
  ss_output :: bool
  ss_esc :: escapeFilter
  ss_reader :: reader_phase
  ss_pend :: pendingInput
  ss_size :: latestSize
  ss_sender :: sender_phase
  ss_recv :: "packet list"
  ss_shown :: "packet list"
  ss_screen :: bytes
  ss_typed :: bytes
  ss_kept :: bytes
  ss_lost :: bool
  ss_sent :: "packet list"

text \<open>The state after \<^verbatim>\<open>start\<close>, which sets the first window size (the zero size if it cannot be read).\<close>

definition sess_start :: "Size result \<Rightarrow> sess" where
  "sess_start size0 =
     \<lparr>ss_cause = None, ss_router = RtReading, ss_exit = None, ss_queue = [], ss_qclosed = False,
      ss_drained = False, ss_output = True, ss_esc = new_escapeFilter, ss_reader = KbRead,
      ss_pend = new_pendingInput, ss_size = latestSize_set new_latestSize (Size_or_zero size0),
      ss_sender = SnWait, ss_recv = [], ss_shown = [], ss_screen = [], ss_typed = [], ss_kept = [],
      ss_lost = False, ss_sent = []\<rparr>"

text \<open>\<^verbatim>\<open>goIn\<close>: the first goroutine to return an error cancels the session with it.\<close>

definition group_cancel :: "go_error \<Rightarrow> sess \<Rightarrow> sess" where
  "group_cancel e s = (case ss_cause s of None \<Rightarrow> s\<lparr>ss_cause := Some e\<rparr> | Some _ \<Rightarrow> s)"

definition run_routes :: routes where
  "run_routes = [HeaderTerminalBuffer \<mapsto> 0]"

definition router_take :: "route_action \<Rightarrow> packet \<Rightarrow> sess \<Rightarrow> sess" where
  "router_take act p s =
     (case act of
        RSkip \<Rightarrow> s
      | RExit n \<Rightarrow> s\<lparr>ss_exit := Some n\<rparr>
      | REnd \<Rightarrow> s\<lparr>ss_router := RtEnding, ss_qclosed := True\<rparr>
      | RDeliver _ \<Rightarrow> s\<lparr>ss_router := RtHolding p\<rparr>
      | RFail e \<Rightarrow> group_cancel e (s\<lparr>ss_router := RtDone\<rparr>))"

text \<open>The output goroutine returns: its iterator marks the queue drained.\<close>

definition output_stop :: "sess \<Rightarrow> sess" where
  "output_stop s = s\<lparr>ss_output := False, ss_drained := True\<rparr>"

definition output_packet :: "session_codecs \<Rightarrow> go_error option \<Rightarrow> packet \<Rightarrow> sess \<Rightarrow> sess" where
  "output_packet cd werr p s =
     (case output_bytes cd p of
        Inl e \<Rightarrow> group_cancel e (output_stop s)
      | Inr b \<Rightarrow>
          (case werr of
             Some e \<Rightarrow> group_cancel (output_err (ss_cause s) e) (output_stop s)
           | None \<Rightarrow> s\<lparr>ss_shown := ss_shown s @ [p], ss_screen := ss_screen s @ b\<rparr>))"

text \<open>The keyboard reader: one console read, then the pushes, then what follows them.\<close>

definition key_read :: "bytes \<Rightarrow> go_error option \<Rightarrow> sess \<Rightarrow> sess" where
  "key_read bs err s =
     (let aft = (case err of Some e \<Rightarrow> AfterErr e | None \<Rightarrow> AfterLoop) in
      if bs \<noteq> [] then
        (case escape_filter (ss_esc s) [] bs of
           (f, out, detach) \<Rightarrow>
             s\<lparr>ss_esc := f, ss_typed := ss_typed s @ bs,
               ss_reader := KbPush out (if detach then AfterDetach else aft)\<rparr>)
      else s\<lparr>ss_reader := KbPush [] aft\<rparr>)"

definition key_after :: "reader_after \<Rightarrow> sess \<Rightarrow> sess" where
  "key_after aft s =
     (case aft of
        AfterLoop \<Rightarrow> s\<lparr>ss_reader := KbRead\<rparr>
      | AfterDetach \<Rightarrow> group_cancel ErrDetached (s\<lparr>ss_reader := KbDone\<rparr>)
      | AfterErr e \<Rightarrow> group_cancel (read_err (ss_cause s) e) (s\<lparr>ss_reader := KbDone\<rparr>))"

definition key_push :: "bytes \<Rightarrow> reader_after \<Rightarrow> sess \<Rightarrow> sess" where
  "key_push b aft s =
     (case push_pass (ss_pend s) b of
        (p, rest, PushOn) \<Rightarrow>
          s\<lparr>ss_pend := p, ss_reader := KbPush rest aft,
            ss_kept := ss_kept s @ take (length b - length rest) b\<rparr>
      | (p, rest, PushDrop) \<Rightarrow> s\<lparr>ss_pend := p, ss_reader := KbPush [] aft, ss_lost := True\<rparr>
      | (p, rest, PushWait) \<Rightarrow> s\<lparr>ss_pend := p, ss_reader := KbWait rest aft\<rparr>)"

definition send_size :: "session_codecs \<Rightarrow> sess \<Rightarrow> sess" where
  "send_size cd s =
     (case latestSize_take (ss_size s) of
        (l, None) \<Rightarrow> s\<lparr>ss_sender := SnDrain\<rparr>
      | (l, Some sz) \<Rightarrow>
          (case write_packet (sc_TerminalInfo cd) HeaderTerminalInfo (terminalInfo sz) of
             Inl e \<Rightarrow> group_cancel e (s\<lparr>ss_size := l, ss_sender := SnDone\<rparr>)
           | Inr p \<Rightarrow> s\<lparr>ss_size := l, ss_sender := SnWrite p\<rparr>))"

definition send_chunk :: "session_codecs \<Rightarrow> sess \<Rightarrow> sess" where
  "send_chunk cd s =
     (case pending_take (ss_pend s) MaxInputPacket of
        (p, chunk) \<Rightarrow>
          if chunk = [] then s\<lparr>ss_pend := p, ss_sender := SnWait\<rparr>
          else (case write_packet (sc_TerminalBuffer cd) HeaderTerminalBuffer
                       (TerminalBuffer_SetBuffer chunk new_TerminalBuffer) of
                  Inl e \<Rightarrow> group_cancel e (s\<lparr>ss_pend := p, ss_sender := SnDone\<rparr>)
                | Inr pk \<Rightarrow> s\<lparr>ss_pend := p, ss_sender := SnWrite pk\<rparr>))"

definition send_written :: "go_error option \<Rightarrow> packet \<Rightarrow> sess \<Rightarrow> sess" where
  "send_written err p s =
     (case err of
        None \<Rightarrow> s\<lparr>ss_sender := SnDrain, ss_sent := ss_sent s @ [p]\<rparr>
      | Some e \<Rightarrow> group_cancel (write_err (ss_cause s) e) (s\<lparr>ss_sender := SnDone\<rparr>))"

text \<open>An error from outside the session: not the session's own end, nor an exit status.\<close>

definition external :: "go_error \<Rightarrow> bool" where
  "external e \<longleftrightarrow> \<not> errors_Is e ErrEnded \<and> errors_AsExit e = None"

inductive sess_step :: "session_codecs \<Rightarrow> sess \<Rightarrow> sess \<Rightarrow> bool" for cd where
  router_packet: "ss_router s = RtReading \<Longrightarrow>
    sess_step cd s (router_take (router_packet cd run_routes p) p (s\<lparr>ss_recv := ss_recv s @ [p]\<rparr>))"
| router_error: "ss_router s = RtReading \<Longrightarrow> external e \<Longrightarrow>
    sess_step cd s (router_take (router_readErr (ss_cause s) e) zero_packet s)"
| router_enqueue: "ss_router s = RtHolding p \<Longrightarrow> length (ss_queue s) < queueLen \<Longrightarrow>
    sess_step cd s (s\<lparr>ss_router := RtReading, ss_queue := ss_queue s @ [p]\<rparr>)"
| router_giveup: "ss_router s = RtHolding p \<Longrightarrow> ss_cause s = Some c \<Longrightarrow>
    sess_step cd s (group_cancel c (s\<lparr>ss_router := RtDone\<rparr>))"
| router_drained: "ss_router s = RtEnding \<Longrightarrow> ss_drained s \<Longrightarrow>
    sess_step cd s (group_cancel (router_ended (ss_exit s)) (s\<lparr>ss_router := RtDone\<rparr>))"
| router_left: "ss_router s = RtEnding \<Longrightarrow> ss_cause s = Some c \<Longrightarrow>
    sess_step cd s (group_cancel c (s\<lparr>ss_router := RtDone\<rparr>))"
| output_next: "ss_output s \<Longrightarrow> ss_queue s = p # q \<Longrightarrow> pred_option external werr \<Longrightarrow>
    sess_step cd s (output_packet cd werr p (s\<lparr>ss_queue := q\<rparr>))"
| output_end: "ss_output s \<Longrightarrow> ss_queue s = [] \<Longrightarrow> ss_qclosed s \<Longrightarrow> sess_step cd s (output_stop s)"
| output_ctx: "ss_output s \<Longrightarrow> ss_cause s \<noteq> None \<Longrightarrow> sess_step cd s (output_stop s)"
| reader_read: "ss_reader s = KbRead \<Longrightarrow> length bs \<le> readBufSize \<Longrightarrow> pred_option external err \<Longrightarrow>
    sess_step cd s (key_read bs err s)"
| reader_push: "ss_reader s = KbPush b aft \<Longrightarrow> b \<noteq> [] \<Longrightarrow> sess_step cd s (key_push b aft s)"
| reader_after: "ss_reader s = KbPush [] aft \<Longrightarrow> sess_step cd s (key_after aft s)"
| reader_space: "ss_reader s = KbWait b aft \<Longrightarrow> pi_space (ss_pend s) \<Longrightarrow>
    sess_step cd s (s\<lparr>ss_pend := (ss_pend s)\<lparr>pi_space := False\<rparr>, ss_reader := KbPush b aft\<rparr>)"
| reader_timeout: "ss_reader s = KbWait b aft \<Longrightarrow>
    sess_step cd s (s\<lparr>ss_pend := push_timeout (ss_pend s), ss_reader := KbPush [] aft, ss_lost := True\<rparr>)"
| reader_ctx: "ss_reader s = KbWait b aft \<Longrightarrow> ss_cause s \<noteq> None \<Longrightarrow>
    sess_step cd s (s\<lparr>ss_reader := KbPush [] aft, ss_lost := True\<rparr>)"
| sender_ready: "ss_sender s = SnWait \<Longrightarrow> pi_ready (ss_pend s) \<Longrightarrow>
    sess_step cd s (s\<lparr>ss_pend := (ss_pend s)\<lparr>pi_ready := False\<rparr>, ss_sender := SnSize\<rparr>)"
| sender_changed: "ss_sender s = SnWait \<Longrightarrow> ls_changed (ss_size s) \<Longrightarrow>
    sess_step cd s (s\<lparr>ss_size := (ss_size s)\<lparr>ls_changed := False\<rparr>, ss_sender := SnSize\<rparr>)"
| sender_ctx: "ss_sender s = SnWait \<Longrightarrow> ss_cause s \<noteq> None \<Longrightarrow> sess_step cd s (s\<lparr>ss_sender := SnDone\<rparr>)"
| sender_size: "ss_sender s = SnSize \<Longrightarrow> sess_step cd s (send_size cd s)"
| sender_chunk: "ss_sender s = SnDrain \<Longrightarrow> sess_step cd s (send_chunk cd s)"
| sender_write: "ss_sender s = SnWrite p \<Longrightarrow> pred_option external err \<Longrightarrow>
    sess_step cd s (send_written err p s)"
| resized: "sess_step cd s (s\<lparr>ss_size := latestSize_set (ss_size s) sz\<rparr>)"
| parent_cancel: "external e \<Longrightarrow> sess_step cd s (group_cancel e s)"

text \<open>
  How \<^verbatim>\<open>Run\<close> returns: after the context's end it closes the terminal and joins the goroutines, except
  a reader that a failed \<^verbatim>\<open>Close\<close> may have left blocked; \<open>errEnded\<close> becomes nil.
\<close>

definition readerStuck :: "bool \<Rightarrow> go_error option \<Rightarrow> bool" where
  "readerStuck closeMayStrandReader closeErr = (closeErr \<noteq> None \<and> closeMayStrandReader)"

definition Run_result :: "go_error \<Rightarrow> go_error option" where
  "Run_result cause = (if errors_Is cause ErrEnded then None else Some cause)"

definition Run_returns :: "bool \<Rightarrow> go_error option \<Rightarrow> sess \<Rightarrow> go_error option \<Rightarrow> bool" where
  "Run_returns strand closeErr s res \<longleftrightarrow>
     (\<exists>cause. ss_cause s = Some cause \<and> res = Run_result cause)
     \<and> ss_router s = RtDone \<and> \<not> ss_output s \<and> ss_sender s = SnDone
     \<and> (ss_reader s = KbDone \<or> readerStuck strand closeErr)"

section \<open>Remote output\<close>

definition is_tb :: "packet \<Rightarrow> bool" where
  "is_tb p \<longleftrightarrow> pkt_header p = HeaderTerminalBuffer"

definition tb_bytes :: "session_codecs \<Rightarrow> packet \<Rightarrow> bytes" where
  "tb_bytes cd p = (case output_bytes cd p of Inr b \<Rightarrow> b | Inl _ \<Rightarrow> [])"

text \<open>The exit status of a sequence of packets: that of the last one that carries one.\<close>

definition exit_of :: "session_codecs \<Rightarrow> packet list \<Rightarrow> int option" where
  "exit_of cd ps =
     foldl (\<lambda>x p. case router_packet cd run_routes p of RExit n \<Rightarrow> Some n | _ \<Rightarrow> x) None ps"

fun held_packet :: "router_phase \<Rightarrow> packet list" where
  "held_packet (RtHolding p) = [p]"
| "held_packet _ = []"

text \<open>
  What the code relies on of the message codecs: what is marshalled is read back, and a decoding
  error is an ordinary error.
\<close>

definition codecs_ok :: "session_codecs \<Rightarrow> bool" where
  "codecs_ok cd \<longleftrightarrow>
     (\<forall>chunk. \<exists>b. pb_marshal (sc_TerminalBuffer cd) (TerminalBuffer_SetBuffer chunk new_TerminalBuffer) = Inr b
        \<and> pb_unmarshal (sc_TerminalBuffer cd) b = Inr (TerminalBuffer_SetBuffer chunk new_TerminalBuffer))
     \<and> (\<forall>ti. \<exists>b. pb_marshal (sc_TerminalInfo cd) ti = Inr b)
     \<and> (\<forall>b e. pb_unmarshal (sc_ExitStatus cd) b = Inl e \<longrightarrow> external e)
     \<and> (\<forall>b e. pb_unmarshal (sc_TerminalBuffer cd) b = Inl e \<longrightarrow> external e)"

fun after_ok :: "reader_after \<Rightarrow> bool" where
  "after_ok (AfterErr e) = external e"
| "after_ok _ = True"

fun reader_ok :: "reader_phase \<Rightarrow> bool" where
  "reader_ok (KbPush b aft) = after_ok aft"
| "reader_ok (KbWait b aft) = after_ok aft"
| "reader_ok _ = True"

definition out_inv :: "session_codecs \<Rightarrow> sess \<Rightarrow> bool" where
  "out_inv cd s \<longleftrightarrow>
     length (ss_queue s) \<le> queueLen
     \<and> ss_drained s = (\<not> ss_output s)
     \<and> (ss_output s \<longrightarrow>
          prefix (ss_shown s @ ss_queue s @ held_packet (ss_router s)) (filter is_tb (ss_recv s)))
     \<and> (ss_output s \<and> ss_router s \<noteq> RtDone \<longrightarrow>
          ss_shown s @ ss_queue s @ held_packet (ss_router s) = filter is_tb (ss_recv s))
     \<and> prefix (ss_shown s) (filter is_tb (ss_recv s))
     \<and> ss_screen s = concat (map (tb_bytes cd) (ss_shown s))
     \<and> (\<not> ss_output s \<and> ss_cause s = None \<longrightarrow>
          ss_router s = RtEnding \<and> ss_shown s = filter is_tb (ss_recv s))
     \<and> (ss_qclosed s \<longrightarrow> ss_router s = RtEnding \<or> ss_router s = RtDone)
     \<and> (ss_router s = RtDone \<longrightarrow> ss_cause s \<noteq> None)
     \<and> ss_exit s = exit_of cd (ss_recv s)
     \<and> reader_ok (ss_reader s)
     \<and> (\<forall>c. ss_cause s = Some c \<longrightarrow> external c \<or>
          (c = router_ended (ss_exit s) \<and> ss_router s = RtDone \<and> \<not> ss_output s
           \<and> ss_shown s = filter is_tb (ss_recv s)))"

lemma group_cancel_simps [simp]:
  "ss_router (group_cancel e s) = ss_router s" "ss_exit (group_cancel e s) = ss_exit s"
  "ss_queue (group_cancel e s) = ss_queue s" "ss_qclosed (group_cancel e s) = ss_qclosed s"
  "ss_drained (group_cancel e s) = ss_drained s" "ss_output (group_cancel e s) = ss_output s"
  "ss_esc (group_cancel e s) = ss_esc s" "ss_reader (group_cancel e s) = ss_reader s"
  "ss_pend (group_cancel e s) = ss_pend s" "ss_size (group_cancel e s) = ss_size s"
  "ss_sender (group_cancel e s) = ss_sender s" "ss_recv (group_cancel e s) = ss_recv s"
  "ss_shown (group_cancel e s) = ss_shown s" "ss_screen (group_cancel e s) = ss_screen s"
  "ss_typed (group_cancel e s) = ss_typed s" "ss_kept (group_cancel e s) = ss_kept s"
  "ss_lost (group_cancel e s) = ss_lost s" "ss_sent (group_cancel e s) = ss_sent s"
  "ss_cause (group_cancel e s) = (case ss_cause s of None \<Rightarrow> Some e | Some c \<Rightarrow> Some c)"
  by (simp_all add: group_cancel_def split: option.splits)

lemma external_Wrap [simp]: "external (Wrap s [e]) \<longleftrightarrow> external e"
  by (auto simp: external_def split: option.splits)

lemma external_ErrDetached [simp]: "external ErrDetached"
  by (simp add: external_def)

lemma router_packet_tb:
  "is_tb p \<Longrightarrow> router_packet cd run_routes p = RDeliver 0"
  "router_packet cd run_routes p = RDeliver n \<Longrightarrow> is_tb p"
  by (auto simp: router_packet_def run_routes_def is_tb_def split: if_splits sum.splits)

lemma exit_of_snoc:
  "exit_of cd (ps @ [p]) = (case router_packet cd run_routes p of RExit n \<Rightarrow> Some n | _ \<Rightarrow> exit_of cd ps)"
  by (simp add: exit_of_def split: route_action.splits)

lemma out_inv_cong:
  assumes "out_inv cd s"
    and "ss_queue t = ss_queue s" "ss_drained t = ss_drained s" "ss_output t = ss_output s"
      "ss_shown t = ss_shown s" "ss_router t = ss_router s" "ss_recv t = ss_recv s"
      "ss_screen t = ss_screen s" "ss_qclosed t = ss_qclosed s" "ss_exit t = ss_exit s"
    and "reader_ok (ss_reader t)"
    and "ss_cause t = ss_cause s \<or> (ss_cause s = None \<and> (\<exists>e. ss_cause t = Some e \<and> external e))"
  shows "out_inv cd t"
  using assms(12)
proof
  assume eq: "ss_cause t = ss_cause s"
  show ?thesis using assms(1,11) unfolding out_inv_def assms(2-10) eq by blast
next
  assume "ss_cause s = None \<and> (\<exists>e. ss_cause t = Some e \<and> external e)"
  then show ?thesis using assms(1,11) unfolding out_inv_def assms(2-10) by (elim conjE exE) simp
qed

lemma prefix_snoc: "prefix xs ys \<Longrightarrow> prefix xs (ys @ zs)"
  by (rule prefix_prefix)

lemma prefix_dropped: "prefix (xs @ ys @ zs) ws \<Longrightarrow> prefix (xs @ ys) ws"
  by (metis append.assoc append_prefixD)

lemma out_inv_router_packet:
  assumes "out_inv cd s" and "codecs_ok cd" and "ss_router s = RtReading"
  shows "out_inv cd (router_take (router_packet cd run_routes p) p (s\<lparr>ss_recv := ss_recv s @ [p]\<rparr>))"
proof (cases "is_tb p")
  case True
  with assms router_packet_tb(1) [OF True, of cd] show ?thesis
    by (auto simp: out_inv_def router_take_def exit_of_snoc intro: prefix_snoc)
next
  case False
  then have nd: "router_packet cd run_routes p \<noteq> RDeliver n" for n using router_packet_tb(2) by blast
  have ext: "external e" if "router_packet cd run_routes p = RFail e" for e
    using that assms(2) by (auto simp: router_packet_def codecs_ok_def split: if_splits sum.splits option.splits)
  show ?thesis
  proof (cases "router_packet cd run_routes p")
    case (RFail e)
    with assms False ext [OF RFail] show ?thesis
      by (auto simp: out_inv_def router_take_def exit_of_snoc split: option.splits)
  qed (use assms False nd in \<open>auto simp: out_inv_def router_take_def exit_of_snoc\<close>)
qed

lemma out_inv_router_error:
  assumes "out_inv cd s" and "external e" and "ss_router s = RtReading"
  shows "out_inv cd (router_take (router_readErr (ss_cause s) e) p s)"
proof (cases "ss_cause s")
  case None
  with assms show ?thesis by (auto simp: out_inv_def router_take_def router_readErr_def)
next
  case (Some c)
  with assms show ?thesis by (auto simp: out_inv_def router_take_def router_readErr_def)
qed

lemma out_inv_output:
  assumes "out_inv cd s" and "codecs_ok cd" and "ss_output s" and "ss_queue s = p # q"
    and "pred_option external werr"
  shows "out_inv cd (output_packet cd werr p (s\<lparr>ss_queue := q\<rparr>))"
proof -
  from assms(1,3,4) have "prefix ((ss_shown s @ [p]) @ q @ held_packet (ss_router s)) (filter is_tb (ss_recv s))"
    by (simp add: out_inv_def)
  then have pre: "prefix (ss_shown s @ [p]) (filter is_tb (ss_recv s))" by (metis append_prefixD)
  have ext: "external e" if "output_bytes cd p = Inl e" for e
    using that assms(2) by (auto simp: output_bytes_def codecs_ok_def split: sum.splits)
  show ?thesis
  proof (cases "output_bytes cd p")
    case (Inl e)
    with ext [OF Inl] assms show ?thesis
      by (auto simp: out_inv_def output_packet_def output_stop_def split: option.splits)
  next
    case (Inr b)
    show ?thesis
    proof (cases werr)
      case None
      with Inr assms pre show ?thesis
        by (auto simp: out_inv_def output_packet_def tb_bytes_def)
    next
      case (Some e)
      with Inr assms show ?thesis
        by (auto simp: out_inv_def output_packet_def output_stop_def output_err_def split: option.splits)
    qed
  qed
qed

lemma write_packet_ok:
  assumes "codecs_ok cd"
  shows "\<exists>p. write_packet (sc_TerminalBuffer cd) h (TerminalBuffer_SetBuffer chunk new_TerminalBuffer) = Inr p
      \<and> pkt_header p = h \<and> tb_bytes cd p = chunk"
    and "\<exists>p. write_packet (sc_TerminalInfo cd) h ti = Inr p \<and> pkt_header p = h"
proof -
  let ?tb = "TerminalBuffer_SetBuffer chunk new_TerminalBuffer"
  from assms obtain b where "pb_marshal (sc_TerminalBuffer cd) ?tb = Inr b"
    "pb_unmarshal (sc_TerminalBuffer cd) b = Inr ?tb" unfolding codecs_ok_def by blast
  then show "\<exists>p. write_packet (sc_TerminalBuffer cd) h ?tb = Inr p \<and> pkt_header p = h \<and> tb_bytes cd p = chunk"
    by (simp add: write_packet_def tb_bytes_def output_bytes_def)
  from assms obtain b' where "pb_marshal (sc_TerminalInfo cd) ti = Inr b'"
    unfolding codecs_ok_def by blast
  then show "\<exists>p. write_packet (sc_TerminalInfo cd) h ti = Inr p \<and> pkt_header p = h"
    by (simp add: write_packet_def)
qed

lemma write_packet_no_error:
  assumes "codecs_ok cd"
  shows "write_packet (sc_TerminalBuffer cd) h (TerminalBuffer_SetBuffer chunk new_TerminalBuffer) \<noteq> Inl e"
    and "write_packet (sc_TerminalInfo cd) h ti \<noteq> Inl e"
  using write_packet_ok(1) [OF assms, of h chunk] write_packet_ok(2) [OF assms, of h ti] by auto

lemma router_ended_not_external: "\<not> external (router_ended x)"
  by (simp add: router_ended_def external_def split: option.splits)

lemma out_inv_step:
  assumes cd: "codecs_ok cd" and inv: "out_inv cd s" and "sess_step cd s t"
  shows "out_inv cd t"
proof -
  note keep = out_inv_cong [OF inv]
  have ok: "reader_ok (ss_reader s)" using inv by (simp add: out_inv_def)
  from assms(3) show ?thesis
  proof cases
    case router_packet then show ?thesis using assms out_inv_router_packet by simp
  next
    case router_error then show ?thesis using inv out_inv_router_error by simp
  next
    case router_enqueue then show ?thesis using inv by (auto simp: out_inv_def)
  next
    case router_giveup then show ?thesis using inv by (auto simp: out_inv_def dest: prefix_dropped)
  next
    case router_drained then show ?thesis using inv by (auto simp: out_inv_def split: option.splits)
  next
    case router_left then show ?thesis using inv by (auto simp: out_inv_def)
  next
    case output_next then show ?thesis using assms out_inv_output by simp
  next
    case output_end then show ?thesis using inv by (auto simp: out_inv_def output_stop_def)
  next
    case output_ctx then show ?thesis using inv by (auto simp: out_inv_def output_stop_def)
  next
    case reader_read
    then show ?thesis by (intro keep) (simp_all add: key_read_def Let_def split: prod.splits option.splits)
  next
    case reader_push
    with ok show ?thesis by (intro keep) (simp_all add: key_push_def split: prod.splits push_next.splits)
  next
    case reader_after
    with ok show ?thesis
      by (intro keep) (auto simp: key_after_def read_err_def split: reader_after.splits option.splits)
  next
    case sender_size
    with ok write_packet_no_error(2) [OF cd] show ?thesis
      by (intro keep) (auto simp: send_size_def split: prod.splits option.splits sum.splits)
  next
    case sender_chunk
    with ok write_packet_no_error(1) [OF cd] show ?thesis
      by (intro keep) (auto simp: send_chunk_def split: prod.splits option.splits sum.splits)
  next
    case sender_write
    with ok show ?thesis by (intro keep) (auto simp: send_written_def write_err_def split: option.splits)
  next
    case parent_cancel
    with ok show ?thesis by (intro keep) (auto split: option.splits)
  qed (use ok in \<open>intro keep; simp\<close>)+
qed

section \<open>Keyboard input\<close>

lemma escape_filter_dst:
  "escape_filter f dst src =
     (case escape_filter f [] src of (f', out, d) \<Rightarrow> (f', dst @ out, d))"
proof (induction src arbitrary: f dst)
  case Nil
  show ?case by simp
next
  case (Cons b src)
  show ?case
    by (simp add: Let_def Cons.IH [of _ "dst @ _"] Cons.IH [of _ "[_]"] Cons.IH [of _ "126 # _"]
        Cons.IH [of _ dst] split: prod.splits)
qed

lemma escape_filter_append:
  "escape_filter f dst (xs @ ys) =
     (case escape_filter f dst xs of
        (f', out, d) \<Rightarrow> if d then (f', out, True) else escape_filter f' out ys)"
  by (induction xs arbitrary: f dst) (simp_all add: Let_def)

fun rest_of :: "reader_phase \<Rightarrow> bytes" where
  "rest_of (KbPush b aft) = b"
| "rest_of (KbWait b aft) = b"
| "rest_of _ = []"

fun detaching :: "reader_phase \<Rightarrow> bool" where
  "detaching (KbPush b aft) = (aft = AfterDetach)"
| "detaching (KbWait b aft) = (aft = AfterDetach)"
| "detaching KbRead = False"
| "detaching KbDone = True"

fun sending :: "sender_phase \<Rightarrow> packet list" where
  "sending (SnWrite p) = [p]"
| "sending _ = []"

definition sent_input :: "session_codecs \<Rightarrow> packet list \<Rightarrow> bytes" where
  "sent_input cd ps = concat (map (tb_bytes cd) (filter is_tb ps))"

text \<open>The reader: what entered the buffer, and what is still being pushed, against the filtered input.\<close>

definition key_inv :: "sess \<Rightarrow> bool" where
  "key_inv s \<longleftrightarrow>
     (\<exists>out d. escape_filter new_escapeFilter [] (ss_typed s) = (ss_esc s, out, d)
        \<and> subseq (ss_kept s @ rest_of (ss_reader s)) out
        \<and> (\<not> ss_lost s \<longrightarrow> ss_kept s @ rest_of (ss_reader s) = out)
        \<and> (d \<longrightarrow> detaching (ss_reader s)))"

text \<open>The sender: what was sent, what is being sent and what is buffered, against what was kept.\<close>

definition send_inv :: "session_codecs \<Rightarrow> sess \<Rightarrow> bool" where
  "send_inv cd s \<longleftrightarrow>
     pi_max (ss_pend s) = maxPending \<and> length (pi_buf (ss_pend s)) \<le> maxPending
     \<and> (\<exists>gone. sent_input cd (ss_sent s @ sending (ss_sender s)) @ gone @ pi_buf (ss_pend s) = ss_kept s
          \<and> (ss_sender s \<noteq> SnDone \<longrightarrow> gone = []))
     \<and> (\<forall>p \<in> set (ss_sent s @ sending (ss_sender s)). is_tb p \<longrightarrow>
          0 < length (tb_bytes cd p) \<and> length (tb_bytes cd p) \<le> MaxInputPacket)"

lemma subseq_appendD: "subseq (xs @ ys) zs \<Longrightarrow> subseq xs zs"
  by (meson subseq_order.dual_order.trans subseq_rev_drop_many subseq_order.order_refl)

lemma key_inv_cong:
  "key_inv s \<Longrightarrow> ss_typed t = ss_typed s \<Longrightarrow> ss_esc t = ss_esc s \<Longrightarrow> ss_kept t = ss_kept s \<Longrightarrow>
     ss_reader t = ss_reader s \<Longrightarrow> ss_lost t = ss_lost s \<Longrightarrow> key_inv t"
  by (simp add: key_inv_def)

lemma key_inv_lost:
  assumes "key_inv s" and "rest_of (ss_reader t) = []" and "detaching (ss_reader s) \<longrightarrow> detaching (ss_reader t)"
    and "ss_typed t = ss_typed s" "ss_esc t = ss_esc s" "ss_kept t = ss_kept s" "ss_lost t"
  shows "key_inv t"
  using assms unfolding key_inv_def by (auto dest: subseq_appendD)

lemma key_inv_read:
  assumes "key_inv s" and "ss_reader s = KbRead"
  shows "key_inv (key_read bs err s)"
proof (cases "bs = []")
  case True
  with assms show ?thesis by (simp add: key_inv_def key_read_def split: option.splits)
next
  case False
  from assms obtain out where out: "escape_filter new_escapeFilter [] (ss_typed s) = (ss_esc s, out, False)"
    "subseq (ss_kept s) out" "\<not> ss_lost s \<longrightarrow> ss_kept s = out" by (auto simp: key_inv_def)
  obtain f o1 d where f: "escape_filter (ss_esc s) [] bs = (f, o1, d)" by (cases "escape_filter (ss_esc s) [] bs")
  with out escape_filter_dst [of "ss_esc s" out bs]
  have "escape_filter new_escapeFilter [] (ss_typed s @ bs) = (f, out @ o1, d)"
    by (simp add: escape_filter_append)
  moreover have "subseq (ss_kept s @ o1) (out @ o1)" using out(2) by (simp add: subseq_append)
  ultimately show ?thesis using False f out(3)
    by (simp add: key_inv_def key_read_def)
qed

lemma key_inv_push:
  assumes "key_inv s" and "ss_reader s = KbPush b aft"
  shows "key_inv (key_push b aft s)"
proof -
  obtain p rest nx where pp: "push_pass (ss_pend s) b = (p, rest, nx)" by (cases "push_pass (ss_pend s) b")
  show ?thesis
  proof (cases nx)
    case PushOn
    with pp have "rest = drop (length b - length rest) b"
      by (auto simp: push_pass_def Let_def min_def split: if_splits)
    then have "take (length b - length rest) b @ rest = b" by (metis append_take_drop_id)
    with assms pp PushOn show ?thesis by (simp add: key_inv_def key_push_def)
  next
    case PushDrop
    with assms pp show ?thesis by (intro key_inv_lost [OF assms(1)]) (simp_all add: key_push_def)
  next
    case PushWait
    with pp have "rest = b" by (auto simp: push_pass_def Let_def split: if_splits)
    with assms pp PushWait show ?thesis by (simp add: key_inv_def key_push_def)
  qed
qed

lemma key_inv_after:
  assumes "key_inv s" and "ss_reader s = KbPush [] aft"
  shows "key_inv (key_after aft s)"
  using assms by (cases aft) (auto simp: key_inv_def key_after_def)

lemma key_inv_step: "key_inv s \<Longrightarrow> sess_step cd s t \<Longrightarrow> key_inv t"
proof -
  assume inv: "key_inv s" and "sess_step cd s t"
  from this(2) show ?thesis
  proof cases
    case (reader_read bs err)
    with key_inv_read [OF inv] show ?thesis by simp
  next
    case (reader_push b aft)
    with key_inv_push [OF inv] show ?thesis by simp
  next
    case (reader_after aft)
    with key_inv_after [OF inv] show ?thesis by simp
  next
    case (reader_space b aft)
    with inv show ?thesis by (simp add: key_inv_def)
  next
    case (reader_timeout b aft)
    then show ?thesis by (intro key_inv_lost [OF inv]) simp_all
  next
    case (reader_ctx b aft)
    then show ?thesis by (intro key_inv_lost [OF inv]) simp_all
  qed (auto intro!: key_inv_cong [OF inv] simp: router_take_def output_packet_def output_stop_def
      send_size_def send_chunk_def send_written_def
      split: route_action.splits sum.splits option.splits prod.splits)
qed

lemma sent_input_simps [simp]:
  "sent_input cd [] = []" "sent_input cd (ps @ qs) = sent_input cd ps @ sent_input cd qs"
  "sent_input cd [p] = (if is_tb p then tb_bytes cd p else [])"
  by (simp_all add: sent_input_def)

lemma send_inv_cong:
  assumes "send_inv cd s" and "pi_max (ss_pend t) = pi_max (ss_pend s)" "pi_buf (ss_pend t) = pi_buf (ss_pend s)"
    "ss_sent t = ss_sent s" "ss_kept t = ss_kept s" "sending (ss_sender t) = sending (ss_sender s)"
    "ss_sender s = SnDone \<longrightarrow> ss_sender t = SnDone"
  shows "send_inv cd t"
  using assms unfolding send_inv_def by (elim conjE exE) auto

lemma send_inv_push:
  assumes "send_inv cd s"
  shows "send_inv cd (key_push b aft s)"
proof -
  obtain p rest nx where pp: "push_pass (ss_pend s) b = (p, rest, nx)" by (cases "push_pass (ss_pend s) b")
  show ?thesis
  proof (cases nx)
    case PushOn
    with pp have "pi_buf p = pi_buf (ss_pend s) @ take (length b - length rest) b" "pi_max p = pi_max (ss_pend s)"
      "length (pi_buf p) \<le> max (pi_max (ss_pend s)) (length (pi_buf (ss_pend s)))"
      by (auto simp: push_pass_def Let_def min_def split: if_splits)
    with assms pp PushOn show ?thesis by (auto simp: send_inv_def key_push_def)
  next
    case PushDrop
    with pp show ?thesis
      by (intro send_inv_cong [OF assms]) (auto simp: push_pass_def key_push_def Let_def split: if_splits)
  next
    case PushWait
    with pp show ?thesis
      by (intro send_inv_cong [OF assms]) (auto simp: push_pass_def key_push_def Let_def split: if_splits)
  qed
qed

lemma send_inv_size:
  assumes "send_inv cd s" and "codecs_ok cd" and "ss_sender s = SnSize"
  shows "send_inv cd (send_size cd s)"
proof (cases "latestSize_take (ss_size s)")
  case (Pair l sz)
  show ?thesis
  proof (cases sz)
    case None
    with Pair assms show ?thesis by (auto simp: send_size_def send_inv_def)
  next
    case (Some x)
    obtain p where "write_packet (sc_TerminalInfo cd) HeaderTerminalInfo (terminalInfo x) = Inr p" "\<not> is_tb p"
      using write_packet_ok(2) [OF assms(2), of HeaderTerminalInfo "terminalInfo x"] by (auto simp: is_tb_def)
    with Pair Some assms show ?thesis by (auto simp: send_size_def send_inv_def)
  qed
qed

lemma pending_take_cases:
  assumes "pending_take p limit = (p', chunk)"
  shows "pi_buf p = chunk @ pi_buf p'" and "pi_max p' = pi_max p" and "length chunk \<le> limit"
  using assms by (auto simp: pending_take_def Let_def split: if_splits)

lemma send_inv_chunk:
  assumes "send_inv cd s" and "codecs_ok cd" and "ss_sender s = SnDrain"
  shows "send_inv cd (send_chunk cd s)"
proof -
  obtain p chunk where t: "pending_take (ss_pend s) MaxInputPacket = (p, chunk)" by fastforce
  note c = pending_take_cases [OF t]
  show ?thesis
  proof (cases "chunk = []")
    case True
    with t c assms show ?thesis by (auto simp: send_chunk_def send_inv_def)
  next
    case False
    let ?tb = "TerminalBuffer_SetBuffer chunk new_TerminalBuffer"
    obtain pk where pk: "write_packet (sc_TerminalBuffer cd) HeaderTerminalBuffer ?tb = Inr pk"
      "is_tb pk" "tb_bytes cd pk = chunk"
      using write_packet_ok(1) [OF assms(2), of HeaderTerminalBuffer chunk] by (auto simp: is_tb_def)
    with t False have "send_chunk cd s = s\<lparr>ss_pend := p, ss_sender := SnWrite pk\<rparr>"
      by (simp add: send_chunk_def)
    with assms c pk False show ?thesis by (auto simp: send_inv_def)
  qed
qed

lemma send_inv_written:
  assumes "send_inv cd s" and "ss_sender s = SnWrite p"
  shows "send_inv cd (send_written err p s)"
  using assms by (cases err) (auto simp: send_written_def send_inv_def)

lemma send_inv_step: "codecs_ok cd \<Longrightarrow> send_inv cd s \<Longrightarrow> sess_step cd s t \<Longrightarrow> send_inv cd t"
proof -
  assume cd: "codecs_ok cd" and inv: "send_inv cd s" and "sess_step cd s t"
  from this(3) show ?thesis
  proof cases
    case (reader_push b aft)
    with send_inv_push [OF inv] show ?thesis by simp
  next
    case sender_size
    with send_inv_size [OF inv cd] show ?thesis by simp
  next
    case sender_chunk
    with send_inv_chunk [OF inv cd] show ?thesis by simp
  next
    case (sender_write p err)
    with send_inv_written [OF inv] show ?thesis by simp
  qed (auto intro!: send_inv_cong [OF inv] simp: router_take_def output_packet_def output_stop_def
      key_read_def key_after_def push_timeout_def Let_def
      split: route_action.splits sum.splits option.splits prod.splits reader_after.splits)
qed

section \<open>The session as a transition system\<close>

definition sess_inv :: "session_codecs \<Rightarrow> sess \<Rightarrow> bool" where
  "sess_inv cd s \<longleftrightarrow> (codecs_ok cd \<longrightarrow> out_inv cd s \<and> key_inv s \<and> send_inv cd s)"

interpretation sess: transition_system "\<lambda>s. \<exists>size0. s = sess_start size0" "sess_step cd" "sess_inv cd" for cd
proof unfold_locales
  fix s
  assume "\<exists>size0. s = sess_start size0"
  then show "sess_inv cd s"
    by (auto simp: sess_inv_def out_inv_def key_inv_def send_inv_def sess_start_def new_pendingInput_def
        exit_of_def)
next
  fix s t
  assume "sess_inv cd s" "sess_step cd s t"
  then show "sess_inv cd t"
    using out_inv_step key_inv_step send_inv_step by (simp add: sess_inv_def) blast
qed

definition sess_reachable :: "session_codecs \<Rightarrow> Size result \<Rightarrow> sess \<Rightarrow> bool" where
  "sess_reachable cd size0 s \<longleftrightarrow> (sess_step cd)\<^sup>*\<^sup>* (sess_start size0) s"

lemma sess_reachable_inv:
  assumes "sess_reachable cd size0 s" and "codecs_ok cd"
  shows "out_inv cd s" and "key_inv s" and "send_inv cd s"
  using sess.inv_reachable [of "sess_start size0" cd s] assms
  by (auto simp: sess_reachable_def sess_inv_def)

section \<open>The reader on its own\<close>

text \<open>Steps of the reader alone: nothing of the router, the output goroutine or the sender changes.\<close>

definition reader_only :: "sess \<Rightarrow> sess \<Rightarrow> bool" where
  "reader_only s t \<longleftrightarrow>
     ss_router t = ss_router s \<and> ss_queue t = ss_queue s \<and> ss_output t = ss_output s
     \<and> ss_sender t = ss_sender s \<and> ss_sent t = ss_sent s \<and> ss_size t = ss_size s"

lemma reader_only_trans: "reader_only s t \<Longrightarrow> reader_only t u \<Longrightarrow> reader_only s u"
  by (simp add: reader_only_def)

lemma push_wait_finishes:
  assumes "ss_reader s = KbWait b aft"
  shows "\<exists>t. sess_step cd s t \<and> reader_only s t \<and> ss_reader t = KbPush [] aft \<and> ss_cause t = ss_cause s"
  using reader_timeout [OF assms, of cd] by (auto simp: reader_only_def)

lemma push_full_finishes:
  assumes "ss_reader s = KbPush b aft" and "b \<noteq> []" and "pi_max (ss_pend s) \<le> length (pi_buf (ss_pend s))"
  shows "\<exists>t. (sess_step cd)\<^sup>*\<^sup>* s t \<and> reader_only s t \<and> ss_reader t = KbPush [] aft \<and> ss_cause t = ss_cause s"
proof (cases "pi_stalled (ss_pend s)")
  case True
  with assms have "ss_reader (key_push b aft s) = KbPush [] aft" "reader_only s (key_push b aft s)"
    "ss_cause (key_push b aft s) = ss_cause s"
    by (simp_all add: key_push_def push_pass_def reader_only_def)
  with reader_push [OF assms(1,2), of cd] show ?thesis by blast
next
  case False
  let ?u = "key_push b aft s"
  from False assms have u: "ss_reader ?u = KbWait b aft" "reader_only s ?u" "ss_cause ?u = ss_cause s"
    by (simp_all add: key_push_def push_pass_def reader_only_def)
  from push_wait_finishes [OF u(1), of cd] obtain t where
    "sess_step cd ?u t" "reader_only ?u t" "ss_reader t = KbPush [] aft" "ss_cause t = ss_cause ?u" by blast
  with u reader_push [OF assms(1,2), of cd] reader_only_trans show ?thesis
    by (metis converse_rtranclp_into_rtranclp r_into_rtranclp)
qed

lemma push_finishes:
  assumes "ss_reader s = KbPush b aft"
  shows "\<exists>t. (sess_step cd)\<^sup>*\<^sup>* s t \<and> reader_only s t \<and> ss_reader t = KbPush [] aft \<and> ss_cause t = ss_cause s"
proof (cases "b = []")
  case True
  with assms show ?thesis by (auto simp: reader_only_def)
next
  case ne: False
  show ?thesis
  proof (cases "pi_max (ss_pend s) \<le> length (pi_buf (ss_pend s))")
    case True
    with push_full_finishes assms ne show ?thesis by blast
  next
    case False
    let ?u = "key_push b aft s" and ?n = "min (length b) (pi_max (ss_pend s) - length (pi_buf (ss_pend s)))"
    from False ne have n: "0 < ?n" by simp
    then have u: "ss_reader ?u = KbPush (drop ?n b) aft" "reader_only s ?u" "ss_cause ?u = ss_cause s"
      "pi_max (ss_pend ?u) = pi_max (ss_pend s)" "length (pi_buf (ss_pend ?u)) = length (pi_buf (ss_pend s)) + ?n"
      by (simp_all add: key_push_def push_pass_def Let_def reader_only_def)
    have step: "sess_step cd s ?u" by (rule reader_push [OF assms ne])
    show ?thesis
    proof (cases "drop ?n b = []")
      case True
      with u step show ?thesis by (metis r_into_rtranclp)
    next
      case rest: False
      then have "pi_max (ss_pend ?u) \<le> length (pi_buf (ss_pend ?u))" using u(4,5) by auto
      from push_full_finishes [OF u(1) rest this, of cd] obtain t where
        "(sess_step cd)\<^sup>*\<^sup>* ?u t" "reader_only ?u t" "ss_reader t = KbPush [] aft" "ss_cause t = ss_cause ?u" by blast
      with u step reader_only_trans show ?thesis by (metis converse_rtranclp_into_rtranclp)
    qed
  qed
qed

section \<open>Properties\<close>

lemma run_routes_registered: "newRouter [terminal_headers] = Inr run_routes"
  by (simp add: newRouter_def terminal_headers_def sessionHeader_def run_routes_def)

definition demo_session_codecs :: session_codecs where
  "demo_session_codecs =
     \<lparr>sc_InitialPayload = \<lparr>pb_size = \<lambda>_. 0, pb_marshal = \<lambda>_. Inr [], pb_unmarshal = \<lambda>_. Inr new_InitialPayload\<rparr>,
      sc_InitialResponse = \<lparr>pb_size = \<lambda>_. 0, pb_marshal = \<lambda>_. Inr [],
        pb_unmarshal = \<lambda>b. Inr \<lparr>ir_Error = if b = [] then None else Some (bytes_string b)\<rparr>\<rparr>,
      sc_ExitStatus = \<lparr>pb_size = \<lambda>_. 0, pb_marshal = \<lambda>_. Inr [],
        pb_unmarshal = \<lambda>b. Inr \<lparr>tes_Exitcode = Some (int (length b))\<rparr>\<rparr>,
      sc_TerminalBuffer = \<lparr>pb_size = \<lambda>m. length (TerminalBuffer_GetBuffer m),
        pb_marshal = \<lambda>m. Inr (TerminalBuffer_GetBuffer m),
        pb_unmarshal = \<lambda>b. Inr (TerminalBuffer_SetBuffer b new_TerminalBuffer)\<rparr>,
      sc_TerminalInfo = \<lparr>pb_size = \<lambda>_. 0, pb_marshal = \<lambda>_. Inr [], pb_unmarshal = \<lambda>_. Inr new_TerminalInfo\<rparr>\<rparr>"

lemma demo_session_codecs_ok: "codecs_ok demo_session_codecs"
  by (simp add: codecs_ok_def demo_session_codecs_def)

text \<open>A run for the witnesses: a line of output, an exit status, and the end of the session.\<close>

definition demo_output :: packet where
  "demo_output = \<lparr>pkt_header = HeaderTerminalBuffer, pkt_payload = [104, 105]\<rparr>"

definition demo_status :: packet where
  "demo_status = \<lparr>pkt_header = HeaderTerminalExitStatus, pkt_payload = [0, 0, 0]\<rparr>"

lemma demo_session:
  "\<exists>s. sess_reachable demo_session_codecs (Inr defaultSize) s \<and> Run_returns False None s (Some (ExitError 3))
     \<and> ss_recv s = [demo_output, demo_status] \<and> ss_screen s = [104, 105]"
proof -
  define cd where "cd = demo_session_codecs"
  define s0 where "s0 = sess_start (Inr defaultSize)"
  define s1 where "s1 = s0\<lparr>ss_router := RtHolding demo_output, ss_recv := [demo_output]\<rparr>"
  define s2 where "s2 = s1\<lparr>ss_router := RtReading, ss_queue := [demo_output]\<rparr>"
  define s3 where "s3 = s2\<lparr>ss_queue := [], ss_shown := [demo_output], ss_screen := [104, 105]\<rparr>"
  define s4 where "s4 = s3\<lparr>ss_exit := Some 3, ss_recv := [demo_output, demo_status]\<rparr>"
  define s5 where "s5 = s4\<lparr>ss_router := RtEnding, ss_qclosed := True\<rparr>"
  define s6 where "s6 = output_stop s5"
  define s7 where "s7 = s6\<lparr>ss_router := RtDone, ss_cause := Some (ExitError 3)\<rparr>"
  define s8 where "s8 = s7\<lparr>ss_reader := KbPush [] (AfterErr EOF)\<rparr>"
  define s9 where "s9 = s8\<lparr>ss_reader := KbDone\<rparr>"
  define s10 where "s10 = s9\<lparr>ss_sender := SnDone\<rparr>"
  note sdefs = s0_def s1_def s2_def s3_def s4_def s5_def s6_def s7_def s8_def s9_def s10_def
    sess_start_def output_stop_def
  have 1: "sess_step cd s0 s1"
    using sess_step.router_packet [of s0 cd demo_output]
    by (simp add: sdefs router_take_def router_packet_def demo_output_def run_routes_def)
  have 2: "sess_step cd s1 s2"
    using sess_step.router_enqueue [of s1 demo_output cd] by (simp add: sdefs queueLen_def)
  have 3: "sess_step cd s2 s3"
    using sess_step.output_next [of s2 demo_output "[]" None cd]
    by (simp add: sdefs output_packet_def output_bytes_def cd_def demo_session_codecs_def demo_output_def)
  have 4: "sess_step cd s3 s4"
    using sess_step.router_packet [of s3 cd demo_status]
    by (simp add: sdefs router_take_def router_packet_def demo_status_def cd_def demo_session_codecs_def
        TerminalExitStatus_HasExitcode_def TerminalExitStatus_GetExitcode_def)
  have 5: "sess_step cd s4 s5"
    using sess_step.router_error [of s4 EOF cd]
    by (simp add: sdefs router_take_def router_readErr_def external_def)
  have 6: "sess_step cd s5 s6" using sess_step.output_end [of s5 cd] by (simp add: sdefs)
  have 7: "sess_step cd s6 s7"
    using sess_step.router_drained [of s6 cd] by (simp add: sdefs group_cancel_def router_ended_def)
  have 8: "sess_step cd s7 s8"
    using sess_step.reader_read [of s7 "[]" "Some EOF" cd] by (simp add: sdefs key_read_def external_def)
  have 9: "sess_step cd s8 s9"
    using sess_step.reader_after [of s8 "AfterErr EOF" cd]
    by (simp add: sdefs key_after_def read_err_def group_cancel_def)
  have 10: "sess_step cd s9 s10" using sess_step.sender_ctx [of s9 cd] by (simp add: sdefs)
  have "(sess_step cd)\<^sup>*\<^sup>* s0 s10"
    using 1 2 3 4 5 6 7 8 9 10 by (meson converse_rtranclp_into_rtranclp rtranclp.rtrancl_refl)
  then have "sess_reachable demo_session_codecs (Inr defaultSize) s10"
    by (simp add: sess_reachable_def s0_def cd_def)
  moreover have "Run_returns False None s10 (Some (ExitError 3))"
    by (simp add: Run_returns_def Run_result_def sdefs)
  ultimately show ?thesis by (intro exI [of _ s10]) (simp add: sdefs)
qed



text \<open>
  Remote output is never reordered or invented: in every reachable state the bytes written to the
  terminal are those of the first terminal packets received, and the queue between router and
  terminal never holds more than 64 packets.
\<close>

lemma output_in_order:
  assumes "codecs_ok cd" and "sess_reachable cd size0 s"
  shows "\<exists>k. ss_screen s = concat (map (tb_bytes cd) (take k (filter is_tb (ss_recv s))))
    \<and> length (ss_queue s) \<le> queueLen"
proof -
  note inv = sess_reachable_inv(1) [OF assms(2,1)]
  then obtain zs where "filter is_tb (ss_recv s) = ss_shown s @ zs" by (auto simp: out_inv_def prefix_def)
  then have "take (length (ss_shown s)) (filter is_tb (ss_recv s)) = ss_shown s" by simp
  with inv show ?thesis by (intro exI [of _ "length (ss_shown s)"]) (simp add: out_inv_def)
qed

lemma output_in_order_witness:
  "\<exists>s k. sess_reachable demo_session_codecs (Inr defaultSize) s \<and> ss_screen s = [104, 105]
    \<and> ss_screen s = concat (map (tb_bytes demo_session_codecs) (take k (filter is_tb (ss_recv s))))
    \<and> length (ss_queue s) \<le> queueLen"
proof -
  obtain s where s: "sess_reachable demo_session_codecs (Inr defaultSize) s" "ss_screen s = [104, 105]"
    using demo_session by blast
  from output_in_order [OF demo_session_codecs_ok s(1)] s show ?thesis by blast
qed

text \<open>What was sent against what the escape filter makes of everything typed.\<close>

lemma sent_input_typed:
  assumes "codecs_ok cd" and "sess_reachable cd size0 s"
    and "escape_filter new_escapeFilter [] (ss_typed s) = (f, out, d)"
  shows "subseq (sent_input cd (ss_sent s)) out"
    and "\<not> ss_lost s \<Longrightarrow> prefix (sent_input cd (ss_sent s)) out"
    and "\<not> ss_lost s \<Longrightarrow> ss_reader s = KbRead \<Longrightarrow> ss_sender s = SnWait \<Longrightarrow> pi_buf (ss_pend s) = [] \<Longrightarrow>
      sent_input cd (ss_sent s) = out"
proof -
  note inv = sess_reachable_inv(2,3) [OF assms(2,1)]
  from inv(1) assms(3) have k: "subseq (ss_kept s @ rest_of (ss_reader s)) out"
    "\<not> ss_lost s \<Longrightarrow> ss_kept s @ rest_of (ss_reader s) = out" by (auto simp: key_inv_def)
  from inv(2) obtain gone where g: "sent_input cd (ss_sent s) @ sent_input cd (sending (ss_sender s)) @ gone @ pi_buf (ss_pend s) = ss_kept s"
    "ss_sender s \<noteq> SnDone \<longrightarrow> gone = []" by (auto simp: send_inv_def)
  show "subseq (sent_input cd (ss_sent s)) out" using k(1) g(1) subseq_appendD by metis
  show "prefix (sent_input cd (ss_sent s)) out" if "\<not> ss_lost s"
    using k(2) [OF that] g(1) by (metis append.assoc prefixI)
  show "sent_input cd (ss_sent s) = out"
    if "\<not> ss_lost s" "ss_reader s = KbRead" "ss_sender s = SnWait" "pi_buf (ss_pend s) = []"
    using k(2) [OF that(1)] g that by simp
qed

text \<open>
  C13. Keyboard input reaches the server in order: in every reachable state the bytes sent are a
  subsequence of what the escape filter makes of everything typed; as long as no input was dropped
  for a stalled connection they are a prefix of it, and all of it once reader and sender are idle.
  Every input packet carries between 1 byte and 64 KiB, and never more than 1 MiB is pending.
\<close>

theorem input_in_order:
  assumes "codecs_ok cd" and "sess_reachable cd size0 s"
    and "escape_filter new_escapeFilter [] (ss_typed s) = (f, out, d)"
  shows "subseq (sent_input cd (ss_sent s)) out
    \<and> (\<not> ss_lost s \<longrightarrow> prefix (sent_input cd (ss_sent s)) out
         \<and> (ss_reader s = KbRead \<and> ss_sender s = SnWait \<and> pi_buf (ss_pend s) = [] \<longrightarrow>
              sent_input cd (ss_sent s) = out))
    \<and> (\<forall>p \<in> set (ss_sent s). is_tb p \<longrightarrow>
         0 < length (tb_bytes cd p) \<and> length (tb_bytes cd p) \<le> MaxInputPacket)
    \<and> length (pi_buf (ss_pend s)) \<le> maxPending"
  using sent_input_typed [OF assms] sess_reachable_inv(3) [OF assms(2,1)] by (simp add: send_inv_def)

text \<open>A step that neither reads from nor writes to the transport.\<close>

definition quiet_step :: "session_codecs \<Rightarrow> sess \<Rightarrow> sess \<Rightarrow> bool" where
  "quiet_step cd s t \<longleftrightarrow> sess_step cd s t \<and> ss_recv t = ss_recv s \<and> ss_sent t = ss_sent s"

text \<open>A run that types \<^verbatim>\<open>~~a\<close> and sends it.\<close>

lemma demo_typing_run:
  "\<exists>s5 s6 s7 s8 s9.
     (quiet_step demo_session_codecs)\<^sup>*\<^sup>* (sess_start (Inr defaultSize)) s5
     \<and> sess_step demo_session_codecs s5 s6 \<and> ss_recv s6 = ss_recv s5
     \<and> ss_sent s6 = ss_sent s5 @ [\<lparr>pkt_header = HeaderTerminalInfo, pkt_payload = []\<rparr>]
     \<and> quiet_step demo_session_codecs s6 s7
     \<and> sess_step demo_session_codecs s7 s8 \<and> ss_recv s8 = ss_recv s7
     \<and> ss_sent s8 = ss_sent s7 @ [\<lparr>pkt_header = HeaderTerminalBuffer, pkt_payload = [126, 97]\<rparr>]
     \<and> quiet_step demo_session_codecs s8 s9
     \<and> ss_typed s9 = [126, 126, 97]
     \<and> \<not> ss_lost s9 \<and> ss_reader s9 = KbRead \<and> ss_sender s9 = SnWait \<and> pi_buf (ss_pend s9) = []"
proof -
  define cd where "cd = demo_session_codecs"
  define f where "f = \<lparr>esc_midLine = True, esc_tilde = False\<rparr>"
  define pk where "pk = \<lparr>pkt_header = HeaderTerminalBuffer, pkt_payload = [126, 97 :: byte]\<rparr>"
  define s0 where "s0 = (sess_start (Inr defaultSize))\<lparr>ss_size := (latestSize_set new_latestSize defaultSize)\<rparr>"
  define s1 where "s1 = s0\<lparr>ss_esc := f, ss_typed := [126, 126, 97], ss_reader := KbPush [126, 97] AfterLoop\<rparr>"
  define s2 where "s2 = s1\<lparr>ss_pend := new_pendingInput\<lparr>pi_buf := [126, 97], pi_ready := True\<rparr>,
     ss_reader := KbPush [] AfterLoop, ss_kept := [126, 97]\<rparr>"
  define s3 where "s3 = s2\<lparr>ss_reader := KbRead\<rparr>"
  define s4 where "s4 = s3\<lparr>ss_pend := new_pendingInput\<lparr>pi_buf := [126, 97], pi_ready := False\<rparr>, ss_sender := SnSize\<rparr>"
  define s5 where "s5 = send_size cd s4"
  define s6 where "s6 = send_written None \<lparr>pkt_header = HeaderTerminalInfo, pkt_payload = []\<rparr> s5"
  define s7 where "s7 = send_chunk cd s6"
  define s8 where "s8 = send_written None pk s7"
  define s9 where "s9 = send_chunk cd s8"
  note sdefs = s0_def s1_def s2_def s3_def s4_def sess_start_def f_def
  have s5: "s5 = s4\<lparr>ss_size := (latestSize_set new_latestSize defaultSize)\<lparr>ls_dirty := False\<rparr>,
      ss_sender := SnWrite \<lparr>pkt_header = HeaderTerminalInfo, pkt_payload = []\<rparr>\<rparr>"
    by (simp add: s5_def send_size_def sdefs latestSize_take_def latestSize_set_def write_packet_def cd_def
        demo_session_codecs_def)
  have s7: "s7 = s6\<lparr>ss_pend := new_pendingInput\<lparr>pi_space := True\<rparr>, ss_sender := SnWrite pk\<rparr>"
    by (simp add: s7_def s6_def s5 send_written_def send_chunk_def sdefs pending_take_def MaxInputPacket_def
        write_packet_def cd_def demo_session_codecs_def pk_def new_pendingInput_def)
  have 1: "sess_step cd s0 s1"
    using sess_step.reader_read [of s0 "[126, 126, 97]" None cd]
    by (simp add: sdefs key_read_def readBufSize_def new_escapeFilter_def is_newline_def)
  have 2: "sess_step cd s1 s2"
    using sess_step.reader_push [of s1 "[126, 97]" AfterLoop cd]
    by (simp add: sdefs key_push_def push_pass_def new_pendingInput_def maxPending_def)
  have 3: "sess_step cd s2 s3"
    using sess_step.reader_after [of s2 AfterLoop cd] by (simp add: sdefs key_after_def)
  have 4: "sess_step cd s3 s4" using sess_step.sender_ready [of s3 cd] by (simp add: sdefs)
  have 5: "sess_step cd s4 s5" using sess_step.sender_size [of s4 cd] by (simp add: s5_def s4_def)
  have 6: "sess_step cd s5 s6"
    using sess_step.sender_write [of s5 _ None cd] by (simp add: s6_def s5)
  have 7: "sess_step cd s6 s7"
    using sess_step.sender_chunk [of s6 cd] by (simp add: s7_def s6_def send_written_def)
  have 8: "sess_step cd s7 s8" using sess_step.sender_write [of s7 pk None cd] by (simp add: s8_def s7)
  have 9: "sess_step cd s8 s9"
    using sess_step.sender_chunk [of s8 cd] by (simp add: s9_def s8_def send_written_def)
  have q: "quiet_step cd s0 s1" "quiet_step cd s1 s2" "quiet_step cd s2 s3" "quiet_step cd s3 s4"
    "quiet_step cd s4 s5"
    using 1 2 3 4 5 s5 by (simp_all add: quiet_step_def sdefs)
  have "(quiet_step cd)\<^sup>*\<^sup>* s0 s5"
    using q by (meson converse_rtranclp_into_rtranclp rtranclp.rtrancl_refl)
  moreover have "s0 = sess_start (Inr defaultSize)"
    by (simp add: s0_def sess_start_def Size_or_zero_def)
  moreover have "quiet_step cd s6 s7" using 7 s7 by (simp add: quiet_step_def)
  moreover have "quiet_step cd s8 s9"
    using 9 by (simp add: quiet_step_def s9_def s8_def s7 s6_def s5 send_written_def send_chunk_def
        pending_take_def new_pendingInput_def sdefs)
  moreover have "ss_recv s6 = ss_recv s5 \<and> ss_sent s6 = ss_sent s5 @ [\<lparr>pkt_header = HeaderTerminalInfo, pkt_payload = []\<rparr>]"
    by (simp add: s6_def send_written_def)
  moreover have "ss_recv s8 = ss_recv s7 \<and> ss_sent s8 = ss_sent s7 @ [pk]"
    by (simp add: s8_def send_written_def)
  moreover have "ss_typed s9 = [126, 126, 97] \<and> \<not> ss_lost s9 \<and> ss_reader s9 = KbRead \<and> ss_sender s9 = SnWait
      \<and> pi_buf (ss_pend s9) = []"
    by (simp add: s9_def s8_def s7 s6_def s5 send_written_def send_chunk_def pending_take_def
        new_pendingInput_def sdefs)
  ultimately show ?thesis
    using 6 8 unfolding cd_def pk_def
    by (intro exI [of _ s5] exI [of _ s6] exI [of _ s7] exI [of _ s8] exI [of _ s9]) simp
qed

lemma quiet_steps: "(quiet_step cd)\<^sup>*\<^sup>* s t \<Longrightarrow> (sess_step cd)\<^sup>*\<^sup>* s t"
  by (erule rtranclp_mono [THEN predicate2D, rotated]) (auto simp: quiet_step_def)

lemma demo_typing:
  "\<exists>s. sess_reachable demo_session_codecs (Inr defaultSize) s \<and> ss_typed s = [126, 126, 97]
     \<and> \<not> ss_lost s \<and> ss_reader s = KbRead \<and> ss_sender s = SnWait \<and> pi_buf (ss_pend s) = []"
proof -
  obtain s5 s6 s7 s8 s9 where r:
    "(quiet_step demo_session_codecs)\<^sup>*\<^sup>* (sess_start (Inr defaultSize)) s5"
    "sess_step demo_session_codecs s5 s6" "quiet_step demo_session_codecs s6 s7"
    "sess_step demo_session_codecs s7 s8" "quiet_step demo_session_codecs s8 s9"
    and s9: "ss_typed s9 = [126, 126, 97]" "\<not> ss_lost s9" "ss_reader s9 = KbRead" "ss_sender s9 = SnWait"
      "pi_buf (ss_pend s9) = []"
    using demo_typing_run by blast
  from quiet_steps [OF r(1)] r(2-5) have "sess_reachable demo_session_codecs (Inr defaultSize) s9"
    unfolding sess_reachable_def quiet_step_def by (meson rtranclp.rtrancl_into_rtrancl)
  with s9 show ?thesis by blast
qed

theorem input_in_order_witness:
  "\<exists>s. sess_reachable demo_session_codecs (Inr defaultSize) s \<and> ss_typed s = [126, 126, 97]
     \<and> sent_input demo_session_codecs (ss_sent s) = [126, 97]"
proof -
  obtain s where s: "sess_reachable demo_session_codecs (Inr defaultSize) s" "ss_typed s = [126, 126, 97]"
     "\<not> ss_lost s" "ss_reader s = KbRead" "ss_sender s = SnWait" "pi_buf (ss_pend s) = []"
    using demo_typing by blast
  have "escape_filter new_escapeFilter [] (ss_typed s) = (\<lparr>esc_midLine = True, esc_tilde = False\<rparr>, [126, 97], False)"
    by (simp add: s(2) new_escapeFilter_def is_newline_def)
  from input_in_order [OF demo_session_codecs_ok s(1) this] s show ?thesis by blast
qed

text \<open>
  C15. The user can always detach: from any state in which the reader waits for the keyboard, if the
  next bytes complete the escape, the reader gets through its pushes and ends the session with
  \<^verbatim>\<open>ErrDetached\<close> (unless it has another cause already) by its own steps alone. No step of the
  sender, the router or the output goroutine is needed, so a send blocked on a dead connection with a
  full input buffer cannot hold the escape back.
\<close>

theorem detach_never_blocked:
  assumes "ss_reader s = KbRead" and "bs \<noteq> []" and "length bs \<le> readBufSize"
    and "escape_filter (ss_esc s) [] bs = (f, out, True)"
  shows "\<exists>t. (sess_step cd)\<^sup>*\<^sup>* s t \<and> reader_only s t \<and> ss_reader t = KbDone
    \<and> ss_cause t = (case ss_cause s of None \<Rightarrow> Some ErrDetached | Some c \<Rightarrow> Some c)"
proof -
  let ?u = "key_read bs None s"
  have u: "ss_reader ?u = KbPush out AfterDetach" "reader_only s ?u" "ss_cause ?u = ss_cause s"
    using assms(2,4) by (simp_all add: key_read_def reader_only_def)
  have su: "sess_step cd s ?u" using sess_step.reader_read [OF assms(1,3), of None cd] by simp
  from push_finishes [OF u(1), of cd] obtain v where v: "(sess_step cd)\<^sup>*\<^sup>* ?u v" "reader_only ?u v"
    "ss_reader v = KbPush [] AfterDetach" "ss_cause v = ss_cause ?u" by blast
  let ?t = "key_after AfterDetach v"
  have "reader_only v ?t" "ss_reader ?t = KbDone"
    "ss_cause ?t = (case ss_cause v of None \<Rightarrow> Some ErrDetached | Some c \<Rightarrow> Some c)"
    by (simp_all add: key_after_def reader_only_def)
  moreover have "sess_step cd v ?t" by (rule sess_step.reader_after [OF v(3)])
  then have "(sess_step cd)\<^sup>*\<^sup>* s ?t" using su v(1) by (meson converse_rtranclp_into_rtranclp rtranclp.rtrancl_into_rtrancl)
  ultimately show ?thesis using u v reader_only_trans by metis
qed

theorem detach_never_blocked_witness:
  "\<exists>t. (sess_step demo_session_codecs)\<^sup>*\<^sup>* ((sess_start (Inr defaultSize))\<lparr>ss_pend := new_pendingInput\<lparr>pi_max := 0\<rparr>\<rparr>) t
    \<and> reader_only ((sess_start (Inr defaultSize))\<lparr>ss_pend := new_pendingInput\<lparr>pi_max := 0\<rparr>\<rparr>) t
    \<and> ss_reader t = KbDone \<and> ss_cause t = Some ErrDetached"
  using detach_never_blocked [of "(sess_start (Inr defaultSize))\<lparr>ss_pend := new_pendingInput\<lparr>pi_max := 0\<rparr>\<rparr>"
      "[97, 13, 126, 46]" "\<lparr>esc_midLine = False, esc_tilde = False\<rparr>" "[97, 13]" demo_session_codecs]
  by (simp add: sess_start_def readBufSize_def new_escapeFilter_def is_newline_def)

text \<open>
  The documented escape on a whole stream, read with one byte of lookahead: \<open>start\<close> is the
  start of input or the byte after CR or LF. The second component says whether \<^verbatim>\<open>~.\<close> was found.
\<close>

fun escape_ref :: "bool \<Rightarrow> bytes \<Rightarrow> bytes \<times> bool" where
  "escape_ref start [] = ([], False)"
| "escape_ref start [b] = (if start \<and> b = 126 then ([], False) else ([b], False))"
| "escape_ref start (b # c # src) =
     (if start \<and> b = 126 then
        (if c = 46 then ([], True)
         else if c = 126 then (case escape_ref False src of (out, d) \<Rightarrow> (126 # out, d))
         else (case escape_ref (is_newline c) src of (out, d) \<Rightarrow> (126 # c # out, d)))
      else (case escape_ref (is_newline b) (c # src) of (out, d) \<Rightarrow> (b # out, d)))"

text \<open>The filter over a sequence of reads, until one of them detaches.\<close>

fun filter_reads :: "escapeFilter \<Rightarrow> bytes list \<Rightarrow> bytes \<times> bool" where
  "filter_reads f [] = ([], False)"
| "filter_reads f (b # bs) =
     (case escape_filter f [] b of
        (f', out, d) \<Rightarrow>
          if d then (out, True) else (case filter_reads f' bs of (out', d') \<Rightarrow> (out @ out', d')))"

lemma filter_reads_eq: "filter_reads f bs = snd (escape_filter f [] (concat bs))"
proof (induction bs arbitrary: f)
  case Nil
  show ?case by simp
next
  case (Cons b bs)
  obtain f' out d where e: "escape_filter f [] b = (f', out, d)" by (cases "escape_filter f [] b")
  with Cons escape_filter_dst [of f' out "concat bs"] show ?case
    by (auto simp: escape_filter_append split: prod.splits)
qed

lemma escape_filter_ref:
  "snd (escape_filter \<lparr>esc_midLine = \<not> start, esc_tilde = False\<rparr> [] src) = escape_ref start src"
proof (induction start src rule: escape_ref.induct)
  case (3 start b c src)
  let ?f = "\<lparr>esc_midLine = \<not> start, esc_tilde = False\<rparr>"
  show ?case
  proof (cases "start \<and> b = 126")
    case True
    with 3(1,2) escape_filter_dst [of "\<lparr>esc_midLine = True, esc_tilde = False\<rparr>" "[126]" src]
      escape_filter_dst [of "\<lparr>esc_midLine = \<not> is_newline c, esc_tilde = False\<rparr>" "[126, c]" src]
    show ?thesis by (auto split: prod.splits)
  next
    case False
    have "escape_filter ?f [] (b # c # src) =
        escape_filter \<lparr>esc_midLine = \<not> is_newline b, esc_tilde = False\<rparr> [b] (c # src)"
      using False by auto
    moreover have "escape_ref start (b # c # src) =
        (case escape_ref (is_newline b) (c # src) of (out, d) \<Rightarrow> (b # out, d))"
      using False by auto
    ultimately show ?thesis using 3(3) [OF False]
      escape_filter_dst [of "\<lparr>esc_midLine = \<not> is_newline b, esc_tilde = False\<rparr>" "[b]" "c # src"]
      by (simp del: escape_filter.simps escape_ref.simps split: prod.splits)
  qed
qed auto

text \<open>
  C33. The local escape behaves as documented however the keyboard's bytes are cut into reads: over any
  sequence of reads the bytes passed on, and whether the session detaches, are those of the whole
  input read at once.
\<close>

theorem escape_as_documented: "filter_reads new_escapeFilter reads = escape_ref True (concat reads)"
  using escape_filter_ref [of True "concat reads"] by (simp add: filter_reads_eq new_escapeFilter_def)

text \<open>Registration: which headers a list of services may claim, and where the packets then go.\<close>

definition claimable :: "routes \<Rightarrow> Header list \<Rightarrow> bool" where
  "claimable r hs \<longleftrightarrow> list_all (\<lambda>h. \<not> sessionHeader h \<and> h \<notin> dom r) hs \<and> distinct hs"

lemma claimable_Cons:
  "claimable r (h # hs) \<longleftrightarrow> \<not> sessionHeader h \<and> r h = None \<and> claimable (r(h \<mapsto> s)) hs"
  by (auto simp: claimable_def list_all_iff)

lemma add_routes_cases:
  "(claimable r hs \<longrightarrow> add_routes s hs r = Inr (\<lambda>h. if h \<in> set hs then Some s else r h))
   \<and> (\<not> claimable r hs \<longrightarrow> (\<exists>e. add_routes s hs r = Inl e))"
proof (induction hs arbitrary: r)
  case Nil
  show ?case by (simp add: claimable_def)
next
  case (Cons h hs)
  have upd: "(\<lambda>x. if x \<in> set hs then Some s else (r(h \<mapsto> s)) x) = (\<lambda>x. if x \<in> set (h # hs) then Some s else r x)"
    by (rule ext) simp
  show ?case
  proof (cases "sessionHeader h \<or> r h \<noteq> None")
    case True
    then show ?thesis by (auto simp: claimable_Cons [of r h hs s])
  next
    case False
    then have "add_routes s (h # hs) r = add_routes s hs (r(h \<mapsto> s))"
      "claimable r (h # hs) = claimable (r(h \<mapsto> s)) hs" by (auto simp: claimable_Cons [of r h hs s])
    with Cons.IH [of "r(h \<mapsto> s)"] upd show ?thesis by (simp only:)
  qed
qed

lemma claimable_append:
  assumes "r' = (\<lambda>h. if h \<in> set hs then Some s else r h)"
  shows "claimable r (hs @ gs) \<longleftrightarrow> claimable r hs \<and> claimable r' gs"
  using assms by (auto simp: claimable_def list_all_iff dom_def split: if_splits)

lemma newRouter_loop_cases:
  "if claimable r (concat services)
   then \<exists>r'. newRouter_loop s services r = Inr r' \<and>
      (\<forall>h k. r' h = Some k \<longleftrightarrow> (\<exists>i < length services. k = s + i \<and> h \<in> set (services ! i))
          \<or> (h \<notin> set (concat services) \<and> r h = Some k))
   else \<exists>e. newRouter_loop s services r = Inl e"
proof (induction services arbitrary: s r)
  case Nil
  show ?case by (simp add: claimable_def)
next
  case (Cons hs services)
  show ?case
  proof (cases "claimable r hs")
    case False
    then have "\<not> claimable r (hs @ concat services)" by (auto simp: claimable_def)
    with False add_routes_cases [of r hs s] show ?thesis by auto
  next
    case True
    define r1 where "r1 = (\<lambda>h. if h \<in> set hs then Some s else r h)"
    from True add_routes_cases [of r hs s] have step: "newRouter_loop s (hs # services) r = newRouter_loop (Suc s) services r1"
      by (simp add: r1_def)
    have cl: "claimable r (concat (hs # services)) \<longleftrightarrow> claimable r1 (concat services)"
      using True claimable_append [OF r1_def] by simp
    show ?thesis
    proof (cases "claimable r1 (concat services)")
      case no: False
      with Cons.IH [of r1 "Suc s"] step cl show ?thesis by simp
    next
      case yes: True
      with Cons.IH [of r1 "Suc s"] obtain r' where r': "newRouter_loop (Suc s) services r1 = Inr r'"
        "\<forall>h k. r' h = Some k \<longleftrightarrow> (\<exists>i < length services. k = Suc s + i \<and> h \<in> set (services ! i))
          \<or> (h \<notin> set (concat services) \<and> r1 h = Some k)" by auto
      have "r' h = Some k \<longleftrightarrow> (\<exists>i < length (hs # services). k = s + i \<and> h \<in> set ((hs # services) ! i))
          \<or> (h \<notin> set (concat (hs # services)) \<and> r h = Some k)" for h k
      proof -
        have "h \<in> set hs \<Longrightarrow> h \<notin> set (concat services)"
          using yes by (fastforce simp: claimable_def list_all_iff r1_def dom_def)
        with r'(2) [rule_format, of h k] show ?thesis
          by (auto simp: less_Suc_eq_0_disj r1_def)
      qed
      with r'(1) step cl yes show ?thesis by simp
    qed
  qed
qed

text \<open>
  The router accepts exactly the service lists in which no header is claimed twice and none of the
  three session headers is claimed at all; every header then goes to the one service that claimed it,
  and every other header to none.
\<close>

lemma newRouter_correct:
  "(case newRouter services of
      Inl _ \<Rightarrow> \<not> distinct (concat services) \<or> (\<exists>h \<in> set (concat services). sessionHeader h)
    | Inr r \<Rightarrow> distinct (concat services) \<and> (\<forall>h. sessionHeader h \<longrightarrow> r h = None)
        \<and> (\<forall>h k. r h = Some k \<longleftrightarrow> k < length services \<and> h \<in> set (services ! k)))"
proof (cases "claimable Map.empty (concat services)")
  case True
  with newRouter_loop_cases [of Map.empty services 0] obtain r where r: "newRouter services = Inr r"
    "\<forall>h k. r h = Some k \<longleftrightarrow> k < length services \<and> h \<in> set (services ! k)"
    by (auto simp: newRouter_def)
  have "r h = None" if "sessionHeader h" for h
  proof (rule ccontr)
    assume "r h \<noteq> None"
    with r(2) obtain k where "k < length services" "h \<in> set (services ! k)" by auto
    then have "h \<in> set (concat services)" by auto
    with that True show False by (auto simp: claimable_def list_all_iff)
  qed
  with r True show ?thesis by (simp add: claimable_def)
next
  case False
  with newRouter_loop_cases [of Map.empty services 0] obtain e where "newRouter services = Inl e"
    by (auto simp: newRouter_def)
  with False show ?thesis by (auto simp: claimable_def list_all_iff)
qed

lemma newRouter_correct_witness:
  "newRouter [terminal_headers] = Inr run_routes \<and> run_routes HeaderKeepAlive = None"
  using newRouter_correct [of "[terminal_headers]"] by (simp add: run_routes_registered sessionHeader_def)

end
