(* ===== verification/ET_Client.thy ===== *)
theory ET_Client
  imports ET_Live ET_Session
begin

text \<open>
  The session on top of the connection: \<^verbatim>\<open>session.Run\<close> reads and writes its packets through the
  \<^verbatim>\<open>Transport\<close> interface, which in the program is the \<^verbatim>\<open>*etcp.Conn\<close> (run.go hands one to the other).
  The locale \<open>ordered_transport\<close> is what the session gets from a transport, proved once for the
  client, the server and the network of ET_Live; \<open>client_step\<close> runs the two together, every
  goroutine of the program interleaved with every other.
\<close>

section \<open>The contract of a transport\<close>

lemma prefix_sent_input: "prefix ps qs \<Longrightarrow> prefix (sent_input cd ps) (sent_input cd qs)"
  by (auto simp: prefix_def sent_input_def)

lemma sent_input_cong: "filter is_tb ps = filter is_tb qs \<Longrightarrow> sent_input cd ps = sent_input cd qs"
  by (simp add: sent_input_def)

text \<open>
  \<open>got\<close> and \<open>out\<close> are the packets the client's \<^verbatim>\<open>ReadPacket\<close> returned and its \<^verbatim>\<open>WritePacket\<close> took,
  \<open>peer_out\<close> and \<open>peer_got\<close> those the server sent and received.
\<close>

locale ordered_transport =
  fixes state_ok :: "'y \<Rightarrow> bool"
    and got out peer_out peer_got :: "'y \<Rightarrow> packet list"
  assumes got_prefix: "state_ok y \<Longrightarrow> prefix (got y) (peer_out y)"
    and peer_got_prefix: "state_ok y \<Longrightarrow> prefix (peer_got y) (out y)"
begin

text \<open>A session that read what the transport delivered shows a prefix of what the server sent.\<close>

lemma screen_of_peer:
  assumes "state_ok y" and "sess_reachable cd size0 s" and "codecs_ok cd"
    and "filter is_tb (got y) = filter is_tb (ss_recv s)"
  shows "prefix (ss_screen s) (sent_input cd (peer_out y))"
proof -
  have inv: "out_inv cd s" using sess_reachable_inv(1) [OF assms(2,3)] .
  have scr: "ss_screen s = concat (map (tb_bytes cd) (ss_shown s))"
    using inv unfolding out_inv_def by blast
  have "prefix (ss_shown s) (filter is_tb (got y))"
    using inv assms(4) unfolding out_inv_def by metis
  then obtain zs where "filter is_tb (got y) = ss_shown s @ zs" by (auto simp: prefix_def)
  then have "prefix (ss_screen s) (sent_input cd (got y))" by (simp add: sent_input_def scr)
  also have "prefix (sent_input cd (got y)) (sent_input cd (peer_out y))"
    using prefix_sent_input [OF got_prefix [OF assms(1)]] .
  finally show ?thesis .
qed

text \<open>And what the server received of the keyboard is what the user typed, in order.\<close>

lemma keyboard_of_peer:
  assumes "state_ok y" and "sess_reachable cd size0 s" and "codecs_ok cd"
    and "filter is_tb (out y) = filter is_tb (ss_sent s)"
    and "escape_filter new_escapeFilter [] (ss_typed s) = (f, keys, d)"
  shows "subseq (sent_input cd (peer_got y)) keys"
    and "\<not> ss_lost s \<Longrightarrow> prefix (sent_input cd (peer_got y)) keys"
proof -
  note typed = sent_input_typed [OF assms(3,2,5)]
  have p: "prefix (sent_input cd (peer_got y)) (sent_input cd (ss_sent s))"
    using prefix_sent_input [OF peer_got_prefix [OF assms(1)], of cd] sent_input_cong [OF assms(4), of cd]
    by simp
  then show "subseq (sent_input cd (peer_got y)) keys"
    using typed(1) by (meson prefix_imp_subseq subseq_order.dual_order.trans)
  show "prefix (sent_input cd (peer_got y)) keys" if "\<not> ss_lost s"
    using p typed(2) [OF that] by (rule prefix_order.trans)
qed

end

interpretation etcp: ordered_transport "\<lambda>v. secretbox_laws sb \<and> live_reachable sb key v"
    live_got live_queued "\<lambda>v. g_sout (lv_sys v)" "\<lambda>v. g_sgot (lv_sys v)"
  for sb key
proof
  fix v assume v: "secretbox_laws sb \<and> live_reachable sb key v"
  then obtain a where a: "reachable sb key a" "live_rel v a" using live_reachable_view by blast
  from delivered_prefix [OF conjunct1 [OF v] a(1)] live_rel_shows [OF a(2)]
  show "prefix (live_got v) (g_sout (lv_sys v))" and "prefix (g_sgot (lv_sys v)) (live_queued v)"
    by (auto simp: prefix_def)
qed

section \<open>Session and connection together\<close>

text \<open>
  Every step of the network, the server and the goroutines of \<^verbatim>\<open>etcp\<close> (a keepalive probe included)
  may fall between the session's own; a packet the session's router takes is the one \<^verbatim>\<open>ReadPacket\<close>
  returns, and a packet its sender wrote is the one \<^verbatim>\<open>WritePacket\<close> queued. The start is the end of
  \<^verbatim>\<open>session.Start\<close>: whatever was exchanged before, no terminal data was.
\<close>

inductive client_step :: "secretbox \<Rightarrow> session_codecs \<Rightarrow> live \<times> sess \<Rightarrow> live \<times> sess \<Rightarrow> bool" for sb cd where
  transport_alone: "live_step sb v v' \<Longrightarrow> live_got v' = live_got v \<Longrightarrow> filter is_tb (live_queued v') = filter is_tb (live_queued v) \<Longrightarrow>
    client_step sb cd (v, s) (v', s)"
| session_alone: "quiet_step cd s s' \<Longrightarrow> client_step sb cd (v, s) (v, s')"
| client_reads: "live_step sb v v' \<Longrightarrow> live_got v' = live_got v @ [p] \<Longrightarrow> live_queued v' = live_queued v \<Longrightarrow>
    sess_step cd s s' \<Longrightarrow> ss_recv s' = ss_recv s @ [p] \<Longrightarrow> ss_sent s' = ss_sent s \<Longrightarrow>
    client_step sb cd (v, s) (v', s')"
| client_writes: "live_step sb v v' \<Longrightarrow> live_got v' = live_got v \<Longrightarrow> live_queued v' = live_queued v @ [p] \<Longrightarrow>
    sess_step cd s s' \<Longrightarrow> ss_recv s' = ss_recv s \<Longrightarrow> ss_sent s' = ss_sent s @ [p] \<Longrightarrow>
    client_step sb cd (v, s) (v', s')"

inductive_cases client_stepE: "client_step sb cd ys ys'"

definition client_start :: "secretbox \<Rightarrow> bytes \<Rightarrow> live \<times> sess \<Rightarrow> bool" where
  "client_start sb key ys \<longleftrightarrow>
     live_reachable sb key (fst ys) \<and> (\<exists>size0. snd ys = sess_start size0)
     \<and> filter is_tb (live_got (fst ys)) = [] \<and> filter is_tb (live_queued (fst ys)) = []"

definition client_inv :: "secretbox \<Rightarrow> bytes \<Rightarrow> session_codecs \<Rightarrow> live \<times> sess \<Rightarrow> bool" where
  "client_inv sb key cd ys \<longleftrightarrow>
     live_reachable sb key (fst ys) \<and> (\<exists>size0. sess_reachable cd size0 (snd ys))
     \<and> filter is_tb (live_got (fst ys)) = filter is_tb (ss_recv (snd ys))
     \<and> filter is_tb (live_queued (fst ys)) = filter is_tb (ss_sent (snd ys))"

lemma live_reachable_step: "live_reachable sb key v \<Longrightarrow> live_step sb v v' \<Longrightarrow> live_reachable sb key v'"
  unfolding live_reachable_def by (meson rtranclp.rtrancl_into_rtrancl)

lemma sess_reachable_step: "sess_reachable cd size0 s \<Longrightarrow> sess_step cd s s' \<Longrightarrow> sess_reachable cd size0 s'"
  unfolding sess_reachable_def by (meson rtranclp.rtrancl_into_rtrancl)

lemma client_inv_step: "client_step sb cd ys ys' \<Longrightarrow> client_inv sb key cd ys \<Longrightarrow> client_inv sb key cd ys'"
  by (erule client_stepE)
    (auto simp: client_inv_def quiet_step_def intro: live_reachable_step sess_reachable_step)

interpretation client: transition_system "client_start sb key" "client_step sb cd" "client_inv sb key cd"
  for sb key cd
proof unfold_locales
  show "client_inv sb key cd ys" if "client_start sb key ys" for ys
    using that by (auto simp: client_start_def client_inv_def sess_reachable_def sess_start_def)
qed (rule client_inv_step)

definition client_reachable :: "secretbox \<Rightarrow> bytes \<Rightarrow> session_codecs \<Rightarrow> live \<Rightarrow> sess \<Rightarrow> bool" where
  "client_reachable sb key cd v s \<longleftrightarrow>
     (\<exists>ys0. client_start sb key ys0 \<and> (client_step sb cd)\<^sup>*\<^sup>* ys0 (v, s))"

lemma client_reachable_inv: "client_reachable sb key cd v s \<Longrightarrow> client_inv sb key cd (v, s)"
  unfolding client_reachable_def using client.inv_reachable by blast

section \<open>Properties\<close>

text \<open>
  C2. End to end: over any schedule of the session, the transport and the server, and any number of
  lost links, what is on the user's screen is a prefix of the terminal data the server sent, and the
  terminal data the server received is, in order, what the user typed past the escape filter: a
  prefix of it as long as no input was dropped for a stalled connection, never anything reordered or
  repeated.
\<close>

theorem end_to_end:
  assumes "secretbox_laws sb" and "codecs_ok cd" and "client_reachable sb key cd v s"
    and "escape_filter new_escapeFilter [] (ss_typed s) = (f, keys, d)"
  shows "prefix (ss_screen s) (sent_input cd (g_sout (lv_sys v)))
    \<and> subseq (sent_input cd (g_sgot (lv_sys v))) keys
    \<and> (\<not> ss_lost s \<longrightarrow> prefix (sent_input cd (g_sgot (lv_sys v))) keys)"
proof -
  from client_reachable_inv [OF assms(3)] obtain size0 where
    inv: "secretbox_laws sb \<and> live_reachable sb key v" "sess_reachable cd size0 s"
      "filter is_tb (live_got v) = filter is_tb (ss_recv s)" "filter is_tb (live_queued v) = filter is_tb (ss_sent s)"
    using assms(1) by (auto simp: client_inv_def)
  from etcp.screen_of_peer [OF inv(1,2) assms(2) inv(3)]
    etcp.keyboard_of_peer [OF inv(1,2) assms(2) inv(4) assms(4)]
  show ?thesis by blast
qed

text \<open>A client that typed \<^verbatim>\<open>~~a\<close>, all of it handed to the connection.\<close>

lemma demo_queue:
  assumes "cn_cause c = None" and "cn_unsent c \<le> rg_limit (cn_ring c)"
  obtains c' where "WritePacket_pass sb c p = (c', Queued)" and "cn_cause c' = None"
    and "rg_limit (cn_ring c') = rg_limit (cn_ring c)"
    and "cn_unsent c' = cn_unsent c + int (length (sealed_packet sb (cn_out c) p))"
  using assms by (auto simp: WritePacket_pass_def enqueueLocked_eq Let_def ring_push_def)

lemma demo_client_start:
  "\<exists>v. live_start demo_key v \<and> lv_run v \<noteq> None \<and> cn_cause (live_conn v) = None
    \<and> cn_unsent (live_conn v) = 0 \<and> live_queued v = [] \<and> live_got v = []
    \<and> rg_limit (cn_ring (live_conn v)) = defaultReplayLimit"
proof -
  obtain y where "sys_start demo_dialer [] [] demo_key = Some y" "cn_cause (s_cli y) = None"
    "cn_unsent (s_cli y) = 0" "g_cout y = []" "g_cgot y = []" "rg_limit (cn_ring (s_cli y)) = defaultReplayLimit"
    by (simp add: sys_start_def demo_key_def bad_options_def demo_dialer_def zero_packet_def maxReplayLimit_def
        defaultReplayLimit_def minKeepAlive_def newConn_def NewServer_def seal_New_def ClientToServer_def
        ServerToClient_def cmp_Or_def Let_def)
  then show ?thesis
    by (intro exI [of _ "\<lparr>lv_sys = y, lv_run = Some (link_of y)\<rparr>"])
      (auto simp: live_start_def session_start_def live_conn_def live_queued_def live_got_def link_of_def runLink_start_def)
qed

lemma quiet_client_steps:
  "(quiet_step cd)\<^sup>*\<^sup>* s t \<Longrightarrow> (client_step sb cd)\<^sup>*\<^sup>* (y, s) (y, t)"
  by (induction rule: rtranclp_induct) (auto intro: client_step.session_alone rtranclp.rtrancl_into_rtrancl)

lemma demo_write:
  assumes "sess_step cd s t" and "ss_recv t = ss_recv s" and "ss_sent t = ss_sent s @ [p]"
    and "length (pkt_payload p) \<le> 2" and "cn_cause (live_conn v) = None"
    and "cn_unsent (live_conn v) \<le> rg_limit (cn_ring (live_conn v))" and "lv_run v \<noteq> None"
  obtains v' where "client_step demo_box cd (v, s) (v', t)" and "cn_cause (live_conn v') = None"
    and "rg_limit (cn_ring (live_conn v')) = rg_limit (cn_ring (live_conn v))"
    and "cn_unsent (live_conn v') \<le> cn_unsent (live_conn v) + 20" and "live_queued v' = live_queued v @ [p]"
    and "lv_run v' \<noteq> None"
proof -
  obtain l where l: "lv_run v = Some l" "live_conn v = ln_conn l" using assms(7) by (auto simp: live_conn_def)
  obtain c' where c': "WritePacket_pass demo_box (ln_conn l) p = (c', Queued)" "cn_cause c' = None"
    "rg_limit (cn_ring c') = rg_limit (cn_ring (ln_conn l))"
    "cn_unsent c' = cn_unsent (ln_conn l) + int (length (sealed_packet demo_box (cn_out (ln_conn l)) p))"
    using demo_queue [OF assms(5,6)] l(2) by metis
  let ?v = "v\<lparr>lv_run := Some (l\<lparr>ln_conn := c', ln_queued := ln_queued l @ [p]\<rparr>)\<rparr>"
  have "WritePacket_enter None p = None"
    using assms(4) by (simp add: WritePacket_enter_def maxPayload_def MaxFrameSize_def secretbox_Overhead_def)
  from live_step.caller [OF l(1) caller_step.call_write [OF this c'(1)]] have "live_step demo_box v ?v" .
  then have "client_step demo_box cd (v, s) (?v, t)"
    using assms(1-3) l(1) by (intro client_step.client_writes [where p = p]) (simp_all add: live_got_def live_queued_def)
  moreover have "cn_unsent c' \<le> cn_unsent (ln_conn l) + 20"
    using c'(4) assms(4) length_sealed_packet [OF demo_box_laws] by (simp add: secretbox_Overhead_def)
  ultimately show thesis using that [of ?v] c' l by (simp add: live_conn_def live_queued_def)
qed

lemma demo_client:
  "\<exists>v s. client_reachable demo_box demo_key demo_session_codecs v s \<and> ss_typed s = [126, 126, 97]
     \<and> \<not> ss_lost s \<and> map pkt_payload (live_queued v) = [[], [126, 97]]"
proof -
  obtain s5 s6 s7 s8 s9 where q: "(quiet_step demo_session_codecs)\<^sup>*\<^sup>* (sess_start (Inr defaultSize)) s5"
    "quiet_step demo_session_codecs s6 s7" "quiet_step demo_session_codecs s8 s9"
    and w1: "sess_step demo_session_codecs s5 s6" "ss_recv s6 = ss_recv s5"
      "ss_sent s6 = ss_sent s5 @ [\<lparr>pkt_header = HeaderTerminalInfo, pkt_payload = []\<rparr>]"
    and w2: "sess_step demo_session_codecs s7 s8" "ss_recv s8 = ss_recv s7"
      "ss_sent s8 = ss_sent s7 @ [\<lparr>pkt_header = HeaderTerminalBuffer, pkt_payload = [126, 97]\<rparr>]"
    and s9: "ss_typed s9 = [126, 126, 97]" "\<not> ss_lost s9"
    using demo_typing_run by blast
  obtain v where v: "live_start demo_key v" "lv_run v \<noteq> None" "cn_cause (live_conn v) = None"
    "cn_unsent (live_conn v) = 0" "live_queued v = []" "live_got v = []" "rg_limit (cn_ring (live_conn v)) = defaultReplayLimit"
    using demo_client_start by blast
  have lim: "40 \<le> defaultReplayLimit" by (simp add: defaultReplayLimit_def)
  obtain v1 where v1: "client_step demo_box demo_session_codecs (v, s5) (v1, s6)" "cn_cause (live_conn v1) = None"
    "rg_limit (cn_ring (live_conn v1)) = defaultReplayLimit" "cn_unsent (live_conn v1) \<le> 20" "lv_run v1 \<noteq> None"
    "live_queued v1 = [\<lparr>pkt_header = HeaderTerminalInfo, pkt_payload = []\<rparr>]"
    using demo_write [OF w1, of v] v lim by auto
  obtain v2 where v2: "client_step demo_box demo_session_codecs (v1, s7) (v2, s8)"
    "live_queued v2 = live_queued v1 @ [\<lparr>pkt_header = HeaderTerminalBuffer, pkt_payload = [126, 97]\<rparr>]"
    using demo_write [OF w2, of v1] v1 lim by auto
  have "(client_step demo_box demo_session_codecs)\<^sup>*\<^sup>* (v, sess_start (Inr defaultSize)) (v1, s6)"
    using quiet_client_steps [OF q(1)] v1(1) by (meson rtranclp.rtrancl_into_rtrancl)
  also have "(client_step demo_box demo_session_codecs)\<^sup>*\<^sup>* (v1, s6) (v2, s8)"
    using client_step.session_alone [OF q(2)] v2(1) by (meson r_into_rtranclp rtranclp.rtrancl_into_rtrancl)
  also have "(client_step demo_box demo_session_codecs)\<^sup>*\<^sup>* (v2, s8) (v2, s9)"
    using client_step.session_alone [OF q(3)] by blast
  finally have run: "(client_step demo_box demo_session_codecs)\<^sup>*\<^sup>* (v, sess_start (Inr defaultSize)) (v2, s9)" .
  have "client_start demo_box demo_key (v, sess_start (Inr defaultSize))"
    using v by (auto simp: client_start_def live_reachable_def)
  with run have "client_reachable demo_box demo_key demo_session_codecs v2 s9"
    unfolding client_reachable_def by blast
  with s9 v1 v2 show ?thesis by (intro exI [of _ v2] exI [of _ s9]) simp
qed

theorem end_to_end_witness:
  "\<exists>v s. client_reachable demo_box demo_key demo_session_codecs v s \<and> ss_typed s = [126, 126, 97]
     \<and> map pkt_payload (live_queued v) = [[], [126, 97]]
     \<and> prefix (sent_input demo_session_codecs (g_sgot (lv_sys v))) [126, 97]"
proof -
  obtain v s where r: "client_reachable demo_box demo_key demo_session_codecs v s" "ss_typed s = [126, 126, 97]"
    "\<not> ss_lost s" "map pkt_payload (live_queued v) = [[], [126, 97]]"
    using demo_client by (elim exE conjE)
  have "escape_filter new_escapeFilter [] (ss_typed s) = (\<lparr>esc_midLine = True, esc_tilde = False\<rparr>, [126, 97], False)"
    by (simp add: r(2) new_escapeFilter_def is_newline_def)
  from end_to_end [OF demo_box_laws demo_session_codecs_ok r(1) this] r show ?thesis
    by (intro exI [of _ v] exI [of _ s]) simp
qed

end
