(* ===== verification/ET_Run.thy ===== *)
theory ET_Run
  imports ET_Session
begin

text \<open>
  \<^verbatim>\<open>session.Run\<close> from its first line to its last (run.go): the services it sets up from its options,
  and the join: once the session's context has ended, every goroutine ends, provided the transport
  honours its context and closing the terminal unblocks a read.
\<close>

section \<open>Setting up\<close>

text \<open>The services of \<^verbatim>\<open>Run\<close>: the terminal service when \<^verbatim>\<open>opts.Terminal\<close> is set, none otherwise.\<close>

definition Run_services :: "bool \<Rightarrow> Header list list" where
  "Run_services terminal = (if terminal then [terminal_headers] else [])"

definition Run_setup :: "bool \<Rightarrow> Size result \<Rightarrow> (routes \<times> sess) result" where
  "Run_setup terminal size0 =
     (case newRouter (Run_services terminal) of
        Inl err \<Rightarrow> Inl err
      | Inr r \<Rightarrow>
          Inr (r, if terminal then sess_start size0
                  else (sess_start size0)\<lparr>ss_output := False, ss_drained := True, ss_reader := KbDone, ss_sender := SnDone\<rparr>))"

text \<open>The router never refuses the session's own services.\<close>

lemma Run_setup_ok:
  "Run_setup True size0 = Inr (run_routes, sess_start size0)"
  "\<exists>s. Run_setup False size0 = Inr (Map.empty, s)"
  by (simp_all add: Run_setup_def Run_services_def run_routes_registered) (simp add: newRouter_def)

section \<open>The join\<close>

lemma group_cancel_ended: "ss_cause s = Some c \<Longrightarrow> group_cancel e s = s"
  by (simp add: group_cancel_def)

text \<open>Each goroutine ends by its own steps, which leave the others where they are.\<close>

lemma router_ends:
  assumes "ss_cause s = Some c"
  shows "\<exists>t. (sess_step cd)\<^sup>*\<^sup>* s t \<and> ss_router t = RtDone \<and> ss_cause t = Some c"
proof (cases "ss_router s")
  case RtReading
  have "external ContextCanceled" by (simp add: external_def)
  from sess_step.router_error [OF RtReading this, of cd] assms
  have "sess_step cd s (s\<lparr>ss_router := RtDone\<rparr>)"
    by (simp add: router_readErr_def router_take_def group_cancel_ended)
  with assms show ?thesis by (intro exI [of _ "s\<lparr>ss_router := RtDone\<rparr>"]) auto
next
  case (RtHolding p)
  have "sess_step cd s (s\<lparr>ss_router := RtDone\<rparr>)"
    using sess_step.router_giveup [OF RtHolding assms, of cd] assms by (simp add: group_cancel_ended)
  with assms show ?thesis by (intro exI [of _ "s\<lparr>ss_router := RtDone\<rparr>"]) auto
next
  case RtEnding
  have "sess_step cd s (s\<lparr>ss_router := RtDone\<rparr>)"
    using sess_step.router_left [OF RtEnding assms, of cd] assms by (simp add: group_cancel_ended)
  with assms show ?thesis by (intro exI [of _ "s\<lparr>ss_router := RtDone\<rparr>"]) auto
next
  case RtDone
  with assms show ?thesis by blast
qed

lemma output_ends:
  assumes "ss_cause s = Some c" and "ss_router s = RtDone"
  shows "\<exists>t. (sess_step cd)\<^sup>*\<^sup>* s t \<and> ss_router t = RtDone \<and> \<not> ss_output t \<and> ss_cause t = Some c"
proof (cases "ss_output s")
  case True
  have "sess_step cd s (output_stop s)" using sess_step.output_ctx [OF True] assms(1) by simp
  with assms show ?thesis by (intro exI [of _ "output_stop s"]) (auto simp: output_stop_def)
next
  case False
  with assms show ?thesis by blast
qed

text \<open>The sender: a write fails with the context's end, a wait ends with it.\<close>

lemma sender_write_ends:
  assumes "ss_cause s = Some c" and "ss_sender s = SnWrite p \<or> ss_sender s = SnWait \<or> ss_sender s = SnDone"
  shows "\<exists>t. (sess_step cd)\<^sup>*\<^sup>* s t \<and> ss_sender t = SnDone \<and> ss_cause t = Some c
    \<and> ss_router t = ss_router s \<and> ss_output t = ss_output s"
proof -
  have "sess_step cd s (s\<lparr>ss_sender := SnDone\<rparr>)" if "ss_sender s = SnWrite p"
    using sess_step.sender_write [OF that, of "Some ContextCanceled" cd] assms(1)
    by (simp add: send_written_def group_cancel_ended external_def)
  moreover have "sess_step cd s (s\<lparr>ss_sender := SnDone\<rparr>)" if "ss_sender s = SnWait"
    using sess_step.sender_ctx [OF that] assms(1) by simp
  moreover have "s\<lparr>ss_sender := SnDone\<rparr> = s" if "ss_sender s = SnDone" using that by (cases s) simp
  ultimately have "(sess_step cd)\<^sup>*\<^sup>* s (s\<lparr>ss_sender := SnDone\<rparr>)"
    using assms(2) by (metis r_into_rtranclp rtranclp.rtrancl_refl)
  with assms(1) show ?thesis by (intro exI [of _ "s\<lparr>ss_sender := SnDone\<rparr>"]) simp
qed

lemma sender_drain_ends:
  assumes "ss_cause s = Some c" and "ss_sender s = SnDrain"
  shows "\<exists>t. (sess_step cd)\<^sup>*\<^sup>* s t \<and> ss_sender t = SnDone \<and> ss_cause t = Some c
    \<and> ss_router t = ss_router s \<and> ss_output t = ss_output s"
proof -
  let ?t = "send_chunk cd s"
  have "ss_cause ?t = Some c" "ss_router ?t = ss_router s" "ss_output ?t = ss_output s"
    "\<exists>p. ss_sender ?t = SnWrite p \<or> ss_sender ?t = SnWait \<or> ss_sender ?t = SnDone"
    using assms(1) by (auto simp: send_chunk_def group_cancel_def split: prod.splits sum.splits)
  with sender_write_ends [of ?t c _ cd] obtain t where "(sess_step cd)\<^sup>*\<^sup>* ?t t" "ss_sender t = SnDone"
    "ss_cause t = Some c" "ss_router t = ss_router s" "ss_output t = ss_output s" by metis
  with sess_step.sender_chunk [OF assms(2), of cd] show ?thesis
    by (meson converse_rtranclp_into_rtranclp)
qed

lemma sender_ends:
  assumes "ss_cause s = Some c"
  shows "\<exists>t. (sess_step cd)\<^sup>*\<^sup>* s t \<and> ss_sender t = SnDone \<and> ss_cause t = Some c
    \<and> ss_router t = ss_router s \<and> ss_output t = ss_output s"
proof (cases "ss_sender s")
  case SnSize
  let ?t = "send_size cd s"
  have t: "ss_cause ?t = Some c" "ss_router ?t = ss_router s" "ss_output ?t = ss_output s"
    "ss_sender ?t = SnDrain \<or> (\<exists>p. ss_sender ?t = SnWrite p \<or> ss_sender ?t = SnWait \<or> ss_sender ?t = SnDone)"
    using assms by (auto simp: send_size_def group_cancel_def split: prod.splits sum.splits option.splits)
  obtain t where "(sess_step cd)\<^sup>*\<^sup>* ?t t" "ss_sender t = SnDone" "ss_cause t = Some c"
    "ss_router t = ss_router s" "ss_output t = ss_output s"
    using t(4) sender_drain_ends [OF t(1), of cd] sender_write_ends [OF t(1), of _ cd] t(2,3) by metis
  with sess_step.sender_size [OF SnSize, of cd] show ?thesis by (meson converse_rtranclp_into_rtranclp)
qed (use sender_write_ends [OF assms] sender_drain_ends [OF assms] in blast)+

text \<open>The reader: its push ends, then a read of the closed terminal fails.\<close>

lemma reader_after_ends:
  assumes "ss_cause s = Some c" and "ss_reader s = KbPush [] aft"
  shows "\<exists>t. (sess_step cd)\<^sup>*\<^sup>* s t \<and> ss_reader t = (if aft = AfterLoop then KbRead else KbDone) \<and> reader_only s t
    \<and> ss_cause t = Some c"
  using sess_step.reader_after [OF assms(2), of cd] assms(1)
  by (intro exI [of _ "key_after aft s"])
    (auto simp: key_after_def reader_only_def group_cancel_ended split: reader_after.splits)

lemma reader_read_ends:
  assumes "ss_cause s = Some c" and "ss_reader s = KbRead"
  shows "\<exists>t. (sess_step cd)\<^sup>*\<^sup>* s t \<and> ss_reader t = KbDone \<and> reader_only s t \<and> ss_cause t = Some c"
proof -
  let ?u = "s\<lparr>ss_reader := KbPush [] (AfterErr OsErrClosed)\<rparr>"
  have "sess_step cd s ?u"
    using sess_step.reader_read [OF assms(2), of "[]" "Some OsErrClosed" cd]
    by (simp add: key_read_def external_def)
  moreover obtain t where "(sess_step cd)\<^sup>*\<^sup>* ?u t" "ss_reader t = KbDone" "reader_only ?u t" "ss_cause t = Some c"
    using reader_after_ends [of ?u c "AfterErr OsErrClosed" cd] assms(1) by auto
  ultimately show ?thesis
    by (intro exI [of _ t]) (auto simp: reader_only_def intro: converse_rtranclp_into_rtranclp)
qed

lemma reader_push_ends:
  assumes "ss_cause s = Some c" and "ss_reader s = KbPush b aft"
  shows "\<exists>t. (sess_step cd)\<^sup>*\<^sup>* s t \<and> ss_reader t = KbDone \<and> reader_only s t \<and> ss_cause t = Some c"
proof -
  obtain u where u: "(sess_step cd)\<^sup>*\<^sup>* s u" "reader_only s u" "ss_reader u = KbPush [] aft" "ss_cause u = Some c"
    using push_finishes [OF assms(2), of cd] assms(1) by auto
  obtain v where v: "(sess_step cd)\<^sup>*\<^sup>* u v" "ss_reader v = (if aft = AfterLoop then KbRead else KbDone)"
    "reader_only u v" "ss_cause v = Some c"
    using reader_after_ends [OF u(4,3), of cd] by blast
  obtain t where "(sess_step cd)\<^sup>*\<^sup>* v t" "ss_reader t = KbDone" "reader_only v t" "ss_cause t = Some c"
    using reader_read_ends [OF v(4), of cd] v by (cases "aft = AfterLoop") (auto simp: reader_only_def)
  with u v show ?thesis by (meson reader_only_trans rtranclp_trans)
qed

lemma reader_ends:
  assumes "ss_cause s = Some c"
  shows "\<exists>t. (sess_step cd)\<^sup>*\<^sup>* s t \<and> ss_reader t = KbDone \<and> reader_only s t \<and> ss_cause t = Some c"
proof (cases "ss_reader s")
  case (KbWait b aft)
  let ?u = "s\<lparr>ss_reader := KbPush [] aft, ss_lost := True\<rparr>"
  have "sess_step cd s ?u" using sess_step.reader_ctx [OF KbWait] assms by simp
  moreover obtain t where "(sess_step cd)\<^sup>*\<^sup>* ?u t" "ss_reader t = KbDone" "reader_only ?u t" "ss_cause t = Some c"
    using reader_push_ends [of ?u c "[]" aft cd] assms by auto
  ultimately show ?thesis
    by (intro exI [of _ t]) (auto simp: reader_only_def intro: converse_rtranclp_into_rtranclp)
next
  case KbDone
  with assms show ?thesis by (auto simp: reader_only_def)
qed (use reader_read_ends [OF assms] reader_push_ends [OF assms] in blast)+



end
