(* ===== verification/ET_Strings.thy ===== *)
theory ET_Strings
  imports ET_Text "HOL-Library.Sublist"
begin

text \<open>
  The parts of Go's \<^verbatim>\<open>strings\<close>, \<^verbatim>\<open>bytes\<close> and \<^verbatim>\<open>unicode\<close> packages that the ssh bootstrap and the
  command line call, with the lemmas about them. A Go string and a \<^verbatim>\<open>[]byte\<close> that holds text are
  both a \<open>string\<close> here, one character per byte; the functions that look at runes decode it with
  the UTF-8 model of ET_Text.
\<close>

section \<open>Searching and cutting\<close>

definition HasPrefix :: "string \<Rightarrow> string \<Rightarrow> bool" where
  "HasPrefix s p = (take (length p) s = p)"

definition HasSuffix :: "string \<Rightarrow> string \<Rightarrow> bool" where
  "HasSuffix s p = (length p \<le> length s \<and> drop (length s - length p) s = p)"

text \<open>\<^verbatim>\<open>ContainsAny\<close> with a set of ASCII characters looks at bytes only.\<close>

definition ContainsAny :: "string \<Rightarrow> string \<Rightarrow> bool" where
  "ContainsAny s chars = list_ex (\<lambda>c. c \<in> set chars) s"

fun str_Index :: "string \<Rightarrow> string \<Rightarrow> nat option" where
  "str_Index [] p = (if p = [] then Some 0 else None)"
| "str_Index (c # s) p =
     (if HasPrefix (c # s) p then Some 0 else map_option Suc (str_Index s p))"

fun str_LastIndex :: "string \<Rightarrow> string \<Rightarrow> nat option" where
  "str_LastIndex [] p = (if p = [] then Some 0 else None)"
| "str_LastIndex (c # s) p =
     (case str_LastIndex s p of
        Some i \<Rightarrow> Some (Suc i)
      | None \<Rightarrow> if HasPrefix (c # s) p then Some 0 else None)"

definition str_Contains :: "string \<Rightarrow> string \<Rightarrow> bool" where
  "str_Contains s p = (str_Index s p \<noteq> None)"

definition str_Cut :: "string \<Rightarrow> string \<Rightarrow> string \<times> string \<times> bool" where
  "str_Cut s sep =
     (case str_Index s sep of
        None \<Rightarrow> (s, '''', False)
      | Some i \<Rightarrow> (take i s, drop (i + length sep) s, True))"

definition str_CutLast :: "string \<Rightarrow> string \<Rightarrow> string \<times> string \<times> bool" where
  "str_CutLast s sep =
     (case str_LastIndex s sep of
        None \<Rightarrow> (s, '''', False)
      | Some i \<Rightarrow> (take i s, drop (i + length sep) s, True))"

definition CutPrefix :: "string \<Rightarrow> string \<Rightarrow> string \<times> bool" where
  "CutPrefix s p = (if HasPrefix s p then (drop (length p) s, True) else (s, False))"

text \<open>\<^verbatim>\<open>bytes.Lines\<close>: every line with its newline, the last one possibly without.\<close>

definition NL :: char where "NL = CHR 0x0A"

fun lines_from :: "string \<Rightarrow> string \<Rightarrow> string list" where
  "lines_from acc [] = (if acc = [] then [] else [acc])"
| "lines_from acc (c # s) =
     (if c = NL then (acc @ [c]) # lines_from [] s else lines_from (acc @ [c]) s)"

definition bytes_Lines :: "string \<Rightarrow> string list" where
  "bytes_Lines s = lines_from [] s"

fun str_Join :: "string list \<Rightarrow> string \<Rightarrow> string" where
  "str_Join [] sep = ''''"
| "str_Join [x] sep = x"
| "str_Join (x # y # xs) sep = x @ sep @ str_Join (y # xs) sep"

section \<open>Runes\<close>

definition unicode_IsSpace :: "rune \<Rightarrow> bool" where
  "unicode_IsSpace r =
     ((9 \<le> r \<and> r \<le> 13) \<or> r = 32 \<or> r = 133 \<or> r = 160 \<or> r = 5760 \<or> (8192 \<le> r \<and> r \<le> 8202)
      \<or> r = 8232 \<or> r = 8233 \<or> r = 8239 \<or> r = 8287 \<or> r = 12288)"

definition unicode_IsControl :: "rune \<Rightarrow> bool" where
  "unicode_IsControl r = (r < 32 \<or> (127 \<le> r \<and> r < 160))"

text \<open>\<^verbatim>\<open>for _, r := range s\<close>: the runes of a string, an invalid byte giving \<^verbatim>\<open>RuneError\<close>.\<close>

function string_runes :: "bytes \<Rightarrow> rune list" where
  "string_runes p =
     (if p = [] then []
      else (case utf8_DecodeRune p of (r, sz) \<Rightarrow> r # string_runes (drop sz p)))"
  by pat_completeness auto
termination
proof (relation "measure length", simp, clarsimp)
  fix p and r sz :: nat
  assume "(r, sz) = utf8_DecodeRune p" "p \<noteq> []"
  with utf8_DecodeRune_pos [of p] show "length p - sz < length p"
    by (metis diff_less length_greater_0_conv snd_conv)
qed

declare string_runes.simps [simp del]

definition ContainsFunc :: "string \<Rightarrow> (rune \<Rightarrow> bool) \<Rightarrow> bool" where
  "ContainsFunc s f = list_ex f (string_runes (string_bytes s))"

definition utf8_RuneStart :: "char \<Rightarrow> bool" where
  "utf8_RuneStart c = (\<not> (128 \<le> (of_char c :: nat) \<and> (of_char c :: nat) < 192))"

text \<open>
  \<^verbatim>\<open>utf8.DecodeLastRune\<close>: \<open>last_start\<close> walks back from the last byte over at most \<open>k\<close> more to one
  that can start a rune; a sequence that does not end with the text is an error of width one.
\<close>

fun last_start :: "string \<Rightarrow> nat \<Rightarrow> nat \<Rightarrow> nat" where
  "last_start s i 0 = i"
| "last_start s i (Suc k) =
     (if i = 0 then 0
      else if utf8_RuneStart (s ! (i - 1)) then i - 1 else last_start s (i - 1) k)"

definition DecodeLastRune :: "string \<Rightarrow> rune \<times> nat" where
  "DecodeLastRune s =
     (if s = [] then (RuneError, 0)
      else let n = length s - 1 in
        if (of_char (s ! n) :: nat) < 128 then (of_char (s ! n), 1)
        else let start = last_start s n (UTFMax - 1);
                 d = utf8_DecodeRune (string_bytes (drop start s))
             in if start + snd d \<noteq> length s then (RuneError, 1) else d)"

function TrimLeftSpace :: "string \<Rightarrow> string" where
  "TrimLeftSpace s =
     (if s = [] then []
      else (case utf8_DecodeRune (string_bytes s) of
              (r, sz) \<Rightarrow> if unicode_IsSpace r then TrimLeftSpace (drop sz s) else s))"
  by pat_completeness auto
termination
proof (relation "measure length", simp, clarsimp)
  fix s and r sz :: nat
  assume "(r, sz) = utf8_DecodeRune (string_bytes s)" "s \<noteq> []"
  with utf8_DecodeRune_pos [of "string_bytes s"] show "length s - sz < length s"
    by (metis diff_less length_greater_0_conv snd_conv string_bytes_def map_is_Nil_conv)
qed

lemma last_start_le: "last_start s i k \<le> i"
  by (induction s i k rule: last_start.induct) auto

lemma DecodeLastRune_pos: "s \<noteq> [] \<Longrightarrow> 0 < snd (DecodeLastRune s)"
proof -
  assume s: "s \<noteq> []"
  define start where "start = last_start s (length s - 1) (UTFMax - 1)"
  have "start < length s"
    using s last_start_le [of s "length s - 1" "UTFMax - 1"] unfolding start_def
    by (metis diff_less le_less_trans length_greater_0_conv less_one)
  with s show ?thesis
    unfolding DecodeLastRune_def Let_def start_def [symmetric] by auto
qed

function TrimRightSpace :: "string \<Rightarrow> string" where
  "TrimRightSpace s =
     (if s = [] then []
      else (case DecodeLastRune s of
              (r, sz) \<Rightarrow> if unicode_IsSpace r then TrimRightSpace (take (length s - sz) s) else s))"
  by pat_completeness auto
termination
proof (relation "measure length", simp, clarsimp)
  fix s and r sz :: nat
  assume "(r, sz) = DecodeLastRune s" "s \<noteq> []"
  with DecodeLastRune_pos [of s] show "length s - sz < length s"
    by (metis diff_less length_greater_0_conv snd_conv)
qed

declare TrimLeftSpace.simps [simp del] TrimRightSpace.simps [simp del]

definition TrimSpace :: "string \<Rightarrow> string" where
  "TrimSpace s = TrimRightSpace (TrimLeftSpace s)"

section \<open>Prefixes and occurrences\<close>

lemma HasPrefix_append: "HasPrefix s p \<longleftrightarrow> (\<exists>r. s = p @ r)"
  by (metis HasPrefix_def append_eq_conv_conj append_take_drop_id)

lemma HasPrefix_single [simp]: "HasPrefix s [c] \<longleftrightarrow> s \<noteq> [] \<and> hd s = c"
  by (cases s) (auto simp: HasPrefix_def)

lemma HasSuffix_single [simp]: "HasSuffix s [c] \<longleftrightarrow> s \<noteq> [] \<and> last s = c"
  by (cases s rule: rev_cases) (auto simp: HasSuffix_def)

lemma ContainsAny_iff: "ContainsAny s chars \<longleftrightarrow> (\<exists>c \<in> set s. c \<in> set chars)"
  by (simp add: ContainsAny_def list_ex_iff)

text \<open>\<^verbatim>\<open>Index\<close> is the first place where the pattern occurs.\<close>

lemma str_Index_Some:
  "str_Index s p = Some i \<longleftrightarrow>
     (HasPrefix (drop i s) p \<and> i \<le> length s \<and> (\<forall>j < i. \<not> HasPrefix (drop j s) p))"
proof (induction s arbitrary: i)
  case Nil
  then show ?case by (auto simp: HasPrefix_def)
next
  case (Cons c s)
  show ?case
  proof (cases i)
    case 0
    then show ?thesis by auto
  next
    case (Suc k)
    have all: "(\<forall>j < Suc k. \<not> HasPrefix (drop j (c # s)) p) \<longleftrightarrow>
        \<not> HasPrefix (c # s) p \<and> (\<forall>j < k. \<not> HasPrefix (drop j s) p)"
      by (simp only: All_less_Suc2) simp
    show ?thesis unfolding Suc all using Cons.IH [of k] by auto
  qed
qed

lemma str_Index_None: "str_Index s p = None \<longleftrightarrow> (\<forall>a b. s \<noteq> a @ p @ b)"
proof (induction s)
  case Nil
  then show ?case by auto
next
  case (Cons c s)
  have "(\<exists>a b. c # s = a @ p @ b) \<longleftrightarrow> HasPrefix (c # s) p \<or> (\<exists>a b. s = a @ p @ b)"
    by (auto simp: HasPrefix_append Cons_eq_append_conv)
  with Cons.IH show ?case by auto
qed

lemma str_Contains_sublist: "str_Contains s p \<longleftrightarrow> sublist p s"
  using str_Index_None [of s p] by (auto simp: str_Contains_def sublist_def)

lemma str_Index_single_append:
  "c \<notin> set a \<Longrightarrow> str_Index (a @ c # b) [c] = Some (length a)"
  by (induction a) auto

lemma str_Index_single_None: "str_Index s [c] = None \<longleftrightarrow> c \<notin> set s"
  by (induction s) auto

lemma str_Cut_single: "c \<notin> set a \<Longrightarrow> str_Cut (a @ c # b) [c] = (a, b, True)"
  by (simp add: str_Cut_def str_Index_single_append)

lemma str_Cut_single_absent: "c \<notin> set s \<Longrightarrow> str_Cut s [c] = (s, '''', False)"
  using str_Index_single_None [of s c] by (simp add: str_Cut_def)

lemma str_LastIndex_single_None: "str_LastIndex s [c] = None \<longleftrightarrow> c \<notin> set s"
  by (induction s) (auto split: option.splits)

lemma str_LastIndex_single_append:
  "c \<notin> set b \<Longrightarrow> str_LastIndex (a @ c # b) [c] = Some (length a)"
  using str_LastIndex_single_None [of b c] by (induction a) auto

lemma str_CutLast_single: "c \<notin> set b \<Longrightarrow> str_CutLast (a @ c # b) [c] = (a, b, True)"
  by (simp add: str_CutLast_def str_LastIndex_single_append)

lemma str_CutLast_single_absent: "c \<notin> set s \<Longrightarrow> str_CutLast s [c] = (s, '''', False)"
  using str_LastIndex_single_None [of s c] by (simp add: str_CutLast_def)

text \<open>The text before the first occurrence holds no occurrence.\<close>

lemma str_Cut_before: "str_Cut s sep = (a, b, True) \<Longrightarrow> s = a @ sep @ b"
  by (auto simp: str_Cut_def str_Index_Some HasPrefix_def split: option.splits)
    (metis append_take_drop_id add.commute drop_drop)

section \<open>Runes of ASCII bytes\<close>

text \<open>Bytes below 128 never hide inside a multi-byte sequence.\<close>

lemma utf8_DecodeRune_multibyte:
  assumes "utf8_DecodeRune p = (r, sz)" and "1 < sz"
  shows "\<forall>b \<in> set (take sz p). 128 \<le> unat b"
proof -
  obtain b0 q where p: "p = b0 # q" using assms by (cases p) (auto simp: utf8_DecodeRune_def)
  obtain n lo hi where f: "utf8_first b0 = (n, lo, hi)" by (cases "utf8_first b0")
  have lo: "n \<noteq> 1 \<Longrightarrow> 128 \<le> lo \<and> 128 \<le> unat b0"
    using f by (auto simp: utf8_first_def Let_def split: if_splits)
  have n1: "n \<noteq> 1" and n: "n = sz" "sz \<le> length p" and q0: "in_range lo hi (q ! 0)"
    and q1: "2 < sz \<Longrightarrow> in_range 128 191 (q ! 1)" and q2: "3 < sz \<Longrightarrow> in_range 128 191 (q ! 2)"
    using assms utf8_first_cases [OF f] unfolding p utf8_DecodeRune_def
    by (auto simp: f Suc_le_eq split: if_splits)
  have sz: "sz \<in> {2, 3, 4}" using utf8_first_cases [OF f] n1 n(1) by auto
  have "128 \<le> unat (p ! i)" if "i < sz" for i
  proof -
    from that sz have "i = 0 \<or> i = 1 \<or> (i = 2 \<and> 2 < sz) \<or> (i = 3 \<and> 3 < sz)" by auto
    with lo [OF n1] q0 q1 q2 show ?thesis by (auto simp: p in_range_def nth_Cons')
  qed
  with n(2) show ?thesis by (auto simp: in_set_conv_nth)
qed

lemma string_runes_step:
  "p \<noteq> [] \<Longrightarrow> utf8_DecodeRune p = (r, sz) \<Longrightarrow> string_runes p = r # string_runes (drop sz p)"
  by (simp add: string_runes.simps)

lemma utf8_DecodeRune_ascii: "unat b < 128 \<Longrightarrow> utf8_DecodeRune (b # p) = (unat b, 1)"
  by (simp add: utf8_DecodeRune_def utf8_first_def)

lemma ascii_in_runes: "b \<in> set p \<Longrightarrow> unat b < 128 \<Longrightarrow> unat b \<in> set (string_runes p)"
proof (induction "length p" arbitrary: p rule: less_induct)
  case less
  then obtain c q where p: "p = c # q" by (cases p) auto
  obtain r sz where d: "utf8_DecodeRune p = (r, sz)" by (cases "utf8_DecodeRune p")
  have sz: "0 < sz" using utf8_DecodeRune_pos [of p] d p by simp
  have runes: "string_runes p = r # string_runes (drop sz p)"
    using d p by (intro string_runes_step) simp_all
  have "b \<in> set (take sz p) \<or> b \<in> set (drop sz p)"
    using less.prems(1) by (metis Un_iff append_take_drop_id set_append)
  then show ?case
  proof
    assume b: "b \<in> set (take sz p)"
    with utf8_DecodeRune_multibyte [OF d] less.prems(2) sz have "sz = 1" by fastforce
    with b p have "b = c" by simp
    with d p less.prems(2) runes show ?thesis by (simp add: utf8_DecodeRune_ascii)
  next
    assume b: "b \<in> set (drop sz p)"
    with less.hyps [of "drop sz p"] sz p less.prems(2) runes show ?thesis by simp
  qed
qed

text \<open>So a string whose runes all fail a test has no ASCII byte that passes it.\<close>

lemma unat_of_char_byte [simp]: "unat (of_char c :: byte) = of_char c"
proof -
  have "(of_char c :: byte) = of_nat (of_char c)" by (simp add: of_nat_of_char)
  then show ?thesis by (simp add: unat_of_nat take_bit_eq_mod)
qed

lemma ContainsFunc_ascii:
  assumes "\<not> ContainsFunc s f" and "c \<in> set s" and "(of_char c :: nat) < 128"
  shows "\<not> f (of_char c)"
proof -
  have "of_char c \<in> set (string_bytes s)" using assms(2) by (simp add: string_bytes_def)
  from ascii_in_runes [OF this] assms show ?thesis
    by (auto simp: ContainsFunc_def list_ex_iff)
qed

section \<open>Trimming\<close>

lemma TrimLeftSpace_suffix: "suffix (TrimLeftSpace s) s"
proof (induction s rule: TrimLeftSpace.induct)
  case (1 s)
  then show ?case
    by (subst TrimLeftSpace.simps) (auto split: prod.splits intro: suffix_order.trans suffix_drop)
qed

lemma TrimRightSpace_prefix: "prefix (TrimRightSpace s) s"
proof (induction s rule: TrimRightSpace.induct)
  case (1 s)
  then show ?case
    by (subst TrimRightSpace.simps) (auto split: prod.splits intro: prefix_order.trans take_is_prefix)
qed

lemma TrimSpace_sublist: "sublist (TrimSpace s) s"
  unfolding TrimSpace_def
  by (meson TrimLeftSpace_suffix TrimRightSpace_prefix prefix_imp_sublist sublist_order.order.trans
      suffix_imp_sublist)

end
