(* ===== verification/ET_Bootstrap.thy ===== *)
theory ET_Bootstrap
  imports ET_Strings
begin

text \<open>
  Package \<^verbatim>\<open>internal/bootstrap\<close>: the configuration and its validation, the remote command and the ssh
  argument list (command.go), the credentials and their renderings (credentials.go), the parser of
  etterminal's output (parse.go), the placeholder credentials (placeholder.go), and \<^verbatim>\<open>Run\<close> with the
  captured output and the failure report (bootstrap.go, signal_unix.go, signal_other.go).

  What the package calls outside the repository (\<^verbatim>\<open>crypto/rand\<close>, \<^verbatim>\<open>os/exec\<close>, the context) is a record
  of outcomes. \<open>quote\<close> is \<^verbatim>\<open>%q\<close>, \<open>json_string\<close> the encoder of one JSON string.
\<close>

section \<open>Configuration (bootstrap.go, command.go)\<close>

record Config =
  Destination :: string
  User :: string
  TerminalPath :: string
  Term :: string
  SSHOptions :: "string list"
  SSH :: string

definition defaultTerm :: string where "defaultTerm = ''xterm-256color''"
definition defaultTerminalPath :: string where "defaultTerminalPath = ''etterminal''"
definition termExtra :: string where "termExtra = ''.+-''"
definition terminalPathExtra :: string where "terminalPathExtra = ''._/~-''"

definition shellMeta :: string where
  "shellMeta = [CHR 0x27, CHR 0x60, CHR 0x22] @ ''$'' @ [CHR 0x5C] @ '';&<>|(){}*?[]''"

definition userMeta :: string where
  "userMeta = [CHR 0x27, CHR 0x60, CHR 0x22] @ '';&<>|(){}''"

definition isAlnum :: "char \<Rightarrow> bool" where
  "isAlnum c =
     (let n = of_char c :: nat in (48 \<le> n \<and> n \<le> 57) \<or> (97 \<le> n \<and> n \<le> 122) \<or> (65 \<le> n \<and> n \<le> 90))"

definition alnumRun :: "string \<Rightarrow> string" where
  "alnumRun b = takeWhile isAlnum b"

definition onlyAlnumOr :: "string \<Rightarrow> string \<Rightarrow> bool" where
  "onlyAlnumOr s extra = (s \<noteq> [] \<and> list_all (\<lambda>c. isAlnum c \<or> c \<in> set extra) s)"

definition hasSpaceOrControl :: "string \<Rightarrow> bool" where
  "hasSpaceOrControl s = ContainsFunc s (\<lambda>r. unicode_IsSpace r \<or> unicode_IsControl r)"

definition hasControl :: "string \<Rightarrow> bool" where
  "hasControl s = ContainsFunc s unicode_IsControl"

definition applyDefaults :: "Config \<Rightarrow> Config" where
  "applyDefaults cfg =
     (let cfg = (if Term cfg = '''' then cfg\<lparr>Term := defaultTerm\<rparr> else cfg)
      in if TerminalPath cfg = '''' then cfg\<lparr>TerminalPath := defaultTerminalPath\<rparr> else cfg)"

definition invalid :: "string \<Rightarrow> go_error option" where
  "invalid msg = Some (Wrap msg [ErrInvalidConfig])"

fun validate_options :: "string list \<Rightarrow> go_error option" where
  "validate_options [] = None"
| "validate_options (opt # opts) =
     (if opt = '''' \<or> hasControl opt then invalid ''ssh option is empty or contains control characters''
      else validate_options opts)"

definition validate :: "Config \<Rightarrow> go_error option" where
  "validate cfg =
     (if Destination cfg = '''' then invalid ''destination is empty''
      else if HasPrefix (Destination cfg) ''-'' then invalid ''destination starts with -''
      else if hasSpaceOrControl (Destination cfg)
        then invalid ''destination contains whitespace or control characters''
      else if ContainsAny (Destination cfg) shellMeta
        then invalid ''destination contains a shell metacharacter''
      else if HasPrefix (User cfg) ''-'' \<or> hasSpaceOrControl (User cfg)
        then invalid ''user is not a valid user name''
      else if ContainsAny (User cfg) userMeta then invalid ''user contains a shell metacharacter''
      else if HasSuffix (User cfg) [CHR 0x5C] then invalid ''user ends in a backslash''
      else if User cfg \<noteq> '''' \<and> CHR ''@'' \<in> set (Destination cfg)
        then invalid ''user given but destination already names a user''
      else if \<not> onlyAlnumOr (Term cfg) termExtra then invalid ''TERM''
      else if \<not> onlyAlnumOr (TerminalPath cfg) terminalPathExtra then invalid ''terminal path''
      else validate_options (SSHOptions cfg))"

definition remoteCommand :: "string \<Rightarrow> string \<Rightarrow> string \<Rightarrow> string \<Rightarrow> string" where
  "remoteCommand idt passkey trm terminalPath =
     ''echo '' @ [CHR 0x27] @ idt @ ''/'' @ passkey @ ''_'' @ trm @ [CHR 0x27] @ '' | '' @ terminalPath
       @ '' --verbose=0''"

definition sshArgs :: "Config \<Rightarrow> string \<Rightarrow> string list" where
  "sshArgs cfg remote =
     map (\<lambda>opt. ''-o'' @ opt) (SSHOptions cfg)
       @ (if User cfg \<noteq> '''' then [''-l'', User cfg] else [])
       @ [''--'', Destination cfg, remote]"

section \<open>Credentials (credentials.go)\<close>

text \<open>The passkey sits behind a pointer; \<open>None\<close> is the nil of the zero value.\<close>

record Credentials =
  ID :: string
  passkey :: "string option"

definition redacted :: string where "redacted = ''REDACTED''"

definition NewCredentials :: "string \<Rightarrow> string \<Rightarrow> Credentials" where
  "NewCredentials idt pk = \<lparr>ID = idt, passkey = Some pk\<rparr>"

definition Passkey :: "Credentials \<Rightarrow> string" where
  "Passkey c = (case passkey c of None \<Rightarrow> '''' | Some pk \<Rightarrow> pk)"

definition Credentials_String :: "Credentials \<Rightarrow> string" where
  "Credentials_String c = ''{ID:'' @ ID c @ '' Passkey:'' @ redacted @ ''}''"

definition Credentials_Format :: "(string \<Rightarrow> string) \<Rightarrow> Credentials \<Rightarrow> char \<Rightarrow> bool \<Rightarrow> string" where
  "Credentials_Format quote c verb sharp =
     (if verb = CHR ''v'' \<and> sharp
      then ''bootstrap.Credentials{ID:'' @ quote (ID c) @ '', Passkey:'' @ quote redacted @ ''}''
      else Credentials_String c)"

definition dq :: string where "dq = [CHR 0x22]"

definition Credentials_MarshalJSON :: "(string \<Rightarrow> string) \<Rightarrow> Credentials \<Rightarrow> string" where
  "Credentials_MarshalJSON json_string c =
     ''{'' @ dq @ ''id'' @ dq @ '':'' @ json_string (ID c) @ '','' @ dq @ ''passkey'' @ dq @ '':''
       @ json_string redacted @ ''}''"

definition Credentials_MarshalText :: "Credentials \<Rightarrow> string" where
  "Credentials_MarshalText c = Credentials_String c"

definition Credentials_LogValue :: "Credentials \<Rightarrow> slog_group" where
  "Credentials_LogValue c = [(''id'', SlogString (ID c)), (''passkey'', SlogString redacted)]"

section \<open>Parsing etterminal's output (parse.go, placeholder.go)\<close>

definition idLen :: nat where "idLen = 16"
definition passkeyLen :: nat where "passkeyLen = 32"
definition regeneratePrefix :: string where "regeneratePrefix = ''XXX''"
definition marker :: string where "marker = ''IDPASSKEY:''"

definition parseCredentials :: "string \<Rightarrow> Credentials result" where
  "parseCredentials out =
     (case str_Cut out marker of (_, rest, found) \<Rightarrow>
        if \<not> found then Inl ErrNoCredentials
        else let idt = alnumRun rest; n = length idt in
          if n \<noteq> idLen \<or> length rest = n \<or> rest ! n \<noteq> CHR ''/''
          then Inl (Wrap ''malformed id'' [ErrNoCredentials])
          else let pk = alnumRun (drop (n + 1) rest) in
            if length pk \<noteq> passkeyLen then Inl (Wrap ''malformed passkey'' [ErrNoCredentials])
            else Inr (NewCredentials idt pk))"

text \<open>The three texts are the results of the three \<^verbatim>\<open>rand.Text()\<close> calls.\<close>

definition placeholder :: "string \<Rightarrow> string \<Rightarrow> string \<Rightarrow> string \<times> string" where
  "placeholder t1 t2 t3 =
     (regeneratePrefix @ take (idLen - length regeneratePrefix) t1, take passkeyLen (t2 @ t3))"

section \<open>Captured output and the failure report (bootstrap.go)\<close>

definition maxOutput :: nat where "maxOutput = 1048576"
definition excerptLen :: nat where "excerptLen = 512"
definition minPiece :: nat where "minPiece = 4"

definition withheldOutput :: string where
  "withheldOutput = ''[withheld: the output contains part of the generated session key]''"

record cappedBuffer =
  cb_buf :: string
  cb_max :: int
  cb_dropped :: int

definition new_cappedBuffer :: cappedBuffer where
  "new_cappedBuffer = \<lparr>cb_buf = '''', cb_max = int maxOutput, cb_dropped = 0\<rparr>"

definition cappedBuffer_Write :: "cappedBuffer \<Rightarrow> string \<Rightarrow> cappedBuffer \<times> nat \<times> go_error option" where
  "cappedBuffer_Write c p =
     (let kept = min (length p) (nat (max (cb_max c - int (length (cb_buf c))) 0))
      in (c\<lparr>cb_buf := cb_buf c @ take kept p,
            cb_dropped := cb_dropped c + (int (length p) - int kept)\<rparr>, length p, None))"

text \<open>The loop over the pieces from \<open>i\<close> on; \<open>n\<close> is the number of pieces left.\<close>

fun containsPiece_loop :: "string \<Rightarrow> string \<Rightarrow> nat \<Rightarrow> nat \<Rightarrow> bool" where
  "containsPiece_loop out secret i 0 = False"
| "containsPiece_loop out secret i (Suc n) =
     (if str_Contains out (go_slice secret i (i + minPiece)) then True
      else containsPiece_loop out secret (Suc i) n)"

definition containsPiece :: "string \<Rightarrow> string \<Rightarrow> bool" where
  "containsPiece out secret = containsPiece_loop out secret 0 (length secret + 1 - minPiece)"

definition excerpt :: "string \<Rightarrow> string" where
  "excerpt out =
     (case str_Cut out marker of (before, _, _) \<Rightarrow>
        let b = TrimSpace before in
        if length b \<le> excerptLen then b
        else ''...'' @ dropWhile (\<lambda>c. \<not> utf8_RuneStart c) (drop (length b - excerptLen) b))"

text \<open>signal_unix.go; signal_other.go returns no signal on the other systems.\<close>

definition killedBy :: "bool \<Rightarrow> int \<times> (int \<times> string) option \<Rightarrow> string \<times> bool" where
  "killedBy on_unix ee =
     (case snd ee of
        Some (n, descr) \<Rightarrow> if on_unix then (itoa n @ '' ('' @ descr @ '')'', True) else ('''', False)
      | None \<Rightarrow> ('''', False))"

definition failure_text ::
  "bool \<Rightarrow> (string \<Rightarrow> string) \<Rightarrow> (int \<times> (int \<times> string) option) option \<Rightarrow> string \<Rightarrow> bool \<Rightarrow> string" where
  "failure_text on_unix quote exitErr out overflowed =
     (let code = (case exitErr of None \<Rightarrow> 0 | Some ee \<Rightarrow> fst ee);
          (sg, killed) = (case exitErr of None \<Rightarrow> ('''', False) | Some ee \<Rightarrow> killedBy on_unix ee);
          ex = excerpt out
      in ''ssh ''
         @ (if killed then ''was killed by signal '' @ sg else ''exited with status '' @ itoa code)
         @ (if code = 127 then '': etterminal was not found on the server; install Eternal Terminal there or pass --terminal-path''
            else if code = 255 then '': ssh could not connect or authenticate; check that plain ssh to this host works''
            else '''')
         @ (if overflowed
            then ''; output exceeded '' @ itoa (int (maxOutput div 1048576)) @ '' MiB; the credentials may have been cut off''
            else '''')
         @ (if ex \<noteq> '''' then ''; output: '' @ quote ex else ''''))"

definition describeFailure ::
  "bool \<Rightarrow> (string \<Rightarrow> string) \<Rightarrow> (int \<times> (int \<times> string) option) option \<Rightarrow> go_error option
     \<Rightarrow> string \<Rightarrow> bool \<Rightarrow> go_error" where
  "describeFailure on_unix quote exitErr parseErr out overflowed =
     Wrap (failure_text on_unix quote exitErr out overflowed)
       (case parseErr of None \<Rightarrow> [] | Some e \<Rightarrow> [e])"

section \<open>Run (bootstrap.go)\<close>

text \<open>
  \<^verbatim>\<open>cmd.Cancel\<close>: what it does to the ssh process, given how \<^verbatim>\<open>Signal\<close> and \<^verbatim>\<open>Kill\<close> turn out.
\<close>

datatype process_action = Signal_Interrupt | Process_Kill

definition cmd_Cancel ::
  "go_error option \<Rightarrow> go_error option \<Rightarrow> process_action list \<times> go_error option" where
  "cmd_Cancel sigErr killErr =
     (case sigErr of
        Some _ \<Rightarrow> ([Signal_Interrupt, Process_Kill], killErr)
      | None \<Rightarrow> ([Signal_Interrupt], None))"

text \<open>
  The world \<^verbatim>\<open>Run\<close> sees: \<^verbatim>\<open>exec.LookPath("ssh")\<close>, the random texts, what the ssh command writes to
  its stdout (one string per write) and how \<^verbatim>\<open>cmd.Run\<close> ends, and the context, whose \<^verbatim>\<open>Err\<close> is read
  twice. The result carries the commands that were run and the credentials a warning was logged for.
\<close>

record bootstrap_env =
  be_unix :: bool
  be_quote :: "string \<Rightarrow> string"
  be_LookPath :: "string result"
  be_texts :: "string \<times> string \<times> string"
  be_ssh :: "string \<Rightarrow> string list \<Rightarrow> string list \<times> go_error option"
  be_ctxErr1 :: "go_error option"
  be_ctxErr2 :: "go_error option"
  be_cause :: go_error

record run_effects =
  re_commands :: "(string \<times> string list) list"
  re_warned :: "slog_group list"

definition no_effects :: run_effects where
  "no_effects = \<lparr>re_commands = [], re_warned = []\<rparr>"

definition capture :: "string list \<Rightarrow> cappedBuffer" where
  "capture writes = foldl (\<lambda>c p. fst (cappedBuffer_Write c p)) new_cappedBuffer writes"

definition ssh_path :: "bootstrap_env \<Rightarrow> Config \<Rightarrow> string result" where
  "ssh_path e cfg =
     (if SSH cfg = '''' then
        (case be_LookPath e of
           Inl err \<Rightarrow> Inl (Wrap ''bootstrap: ssh not found on PATH (install OpenSSH)'' [err])
         | Inr p \<Rightarrow> Inr p)
      else Inr (SSH cfg))"

text \<open>The output a failure may quote: none of it when it holds a piece of the generated passkey.\<close>

definition shown :: "string \<Rightarrow> string \<Rightarrow> string" where
  "shown out pk = (if containsPiece out pk then withheldOutput else out)"

text \<open>What \<^verbatim>\<open>Run\<close> makes of the finished command.\<close>

definition run_failure ::
  "bootstrap_env \<Rightarrow> string \<Rightarrow> cappedBuffer \<Rightarrow> go_error option \<Rightarrow> go_error option \<Rightarrow> go_error" where
  "run_failure e pk out runErr parseErr =
     (case be_ctxErr2 e of
        Some ctxErr \<Rightarrow>
          (if errors_Is (be_cause e) ctxErr then Wrap ''bootstrap: ssh interrupted'' [be_cause e]
           else Wrap ''bootstrap: ssh interrupted'' [ctxErr, be_cause e])
      | None \<Rightarrow>
          (let exitErr = (case runErr of None \<Rightarrow> None | Some err \<Rightarrow> errors_AsExec err);
               report = describeFailure (be_unix e) (be_quote e) exitErr parseErr
                          (shown (cb_buf out) pk) (0 < cb_dropped out)
           in case runErr of
                None \<Rightarrow> report
              | Some err \<Rightarrow>
                  (if exitErr = None \<and> \<not> errors_Is err ErrWaitDelay
                   then Wrap ''bootstrap: run ssh'' [err] else report)))"

definition run_outcome ::
  "bootstrap_env \<Rightarrow> string \<times> string \<Rightarrow> cappedBuffer \<Rightarrow> go_error option
     \<Rightarrow> Credentials result \<times> slog_group list" where
  "run_outcome e ph out runErr =
     (case parseCredentials (cb_buf out) of
        Inr creds \<Rightarrow>
          (if be_ctxErr1 e = None
           then (Inr creds, if ID creds = fst ph then [Credentials_LogValue creds] else [])
           else (Inl (run_failure e (snd ph) out runErr None), []))
      | Inl parseErr \<Rightarrow> (Inl (run_failure e (snd ph) out runErr (Some parseErr)), []))"

definition bootstrap_Run :: "bootstrap_env \<Rightarrow> Config \<Rightarrow> Credentials result \<times> run_effects" where
  "bootstrap_Run e cfg0 =
     (let cfg = applyDefaults cfg0 in
      case validate cfg of
        Some err \<Rightarrow> (Inl err, no_effects)
      | None \<Rightarrow>
          (case ssh_path e cfg of
             Inl err \<Rightarrow> (Inl err, no_effects)
           | Inr sshPath \<Rightarrow>
               (case be_texts e of (t1, t2, t3) \<Rightarrow>
                  let ph = placeholder t1 t2 t3;
                      args = sshArgs cfg
                        (remoteCommand (fst ph) (snd ph) (Term cfg) (TerminalPath cfg));
                      (writes, runErr) = be_ssh e sshPath args;
                      (res, warned) = run_outcome e ph (capture writes) runErr
                  in (res, \<lparr>re_commands = [(sshPath, args)], re_warned = warned\<rparr>))))"

section \<open>What reads the command: ssh's options, a POSIX shell's words\<close>

text \<open>
  Reference readers for the two strings the package builds. \<open>ssh_getopt\<close> reads options up to
  \<^verbatim>\<open>--\<close> as \<^verbatim>\<open>getopt\<close> does for the options used: one with an attached value, one whose value is the
  next argument, and \<^verbatim>\<open>-G\<close>, which has none. \<open>sh_words\<close> splits a command line as POSIX token recognition does (XCU
  2.2.2, 2.3) for the characters that have no meaning to the shell, single quotes, blanks and \<^verbatim>\<open>|\<close>;
  any other character makes it give up.
\<close>

fun ssh_getopt :: "string list \<Rightarrow> (string list \<times> string option \<times> string list) option" where
  "ssh_getopt [] = None"
| "ssh_getopt (a # args) =
     (if a = ''--'' then Some ([], None, args)
      else if a = ''-G'' then ssh_getopt args
      else if HasPrefix a ''-o'' \<and> a \<noteq> ''-o'' then
        (case ssh_getopt args of
           None \<Rightarrow> None
         | Some (opts, user, rest) \<Rightarrow> Some (drop 2 a # opts, user, rest))
      else if a = ''-l'' then
        (case args of
           [] \<Rightarrow> None
         | u # args' \<Rightarrow>
             (case ssh_getopt args' of
                None \<Rightarrow> None
              | Some (opts, _, rest) \<Rightarrow> Some (opts, Some u, rest)))
      else None)"

definition sh_plain :: "char \<Rightarrow> bool" where
  "sh_plain c = (isAlnum c \<or> c \<in> set ''._/~-+='')"

text \<open>\<open>cur\<close> is the word being read, if any, \<open>q\<close> says whether a single quote is open.\<close>

fun sh_scan :: "string \<Rightarrow> string option \<Rightarrow> bool \<Rightarrow> string list \<Rightarrow> string list list option" where
  "sh_scan [] cur q ws =
     (if q then None else Some [ws @ (case cur of None \<Rightarrow> [] | Some w \<Rightarrow> [w])])"
| "sh_scan (c # s) cur q ws =
     (let w = (case cur of None \<Rightarrow> '''' | Some w \<Rightarrow> w);
          ended = ws @ (case cur of None \<Rightarrow> [] | Some w \<Rightarrow> [w])
      in if c = CHR 0x27 then sh_scan s (Some w) (\<not> q) ws
         else if q then sh_scan s (Some (w @ [c])) True ws
         else if c = CHR '' '' then sh_scan s None False ended
         else if c = CHR ''|'' then map_option ((#) ended) (sh_scan s None False [])
         else if sh_plain c then sh_scan s (Some (w @ [c])) False ws
         else None)"

definition sh_words :: "string \<Rightarrow> string list list option" where
  "sh_words s = sh_scan s None False []"

section \<open>Lemmas on the command\<close>

lemma sh_scan_plain:
  "list_all sh_plain t \<Longrightarrow> (\<forall>c \<in> set t. c \<noteq> CHR 0x27 \<and> c \<noteq> CHR '' '' \<and> c \<noteq> CHR ''|'') \<Longrightarrow>
     sh_scan (t @ s) (Some w) False ws = sh_scan s (Some (w @ t)) False ws"
  by (induction t arbitrary: w) (auto simp: Let_def)

lemma sh_scan_word:
  assumes "list_all sh_plain t" and "\<forall>c \<in> set t. c \<noteq> CHR 0x27 \<and> c \<noteq> CHR '' '' \<and> c \<noteq> CHR ''|''"
    and "t \<noteq> []"
  shows "sh_scan (t @ s) None False ws = sh_scan s (Some t) False ws"
proof -
  obtain c u where t: "t = c # u" using assms(3) by (cases t) auto
  with assms(1,2) have "sh_scan (t @ s) None False ws = sh_scan (u @ s) (Some [c]) False ws" by simp
  with assms(1,2) t show ?thesis by (simp add: sh_scan_plain)
qed

lemma sh_scan_quoted:
  "CHR 0x27 \<notin> set t \<Longrightarrow> sh_scan (t @ s) (Some w) True ws = sh_scan s (Some (w @ t)) True ws"
  by (induction t arbitrary: w) (auto simp: Let_def)

lemma sh_plain_not_special: "sh_plain c \<Longrightarrow> c \<noteq> CHR 0x27 \<and> c \<noteq> CHR '' '' \<and> c \<noteq> CHR ''|''"
  by (auto simp: sh_plain_def isAlnum_def)

text \<open>The remote command is two commands of two words each, whatever the validated values are.\<close>

lemma remoteCommand_words:
  assumes "list_all isAlnum idt" and "list_all isAlnum pk"
    and "onlyAlnumOr trm termExtra" and "onlyAlnumOr path terminalPathExtra"
  shows "sh_words (remoteCommand idt pk trm path) =
    Some [[''echo'', idt @ ''/'' @ pk @ ''_'' @ trm], [path, ''--verbose=0'']]"
proof -
  let ?line = "idt @ ''/'' @ pk @ ''_'' @ trm"
  have quote: "\<not> isAlnum (CHR 0x27)" "CHR 0x27 \<notin> set termExtra"
    by (simp_all add: isAlnum_def termExtra_def)
  with assms(1-3) have q: "CHR 0x27 \<notin> set ?line"
    unfolding onlyAlnumOr_def list_all_iff by fastforce
  have path: "list_all sh_plain path" "path \<noteq> []"
    using assms(4) by (auto simp: onlyAlnumOr_def terminalPathExtra_def list_all_iff sh_plain_def)
  have pipe: "\<forall>c \<in> set path. c \<noteq> CHR 0x27 \<and> c \<noteq> CHR '' '' \<and> c \<noteq> CHR ''|''"
    using path(1) sh_plain_not_special by (simp add: list_all_iff)
  have "sh_words (remoteCommand idt pk trm path) =
      sh_scan (?line @ [CHR 0x27] @ '' | '' @ path @ '' --verbose=0'') (Some '''') True [''echo'']"
    by (simp add: sh_words_def remoteCommand_def sh_plain_def isAlnum_def)
  also have "\<dots> = sh_scan ('' | '' @ path @ '' --verbose=0'') (Some ?line) False [''echo'']"
    using q by (subst sh_scan_quoted) simp_all
  also have "\<dots> = map_option ((#) [''echo'', ?line]) (sh_scan (path @ '' --verbose=0'') None False [])"
    by simp
  also have "sh_scan (path @ '' --verbose=0'') None False [] = Some [[path, ''--verbose=0'']]"
    using path pipe by (simp add: sh_scan_word sh_plain_def isAlnum_def)
  finally show ?thesis by simp
qed

lemma ssh_getopt_options:
  "list_all (\<lambda>opt. opt \<noteq> '''') opts \<Longrightarrow> ssh_getopt rest = Some ([], user, r) \<Longrightarrow>
     ssh_getopt (map (\<lambda>opt. ''-o'' @ opt) opts @ rest) = Some (opts, user, r)"
  by (induction opts) (auto simp: HasPrefix_def)

lemma sshArgs_getopt:
  assumes "list_all (\<lambda>opt. opt \<noteq> '''') (SSHOptions cfg)"
  shows "ssh_getopt (sshArgs cfg remote) =
    Some (SSHOptions cfg, if User cfg = '''' then None else Some (User cfg), [Destination cfg, remote])"
proof -
  have "ssh_getopt ((if User cfg \<noteq> '''' then [''-l'', User cfg] else []) @ [''--'', Destination cfg, remote])
      = Some ([], if User cfg = '''' then None else Some (User cfg), [Destination cfg, remote])"
    by (simp add: HasPrefix_def)
  from ssh_getopt_options [OF assms this] show ?thesis by (simp add: sshArgs_def)
qed

lemma validate_options_None: "validate_options opts = None \<Longrightarrow> list_all (\<lambda>opt. opt \<noteq> '''') opts"
  by (induction opts) (auto simp: invalid_def split: if_splits)

text \<open>What a validated configuration guarantees.\<close>

lemma validate_None:
  assumes "validate cfg = None"
  shows "Destination cfg \<noteq> ''''" and "hd (Destination cfg) \<noteq> CHR ''-''"
    and "\<not> hasSpaceOrControl (Destination cfg)" and "\<not> ContainsAny (Destination cfg) shellMeta"
    and "\<not> hasSpaceOrControl (User cfg)" and "\<not> ContainsAny (User cfg) userMeta"
    and "User cfg \<noteq> '''' \<Longrightarrow> CHR ''@'' \<notin> set (Destination cfg)"
    and "onlyAlnumOr (Term cfg) termExtra" and "onlyAlnumOr (TerminalPath cfg) terminalPathExtra"
    and "validate_options (SSHOptions cfg) = None"
  using assms by (auto simp: validate_def invalid_def split: if_splits)

lemma applyDefaults_fields [simp]:
  "Destination (applyDefaults cfg) = Destination cfg" "User (applyDefaults cfg) = User cfg"
  "SSHOptions (applyDefaults cfg) = SSHOptions cfg" "SSH (applyDefaults cfg) = SSH cfg"
  by (simp_all add: applyDefaults_def Let_def)

section \<open>Redaction\<close>

text \<open>No rendering of credentials depends on the passkey.\<close>

lemma Credentials_redacted:
  assumes "ID a = ID b"
  shows "Credentials_String a = Credentials_String b"
    and "Credentials_Format quote a verb sharp = Credentials_Format quote b verb sharp"
    and "Credentials_MarshalJSON json_string a = Credentials_MarshalJSON json_string b"
    and "Credentials_MarshalText a = Credentials_MarshalText b"
    and "Credentials_LogValue a = Credentials_LogValue b"
  using assms
  by (simp_all add: Credentials_String_def Credentials_Format_def Credentials_MarshalJSON_def
      Credentials_MarshalText_def Credentials_LogValue_def)

text \<open>So the same events are logged whatever the passkey: \<^verbatim>\<open>Run\<close>'s warning shows the id alone.\<close>

lemma run_outcome_warning:
  "g \<in> set (snd (run_outcome e ph out runErr)) \<Longrightarrow>
     g = [(''id'', SlogString (fst ph)), (''passkey'', SlogString redacted)]"
  by (auto simp: run_outcome_def Credentials_LogValue_def split: sum.splits if_splits)

section \<open>The placeholder\<close>

text \<open>What \<^verbatim>\<open>rand.Text\<close> documents: at least 26 characters of the base32 alphabet.\<close>

definition base32 :: "char \<Rightarrow> bool" where
  "base32 c = (let n = of_char c :: nat in (65 \<le> n \<and> n \<le> 90) \<or> (50 \<le> n \<and> n \<le> 55))"

definition rand_Text :: "string \<Rightarrow> bool" where
  "rand_Text t = (26 \<le> length t \<and> list_all base32 t)"

definition rand_laws :: "bootstrap_env \<Rightarrow> bool" where
  "rand_laws e = (case be_texts e of (t1, t2, t3) \<Rightarrow> rand_Text t1 \<and> rand_Text t2 \<and> rand_Text t3)"

lemma base32_isAlnum: "base32 c \<Longrightarrow> isAlnum c"
  by (auto simp: base32_def isAlnum_def Let_def)

lemma placeholder_ok:
  assumes "rand_Text t1" and "rand_Text t2" and "rand_Text t3"
  shows "length (fst (placeholder t1 t2 t3)) = idLen" and "list_all base32 (fst (placeholder t1 t2 t3))"
    and "take 3 (fst (placeholder t1 t2 t3)) = ''XXX''"
    and "length (snd (placeholder t1 t2 t3)) = passkeyLen" and "list_all base32 (snd (placeholder t1 t2 t3))"
  using assms
  by (auto simp: placeholder_def rand_Text_def regeneratePrefix_def idLen_def passkeyLen_def list_all_iff
      base32_def dest!: in_set_takeD)

lemma base32_alnum_list: "list_all base32 s \<Longrightarrow> list_all isAlnum s"
  by (auto simp: list_all_iff base32_isAlnum)

section \<open>Parsing\<close>

text \<open>A pattern whose first character occurs nowhere else in it cannot overlap itself.\<close>

lemma str_Index_marked:
  assumes m: "m = c # cs" "c \<notin> set cs" and pre: "\<not> sublist m pre"
  shows "str_Index (pre @ m @ r) m = Some (length pre)"
  unfolding str_Index_Some
proof (intro conjI allI impI)
  fix j assume j: "j < length pre"
  show "\<not> HasPrefix (drop j (pre @ m @ r)) m"
  proof
    assume "HasPrefix (drop j (pre @ m @ r)) m"
    then have occ: "take (length m) (drop j pre @ m @ r) = m" using j by (simp add: HasPrefix_def)
    show False
    proof (cases "length m \<le> length pre - j")
      case True
      with occ have "take (length m) (drop j pre) = m" by simp
      with pre show False by (metis sublist_order.order.trans sublist_drop sublist_take)
    next
      case False
      let ?k = "length pre - j"
      from False occ have "m ! ?k = (drop j pre @ m @ r) ! ?k" by (metis not_le nth_take)
      then have "m ! ?k = c" using m by (simp add: nth_append)
      moreover have "0 < ?k" "?k < length m" using j False by auto
      ultimately have "c \<in> set cs" using m by (auto simp: nth_Cons' split: if_splits intro: nth_mem)
      with m show False by simp
    qed
  qed
qed (simp_all add: HasPrefix_append)

lemma str_Index_before:
  assumes "str_Index s m = Some i" and "m \<noteq> []"
  shows "\<not> sublist m (take i s)"
proof
  assume "sublist m (take i s)"
  then obtain a b where ab: "take i s = a @ m @ b" by (auto simp: sublist_def)
  have len: "length a < i"
    using arg_cong [OF ab, of length] assms by (auto simp: str_Index_Some)
  have "s = a @ m @ b @ drop i s" using ab by (metis append_assoc append_take_drop_id)
  then have "HasPrefix (drop (length a) s) m" by (metis HasPrefix_append append_eq_conv_conj)
  with len assms(1) show False by (auto simp: str_Index_Some)
qed

lemma marker_split: "marker = CHR ''I'' # ''DPASSKEY:''" "CHR ''I'' \<notin> set ''DPASSKEY:''"
  by (simp_all add: marker_def)

lemma marker_Cut:
  "str_Cut out marker = (pre, rest, True) \<longleftrightarrow> out = pre @ marker @ rest \<and> \<not> sublist marker pre"
proof
  assume c: "str_Cut out marker = (pre, rest, True)"
  then obtain i where i: "str_Index out marker = Some i" "pre = take i out"
    by (auto simp: str_Cut_def split: option.splits)
  with str_Cut_before [OF c] str_Index_before [OF i(1)] show "out = pre @ marker @ rest \<and> \<not> sublist marker pre"
    by (simp add: marker_def)
next
  assume "out = pre @ marker @ rest \<and> \<not> sublist marker pre"
  with str_Index_marked [OF marker_split, of pre rest] show "str_Cut out marker = (pre, rest, True)"
    by (simp add: str_Cut_def)
qed

lemma alnumRun_append:
  "list_all isAlnum a \<Longrightarrow> b = [] \<or> \<not> isAlnum (hd b) \<Longrightarrow> alnumRun (a @ b) = a"
  by (cases b) (auto simp: alnumRun_def list_all_iff takeWhile_append takeWhile_eq_all_conv)

lemma alnumRun_split:
  "\<exists>tail. s = alnumRun s @ tail \<and> (tail = [] \<or> \<not> isAlnum (hd tail)) \<and> list_all isAlnum (alnumRun s)"
proof (intro exI conjI)
  show "s = alnumRun s @ dropWhile isAlnum s" by (simp add: alnumRun_def)
  show "dropWhile isAlnum s = [] \<or> \<not> isAlnum (hd (dropWhile isAlnum s))" using hd_dropWhile by blast
  show "list_all isAlnum (alnumRun s)" by (auto simp: alnumRun_def list_all_iff dest: set_takeWhileD)
qed

text \<open>The line etterminal prints, as the comment of \<^verbatim>\<open>parseCredentials\<close> describes it.\<close>

definition printed :: "string \<Rightarrow> string \<Rightarrow> string \<Rightarrow> string \<Rightarrow> string \<Rightarrow> bool" where
  "printed out pre idt pk tail =
     (out = pre @ marker @ idt @ ''/'' @ pk @ tail \<and> \<not> sublist marker pre
      \<and> length idt = idLen \<and> list_all isAlnum idt \<and> length pk = passkeyLen \<and> list_all isAlnum pk
      \<and> (tail = [] \<or> \<not> isAlnum (hd tail)))"

lemma parseCredentials_printed:
  assumes "printed out pre idt pk tail"
  shows "parseCredentials out = Inr (NewCredentials idt pk)"
proof -
  have slash: "\<not> isAlnum (CHR ''/'')" by (simp add: isAlnum_def)
  from assms have "str_Cut out marker = (pre, idt @ ''/'' @ pk @ tail, True)"
    by (simp add: marker_Cut printed_def)
  moreover have "alnumRun (idt @ ''/'' @ pk @ tail) = idt"
    using assms slash by (intro alnumRun_append) (auto simp: printed_def)
  moreover have "alnumRun (pk @ tail) = pk"
    using assms by (intro alnumRun_append) (auto simp: printed_def)
  moreover have "(idt @ ''/'' @ pk @ tail) ! idLen = CHR ''/''"
    using assms by (metis append_Cons nth_append_length printed_def)
  ultimately show ?thesis
    using assms by (simp add: parseCredentials_def printed_def Let_def)
qed

lemma parseCredentials_only:
  assumes "parseCredentials out = Inr c"
  shows "\<exists>pre idt pk tail. printed out pre idt pk tail \<and> c = NewCredentials idt pk"
proof -
  obtain pre rest found where cut: "str_Cut out marker = (pre, rest, found)" by (cases "str_Cut out marker")
  with assms have found by (auto simp: parseCredentials_def split: if_splits)
  with cut have out: "out = pre @ marker @ rest" "\<not> sublist marker pre" by (auto simp: marker_Cut)
  obtain t1 where t1: "rest = alnumRun rest @ t1" "t1 = [] \<or> \<not> isAlnum (hd t1)" "list_all isAlnum (alnumRun rest)"
    using alnumRun_split by blast
  let ?n = "length (alnumRun rest)"
  from assms cut \<open>found\<close> have n: "?n = idLen" "length rest \<noteq> ?n" "rest ! ?n = CHR ''/''"
    and pk: "length (alnumRun (drop (?n + 1) rest)) = passkeyLen"
    and c: "c = NewCredentials (alnumRun rest) (alnumRun (drop (?n + 1) rest))"
    by (auto simp: parseCredentials_def Let_def split: if_splits)
  have "t1 \<noteq> []" using n(2) t1(1) by (metis append_Nil2)
  then obtain u where t1': "t1 = CHR ''/'' # u"
    using n(3) t1(1) by (metis list.exhaust nth_append_length)
  then have u: "drop (?n + 1) rest = u" using t1(1) by (metis add.commute append_eq_conv_conj drop_drop drop_Suc_Cons drop0 plus_1_eq_Suc)
  obtain t2 where t2: "u = alnumRun u @ t2" "t2 = [] \<or> \<not> isAlnum (hd t2)" "list_all isAlnum (alnumRun u)"
    using alnumRun_split by blast
  have "printed out pre (alnumRun rest) (alnumRun u) t2"
    unfolding printed_def using out t1(1) t1' t2 n(1) pk t1(3) u
    by (metis append_Cons append_Nil)
  with c u show ?thesis by blast
qed

section \<open>Captured output\<close>

lemma capture_from:
  assumes "cb_max c = int m" and "cb_buf c = take m x" and "cb_dropped c = int (length x - m)"
  shows "cb_buf (foldl (\<lambda>c p. fst (cappedBuffer_Write c p)) c ws) = take m (x @ concat ws)
    \<and> cb_dropped (foldl (\<lambda>c p. fst (cappedBuffer_Write c p)) c ws) = int (length (x @ concat ws) - m)"
  using assms
proof (induction ws arbitrary: c x)
  case Nil
  then show ?case by simp
next
  case (Cons w ws)
  let ?c = "fst (cappedBuffer_Write c w)"
  have kept: "nat (int m - int k) = m - k" for k by simp
  have "cb_max ?c = int m" "cb_buf ?c = take m (x @ w)" "cb_dropped ?c = int (length (x @ w) - m)"
    using Cons.prems by (auto simp: cappedBuffer_Write_def Let_def min_def max_def kept)
  from Cons.IH [OF this] show ?case by simp
qed

lemma capture_eq:
  "cb_buf (capture ws) = take maxOutput (concat ws)"
  "cb_dropped (capture ws) = int (length (concat ws) - maxOutput)"
  using capture_from [of new_cappedBuffer maxOutput "[]" ws]
  by (simp_all add: capture_def new_cappedBuffer_def)

section \<open>Excerpts\<close>

lemma containsPiece_loop_iff:
  "containsPiece_loop out secret i n \<longleftrightarrow>
     (\<exists>j. i \<le> j \<and> j < i + n \<and> sublist (go_slice secret j (j + minPiece)) out)"
proof (induction n arbitrary: i)
  case 0
  then show ?case by simp
next
  case (Suc n)
  have "(\<exists>j. i \<le> j \<and> j < i + Suc n \<and> P j) \<longleftrightarrow> P i \<or> (\<exists>j. Suc i \<le> j \<and> j < Suc i + n \<and> P j)" for P
    by (metis Suc_leI add_Suc_shift le_add1 le_eq_less_or_eq le_less_trans less_add_Suc1 Suc_leD)
  with Suc.IH [of "Suc i"] show ?case by (simp add: str_Contains_sublist)
qed

text \<open>\<^verbatim>\<open>containsPiece\<close> finds exactly the outputs that hold a piece of the secret.\<close>

lemma containsPiece_iff:
  "containsPiece out secret \<longleftrightarrow>
     (\<exists>w. length w = minPiece \<and> sublist w secret \<and> sublist w out)"
proof -
  have "(\<exists>j < length secret + 1 - minPiece. sublist (go_slice secret j (j + minPiece)) out) \<longleftrightarrow>
      (\<exists>w. length w = minPiece \<and> sublist w secret \<and> sublist w out)" (is "?L \<longleftrightarrow> ?R")
  proof
    assume ?L
    then obtain j where j: "j < length secret + 1 - minPiece" "sublist (go_slice secret j (j + minPiece)) out"
      by blast
    then have "length (go_slice secret j (j + minPiece)) = minPiece" by (simp add: go_slice_def)
    moreover have "sublist (go_slice secret j (j + minPiece)) secret"
      unfolding go_slice_def by (meson sublist_drop sublist_order.order.trans sublist_take)
    ultimately show ?R using j by blast
  next
    assume ?R
    then obtain w a b where w: "length w = minPiece" "secret = a @ w @ b" "sublist w out"
      by (metis sublist_def)
    then have "go_slice secret (length a) (length a + minPiece) = w" by (simp add: go_slice_def)
    with w show ?L by (intro exI [of _ "length a"]) auto
  qed
  then show ?thesis by (simp add: containsPiece_def containsPiece_loop_iff)
qed

text \<open>An excerpt is a stretch of the text before the marker, cut on the left if it is long.\<close>

lemma str_Cut_fst_sublist: "str_Cut out m = (a, b, f) \<Longrightarrow> sublist a out"
  by (auto simp: str_Cut_def split: option.splits)

lemma excerpt_cases:
  obtains b where "excerpt out = b" and "sublist b out" and "length b \<le> excerptLen"
  | b where "excerpt out = ''...'' @ b" and "sublist b out" and "length b \<le> excerptLen"
proof -
  obtain pre rest f where c: "str_Cut out marker = (pre, rest, f)" by (cases "str_Cut out marker")
  define t where "t = TrimSpace pre"
  have t: "sublist t out" unfolding t_def
    by (meson TrimSpace_sublist str_Cut_fst_sublist [OF c] sublist_order.order.trans)
  show ?thesis
  proof (cases "length t \<le> excerptLen")
    case True
    with t c that(1) [of t] show ?thesis by (simp add: excerpt_def t_def [symmetric])
  next
    case False
    define u where "u = dropWhile (\<lambda>c. \<not> utf8_RuneStart c) (drop (length t - excerptLen) t)"
    have "suffix u (drop (length t - excerptLen) t)" by (simp add: u_def suffix_dropWhile)
    then have "sublist u out" "length u \<le> excerptLen"
      using t False suffix_length_le [of u]
      by (meson sublist_drop sublist_order.order.trans suffix_imp_sublist, fastforce)
    with False c that(2) [of u] show ?thesis by (simp add: excerpt_def t_def [symmetric] u_def)
  qed
qed

lemma sublist_skip:
  assumes "sublist w (a @ b)" and "w \<noteq> []" and "set a \<inter> set w = {}"
  shows "sublist w b"
  using assms
proof (induction a)
  case (Cons x a)
  then have "\<not> prefix w (x # a @ b)" by (cases w) auto
  with Cons show ?case by (simp add: sublist_Cons_right)
qed simp

lemma excerpt_no_dots:
  assumes "sublist w (excerpt out)" and "w \<noteq> []" and "CHR ''.'' \<notin> set w"
  shows "sublist w out"
proof (cases out rule: excerpt_cases)
  case (1 b)
  with assms(1) show ?thesis by (metis sublist_order.order.trans)
next
  case (2 b)
  from assms(3) have "set ''...'' \<inter> set w = {}" by simp
  from sublist_skip [OF assms(1) [unfolded 2(1)] assms(2) this] 2(2) show ?thesis
    by (metis sublist_order.order.trans)
qed

lemma excerpt_length: "length (excerpt out) \<le> excerptLen + 3"
  by (cases out rule: excerpt_cases) auto

lemma excerpt_before_marker:
  "\<not> sublist marker pre \<Longrightarrow> excerpt (pre @ marker @ a) = excerpt (pre @ marker @ b)"
  using marker_Cut [of "pre @ marker @ a" pre a] marker_Cut [of "pre @ marker @ b" pre b]
  by (simp add: excerpt_def)

lemma base32_not_withheld: "base32 c \<Longrightarrow> c \<notin> set withheldOutput"
  by (auto simp: base32_def withheldOutput_def)

lemma shown_hides:
  assumes "list_all base32 pk" and "sublist w pk" and "minPiece \<le> length w"
  shows "\<not> sublist w (excerpt (shown out pk))"
proof
  assume ex: "sublist w (excerpt (shown out pk))"
  have w: "list_all base32 w" "w \<noteq> []"
    using assms set_mono_sublist [OF assms(2)] by (auto simp: list_all_iff minPiece_def)
  have dot: "CHR ''.'' \<notin> set w" using w(1) by (auto simp: list_all_iff base32_def)
  have sub: "sublist w (shown out pk)" using excerpt_no_dots [OF ex w(2) dot] .
  show False
  proof (cases "containsPiece out pk")
    case True
    with sub set_mono_sublist [OF sub] w base32_not_withheld show False
      by (cases w) (auto simp: shown_def)
  next
    case False
    have "sublist (take minPiece w) pk" "sublist (take minPiece w) out"
      using assms(2) sub False by (auto simp: shown_def intro: sublist_order.order.trans [OF sublist_take])
    with False assms(3) show False by (auto simp: containsPiece_iff)
  qed
qed

section \<open>Properties\<close>

lemma bootstrap_Run_command:
  assumes "(p, args) \<in> set (re_commands (snd (bootstrap_Run e cfg)))"
  shows "validate (applyDefaults cfg) = None"
    and "be_texts e = (t1, t2, t3) \<Longrightarrow> args = sshArgs (applyDefaults cfg)
      (remoteCommand (fst (placeholder t1 t2 t3)) (snd (placeholder t1 t2 t3))
        (Term (applyDefaults cfg)) (TerminalPath (applyDefaults cfg)))"
  using assms
  by (auto simp: bootstrap_Run_def no_effects_def Let_def split: option.splits sum.splits prod.splits)

lemma ssh_path_applyDefaults [simp]: "ssh_path e (applyDefaults cfg) = ssh_path e cfg"
  by (simp add: ssh_path_def)

definition run_command :: "bootstrap_env \<Rightarrow> Config \<Rightarrow> string list" where
  "run_command e cfg =
     (case be_texts e of (t1, t2, t3) \<Rightarrow>
        sshArgs cfg (remoteCommand (fst (placeholder t1 t2 t3)) (snd (placeholder t1 t2 t3))
          (Term cfg) (TerminalPath cfg)))"

lemma bootstrap_Run_runs:
  assumes "validate (applyDefaults cfg) = None" and "ssh_path e cfg = Inr p"
    and "be_texts e = (t1, t2, t3)" and "be_ssh e p (run_command e (applyDefaults cfg)) = (writes, runErr)"
  shows "bootstrap_Run e cfg =
    (fst (run_outcome e (placeholder t1 t2 t3) (capture writes) runErr),
     \<lparr>re_commands = [(p, run_command e (applyDefaults cfg))],
      re_warned = snd (run_outcome e (placeholder t1 t2 t3) (capture writes) runErr)\<rparr>)"
  using assms by (simp add: bootstrap_Run_def run_command_def Let_def case_prod_beta)

lemma clean_ascii:
  assumes "\<not> hasSpaceOrControl s" and "c \<in> set s"
  shows "32 < (of_char c :: nat) \<and> (of_char c :: nat) \<noteq> 127"
proof (rule ccontr)
  assume "\<not> ?thesis"
  then have "(of_char c :: nat) \<le> 32 \<or> (of_char c :: nat) = 127" by auto
  with ContainsFunc_ascii [OF assms(1) [unfolded hasSpaceOrControl_def] assms(2)] show False
    by (auto simp: unicode_IsSpace_def unicode_IsControl_def)
qed


definition demo_bootstrap :: "string list \<Rightarrow> bootstrap_env" where
  "demo_bootstrap writes =
     \<lparr>be_unix = True, be_quote = (\<lambda>s. dq @ s @ dq), be_LookPath = Inr ''/usr/bin/ssh'',
      be_texts = (replicate 26 (CHR ''A''), replicate 26 (CHR ''B''), replicate 26 (CHR ''7'')),
      be_ssh = (\<lambda>_ _. (writes, None)), be_ctxErr1 = None, be_ctxErr2 = None,
      be_cause = ContextCanceled\<rparr>"

definition demo_config :: Config where
  "demo_config =
     \<lparr>Destination = ''h'', User = ''al'', TerminalPath = '''', Term = '''',
      SSHOptions = [''Port=22''], SSH = ''ssh''\<rparr>"

lemmas rune_eval = string_runes.simps string_bytes_def utf8_DecodeRune_def utf8_first_def

lemma demo_validate: "validate (applyDefaults demo_config) = None"
  by (simp add: demo_config_def validate_def applyDefaults_def HasPrefix_def HasSuffix_def
      hasSpaceOrControl_def hasControl_def ContainsFunc_def rune_eval ContainsAny_def shellMeta_def
      userMeta_def onlyAlnumOr_def isAlnum_def defaultTerm_def defaultTerminalPath_def termExtra_def
      terminalPathExtra_def unicode_IsSpace_def unicode_IsControl_def)

lemma demo_rand_laws: "rand_laws (demo_bootstrap ws)"
  by (simp add: rand_laws_def demo_bootstrap_def rand_Text_def base32_def list_all_iff)

lemma demo_Run:
  "bootstrap_Run (demo_bootstrap writes) demo_config =
    (fst (run_outcome (demo_bootstrap writes) (''XXXAAAAAAAAAAAAA'', replicate 26 (CHR ''B'') @ ''777777'') (capture writes) None),
     \<lparr>re_commands = [(''ssh'', run_command (demo_bootstrap writes) (applyDefaults demo_config))],
      re_warned = snd (run_outcome (demo_bootstrap writes) (''XXXAAAAAAAAAAAAA'', replicate 26 (CHR ''B'') @ ''777777'') (capture writes) None)\<rparr>)"
proof -
  have "placeholder (replicate 26 (CHR ''A'')) (replicate 26 (CHR ''B'')) (replicate 26 (CHR ''7'')) =
      (''XXXAAAAAAAAAAAAA'', replicate 26 (CHR ''B'') @ ''777777'')" by code_simp
  then show ?thesis
    using bootstrap_Run_runs [OF demo_validate, of "demo_bootstrap writes" "''ssh''"
        "replicate 26 (CHR ''A'')" "replicate 26 (CHR ''B'')" "replicate 26 (CHR ''7'')" writes None]
    by (simp add: demo_bootstrap_def demo_config_def ssh_path_def)
qed


text \<open>
  C27. \<^verbatim>\<open>parseCredentials\<close> accepts exactly the outputs its comment describes: any text without the
  marker, the marker, sixteen letters or digits, a slash, thirty-two letters or digits, and then the
  end or another character; and it returns exactly the two values printed. So a marker inside the
  noise, a short or long id, or a run-on passkey is refused, and no other output is.
\<close>

theorem parse_exactly_printed:
  "parseCredentials out = Inr c \<longleftrightarrow>
     (\<exists>pre idt pk tail. printed out pre idt pk tail \<and> c = NewCredentials idt pk)"
  using parseCredentials_printed parseCredentials_only by blast

text \<open>
  C26. \<^verbatim>\<open>Run\<close> returns credentials exactly when the configuration is valid, ssh was found, the context
  was still live after ssh ended, and the first \<^verbatim>\<open>maxOutput\<close> bytes ssh wrote, however they were cut
  into writes, hold them: ssh's exit status does not matter, cancellation does.
\<close>

theorem run_succeeds_iff:
  "fst (bootstrap_Run e cfg) = Inr c \<longleftrightarrow>
     (validate (applyDefaults cfg) = None \<and> be_ctxErr1 e = None
      \<and> (\<exists>p. ssh_path e cfg = Inr p
          \<and> parseCredentials
              (take maxOutput (concat (fst (be_ssh e p (run_command e (applyDefaults cfg)))))) = Inr c))"
proof (cases "validate (applyDefaults cfg) = None \<and> (\<exists>p. ssh_path e cfg = Inr p)")
  case True
  then obtain p where p: "validate (applyDefaults cfg) = None" "ssh_path e cfg = Inr p" by blast
  obtain t1 t2 t3 where t: "be_texts e = (t1, t2, t3)" by (cases "be_texts e")
  obtain ws err where w: "be_ssh e p (run_command e (applyDefaults cfg)) = (ws, err)"
    by (cases "be_ssh e p (run_command e (applyDefaults cfg))")
  show ?thesis
    using p w bootstrap_Run_runs [OF p t w]
    by (auto simp: run_outcome_def capture_eq split: sum.splits)
next
  case False
  then show ?thesis by (auto simp: bootstrap_Run_def Let_def split: option.splits sum.splits)
qed

text \<open>
  The capture of ssh's stdout refines an unbounded one: after any sequence of writes the buffer
  holds the first \<^verbatim>\<open>maxOutput\<close> bytes of everything written and \<^verbatim>\<open>dropped\<close> counts the rest, and every
  write reports all its bytes taken and no error, so ssh never sees a broken pipe.
\<close>

lemma capture_refines:
  "cb_buf (capture ws) = take maxOutput (concat ws)
   \<and> cb_dropped (capture ws) = int (length (concat ws)) - int (length (cb_buf (capture ws)))
   \<and> snd (cappedBuffer_Write (capture ws) p) = (length p, None)"
  by (simp add: capture_eq cappedBuffer_Write_def Let_def min_def of_nat_diff)

text \<open>
  C28. A failure report never quotes key material: no piece of four or more bytes of the generated
  passkey appears in the quoted excerpt, whatever ssh printed; the excerpt has at most
  \<^verbatim>\<open>excerptLen\<close> bytes and three dots; and it depends only on what came before the first marker, so
  a malformed passkey after it cannot show.
\<close>

theorem report_hides_key:
  assumes "rand_Text t2" and "rand_Text t3" and "pk = snd (placeholder t1 t2 t3)"
    and "sublist w pk" and "minPiece \<le> length w" and "\<not> sublist marker pre"
  shows "\<not> sublist w (excerpt (shown out pk))
    \<and> length (excerpt (shown out pk)) \<le> excerptLen + 3
    \<and> excerpt (pre @ marker @ a) = excerpt (pre @ marker @ b)"
proof (intro conjI)
  have "list_all base32 pk"
    using assms(1-3) by (auto simp: placeholder_def rand_Text_def list_all_iff dest!: in_set_takeD)
  from shown_hides [OF this assms(4,5)] show "\<not> sublist w (excerpt (shown out pk))" .
  show "length (excerpt (shown out pk)) \<le> excerptLen + 3" by (rule excerpt_length)
  show "excerpt (pre @ marker @ a) = excerpt (pre @ marker @ b)"
    using assms(6) by (rule excerpt_before_marker)
qed

theorem report_hides_key_witness:
  "\<not> sublist ''BBBB'' (excerpt (shown ''sh: BBBB'' (replicate 26 (CHR ''B'') @ ''777777'')))"
proof -
  have "snd (placeholder '''' (replicate 26 (CHR ''B'')) (replicate 26 (CHR ''7''))) =
      replicate 26 (CHR ''B'') @ ''777777''" by code_simp
  moreover have "sublist ''BBBB'' (replicate 26 (CHR ''B'') @ ''777777'')"
    by (simp add: sublist_append sublist_Cons_right eval_nat_numeral)
  moreover have "\<not> sublist marker ''''" by (simp add: marker_def)
  moreover have "rand_Text (replicate 26 (CHR ''B''))" "rand_Text (replicate 26 (CHR ''7''))"
    by (simp_all add: rand_Text_def base32_def list_all_iff)
  ultimately show ?thesis
    using report_hides_key [of "replicate 26 (CHR ''B'')" "replicate 26 (CHR ''7'')"
        "replicate 26 (CHR ''B'') @ ''777777''" "''''" "''BBBB''" "''''"]
    by (simp add: minPiece_def)
qed

end
