(* ===== verification/ET_Flags.thy ===== *)
theory ET_Flags
  imports ET_Strings
begin

text \<open>
  File \<^verbatim>\<open>cmd/et/flags.go\<close>: the command line. The parts of the standard library it rests on are
  modelled first: \<^verbatim>\<open>strconv.ParseInt\<close> with base 0 and \<^verbatim>\<open>strconv.ParseBool\<close>, which the flag values use,
  and the loop of \<^verbatim>\<open>flag.FlagSet.Parse\<close>. Then \<^verbatim>\<open>parseDestination\<close> and \<^verbatim>\<open>parseArgs\<close>.
\<close>

section \<open>Numbers and booleans of flag values\<close>

definition lower :: "char \<Rightarrow> char" where
  "lower c = char_of ((of_char c :: nat) OR 32)"

definition digit_value :: "char \<Rightarrow> nat option" where
  "digit_value c =
     (let n = of_char c :: nat; l = of_char (lower c) :: nat in
      if is_digit c then Some (n - 48)
      else if 97 \<le> l \<and> l \<le> 122 then Some (l - 97 + 10)
      else None)"

text \<open>The check on underscores; \<open>prev\<close> is the class of the last character.\<close>

datatype us_class = UsBegin | UsDigit | UsUnderscore | UsOther

fun underscore_scan :: "bool \<Rightarrow> us_class \<Rightarrow> string \<Rightarrow> bool" where
  "underscore_scan hex prev [] = (prev \<noteq> UsUnderscore)"
| "underscore_scan hex prev (c # s) =
     (if is_digit c \<or> (hex \<and> 97 \<le> (of_char (lower c) :: nat) \<and> (of_char (lower c) :: nat) \<le> 102)
      then underscore_scan hex UsDigit s
      else if c = CHR ''_''
      then (if prev \<noteq> UsDigit then False else underscore_scan hex UsUnderscore s)
      else if prev = UsUnderscore then False
      else underscore_scan hex UsOther s)"

definition underscoreOK :: "string \<Rightarrow> bool" where
  "underscoreOK s =
     (if 2 \<le> length s \<and> s ! 0 = CHR ''0'' \<and> lower (s ! 1) \<in> {CHR ''b'', CHR ''o'', CHR ''x''}
      then underscore_scan (lower (s ! 1) = CHR ''x'') UsDigit (drop 2 s)
      else underscore_scan False UsBegin s)"

fun digits_in :: "nat \<Rightarrow> nat \<Rightarrow> string \<Rightarrow> nat option" where
  "digits_in base v [] = Some v"
| "digits_in base v (c # s) =
     (if c = CHR ''_'' then digits_in base v s
      else case digit_value c of
        None \<Rightarrow> None
      | Some d \<Rightarrow> if base \<le> d then None else digits_in base (v * base + d) s)"

definition base_prefix :: "string \<Rightarrow> nat \<times> string" where
  "base_prefix s =
     (if s ! 0 \<noteq> CHR ''0'' then (10, s)
      else if 3 \<le> length s \<and> lower (s ! 1) = CHR ''b'' then (2, drop 2 s)
      else if 3 \<le> length s \<and> lower (s ! 1) = CHR ''o'' then (8, drop 2 s)
      else if 3 \<le> length s \<and> lower (s ! 1) = CHR ''x'' then (16, drop 2 s)
      else (8, drop 1 s))"

definition ParseUint0 :: "string \<Rightarrow> nat option" where
  "ParseUint0 s =
     (if s = '''' then None
      else case base_prefix s of (base, ds) \<Rightarrow>
        (case digits_in base 0 ds of
           None \<Rightarrow> None
         | Some v \<Rightarrow> if CHR ''_'' \<in> set ds \<and> \<not> underscoreOK s then None else Some v))"

text \<open>A value out of the 64-bit range is an error, as is one that does not parse.\<close>

definition ParseInt0 :: "string \<Rightarrow> int option" where
  "ParseInt0 s =
     (let neg = (s \<noteq> [] \<and> hd s = CHR ''-'');
          ds = (if s \<noteq> [] \<and> (hd s = CHR ''-'' \<or> hd s = CHR ''+'') then tl s else s)
      in case ParseUint0 ds of
           None \<Rightarrow> None
         | Some v \<Rightarrow>
             (let n = (if neg then - int v else int v)
              in if - (2 ^ 63) \<le> n \<and> n < 2 ^ 63 then Some n else None))"

definition ParseBool :: "string \<Rightarrow> bool option" where
  "ParseBool s =
     (if s \<in> {''1'', ''t'', ''T'', ''true'', ''TRUE'', ''True''} then Some True
      else if s \<in> {''0'', ''f'', ''F'', ''false'', ''FALSE'', ''False''} then Some False
      else None)"

section \<open>The flag set\<close>

definition defaultPort :: int where "defaultPort = 2022"

text \<open>The variables the flags write, and the names that were set (what \<^verbatim>\<open>Visit\<close> reports).\<close>

record flag_vars =
  f_user :: string
  f_terminalPath :: string
  f_logFile :: string
  f_port :: int
  f_keepAlive :: int
  f_verbose :: bool
  f_showVersion :: bool
  f_sshOptions :: "string list"
  f_actual :: "string list"

definition flag_defaults :: flag_vars where
  "flag_defaults =
     \<lparr>f_user = '''', f_terminalPath = '''', f_logFile = '''', f_port = defaultPort, f_keepAlive = 5,
      f_verbose = False, f_showVersion = False, f_sshOptions = [], f_actual = []\<rparr>"

definition stringList_String :: "string list \<Rightarrow> string" where
  "stringList_String s = str_Join s '',''"

definition stringList_Set :: "string list \<Rightarrow> string \<Rightarrow> string list" where
  "stringList_Set s v = s @ [v]"

definition bool_flags :: "string list" where
  "bool_flags = [''v'', ''verbose'', ''version'']"

definition value_flags :: "string list" where
  "value_flags = [''u'', ''username'', ''p'', ''port'', ''terminal-path'', ''ssh-option'', ''k'',
     ''keepalive'', ''log-file'']"

definition set_int :: "(int \<Rightarrow> flag_vars) \<Rightarrow> string \<Rightarrow> flag_vars option" where
  "set_int put v = map_option put (ParseInt0 v)"

definition set_bool :: "(bool \<Rightarrow> flag_vars) \<Rightarrow> string \<Rightarrow> flag_vars option" where
  "set_bool put v = map_option put (ParseBool v)"

text \<open>\<open>None\<close> is an error of the flag's \<^verbatim>\<open>Set\<close>.\<close>

definition set_flag :: "string \<Rightarrow> string \<Rightarrow> flag_vars \<Rightarrow> flag_vars option" where
  "set_flag name v fv =
     (if name \<in> {''u'', ''username''} then Some (fv\<lparr>f_user := v\<rparr>)
      else if name \<in> {''p'', ''port''} then set_int (\<lambda>n. fv\<lparr>f_port := n\<rparr>) v
      else if name = ''terminal-path'' then Some (fv\<lparr>f_terminalPath := v\<rparr>)
      else if name = ''ssh-option''
        then Some (fv\<lparr>f_sshOptions := stringList_Set (f_sshOptions fv) v\<rparr>)
      else if name \<in> {''k'', ''keepalive''} then set_int (\<lambda>n. fv\<lparr>f_keepAlive := n\<rparr>) v
      else if name \<in> {''v'', ''verbose''} then set_bool (\<lambda>b. fv\<lparr>f_verbose := b\<rparr>) v
      else if name = ''log-file'' then Some (fv\<lparr>f_logFile := v\<rparr>)
      else if name = ''version'' then set_bool (\<lambda>b. fv\<lparr>f_showVersion := b\<rparr>) v
      else None)"

text \<open>
  \<open>flag_name\<close> is one argument read as a flag: \<open>Stop\<close> ends the flags (with how many arguments it
  uses), \<open>Bad\<close> is a syntax error, \<open>Flag\<close> a name and the value after \<^verbatim>\<open>=\<close>, if any (the search
  starts after the first character of the name, which is not \<^verbatim>\<open>=\<close>).
\<close>

datatype flag_arg = Stop nat | Bad | Flag string "string option"

definition flag_name :: "string \<Rightarrow> flag_arg" where
  "flag_name s =
     (if length s < 2 \<or> s ! 0 \<noteq> CHR ''-'' then Stop 0
      else if s = ''--'' then Stop 1
      else let name = (if s ! 1 = CHR ''-'' then drop 2 s else drop 1 s) in
        if name = '''' \<or> hd name = CHR ''-'' \<or> hd name = CHR ''='' then Bad
        else case str_Cut name ''='' of
          (n, v, found) \<Rightarrow> if found then Flag n (Some v) else Flag name None)"

definition put_flag :: "string \<Rightarrow> string \<Rightarrow> flag_vars \<Rightarrow> flag_vars result" where
  "put_flag name v fv =
     (case set_flag name v fv of
        None \<Rightarrow> Inl (OtherError ''invalid value'')
      | Some fv \<Rightarrow> Inr (fv\<lparr>f_actual := name # f_actual fv\<rparr>))"

fun flag_Parse :: "string list \<Rightarrow> flag_vars \<Rightarrow> (flag_vars \<times> string list) result" where
  "flag_Parse [] fv = Inr (fv, [])"
| "flag_Parse (s # args) fv =
     (case flag_name s of
        Stop n \<Rightarrow> Inr (fv, drop n (s # args))
      | Bad \<Rightarrow> Inl (OtherError ''bad flag syntax'')
      | Flag name val \<Rightarrow>
          (if name \<in> set bool_flags then
             (case put_flag name (case val of None \<Rightarrow> ''true'' | Some v \<Rightarrow> v) fv of
                Inl err \<Rightarrow> Inl err
              | Inr fv \<Rightarrow> flag_Parse args fv)
           else if name \<in> set value_flags then
             (case val of
                Some v \<Rightarrow>
                  (case put_flag name v fv of
                     Inl err \<Rightarrow> Inl err
                   | Inr fv \<Rightarrow> flag_Parse args fv)
              | None \<Rightarrow>
                  (case args of
                     [] \<Rightarrow> Inl (OtherError ''flag needs an argument'')
                   | v # args' \<Rightarrow>
                       (case put_flag name v fv of
                          Inl err \<Rightarrow> Inl err
                        | Inr fv \<Rightarrow> flag_Parse args' fv)))
           else if name = ''help'' \<or> name = ''h'' then Inl ErrHelp
           else Inl (OtherError ''flag provided but not defined'')))"

section \<open>Destinations (flags.go)\<close>

record destination =
  d_User :: string
  d_Host :: string
  d_Port :: int

definition bad :: "string \<Rightarrow> 'a result" where
  "bad msg = Inl (Wrap msg [])"

text \<open>The user part, then the host and the port text, then the checks on both.\<close>

definition split_user :: "string \<Rightarrow> (string \<times> string) result" where
  "split_user s =
     (case str_CutLast s ''@'' of (before, after, found) \<Rightarrow>
        if found then
          (if before = '''' then bad ''empty user in destination''
           else if HasPrefix before ''-'' then bad ''user looks like an option in destination''
           else Inr (before, after))
        else Inr ('''', s))"

definition split_host :: "string \<Rightarrow> (string \<times> string) result" where
  "split_host s =
     (if HasPrefix s ''['' then
        (case str_Cut (drop 1 s) '']'' of (host, rest, ok) \<Rightarrow>
           if \<not> ok then bad ''missing ] in destination''
           else if rest \<noteq> '''' then
             (case CutPrefix rest '':'' of (p, ok) \<Rightarrow>
                if \<not> ok then bad ''unexpected text after ] in destination''
                else if p = '''' then bad ''empty port after : in destination''
                else Inr (host, p))
           else Inr (host, ''''))
      else if 1 < count_list s (CHR '':'') then Inr (s, '''')
      else (case str_Cut s '':'' of (host, p, found) \<Rightarrow>
              if found \<and> p = '''' then bad ''empty port after : in destination''
              else Inr (host, if found then p else '''')))"

definition parseDestination :: "string \<Rightarrow> destination result" where
  "parseDestination s =
     (if str_Contains s ''://'' then bad ''ssh:// URIs are not supported''
      else case split_user s of
        Inl err \<Rightarrow> Inl err
      | Inr (user, s) \<Rightarrow>
          (case split_host s of
             Inl err \<Rightarrow> Inl err
           | Inr (host, portText) \<Rightarrow>
               (if host = '''' then bad ''empty host in destination''
                else if HasPrefix host ''-'' then bad ''host looks like an option in destination''
                else if portText \<noteq> '''' then
                  (case atoi portText of
                     None \<Rightarrow> bad ''invalid port in destination''
                   | Some p \<Rightarrow>
                       if p < 1 \<or> 65535 < p then bad ''invalid port in destination''
                       else Inr \<lparr>d_User = user, d_Host = host, d_Port = p\<rparr>)
                else Inr \<lparr>d_User = user, d_Host = host, d_Port = 0\<rparr>)))"

section \<open>The command line (flags.go)\<close>

record options =
  o_dest :: destination
  o_terminalPath :: string
  o_sshOptions :: "string list"
  o_keepAlive :: int
  o_verbose :: bool
  o_logFile :: string
  o_version :: bool

definition zero_destination :: destination where
  "zero_destination = \<lparr>d_User = '''', d_Host = '''', d_Port = 0\<rparr>"

definition version_options :: options where
  "version_options =
     \<lparr>o_dest = zero_destination, o_terminalPath = '''', o_sshOptions = [], o_keepAlive = 0,
      o_verbose = False, o_logFile = '''', o_version = True\<rparr>"

definition second :: int where "second = 1000000000"

definition usage :: "string \<Rightarrow> 'a result" where
  "usage msg = Inl (Wrap msg [ErrUsage])"

text \<open>The part of \<^verbatim>\<open>parseArgs\<close> after the destination was parsed.\<close>

definition resolve_port :: "flag_vars \<Rightarrow> int \<Rightarrow> int result" where
  "resolve_port fv port =
     (let portSet = (''p'' \<in> set (f_actual fv) \<or> ''port'' \<in> set (f_actual fv)) in
      if port \<noteq> 0 \<and> portSet \<and> port \<noteq> f_port fv
      then usage ''port in the destination conflicts with -p''
      else let port = (if port = 0 then f_port fv else port) in
        if port < 1 \<or> 65535 < port then usage ''port out of range'' else Inr port)"

definition resolve_user :: "flag_vars \<Rightarrow> string \<Rightarrow> string result" where
  "resolve_user fv user =
     (if user \<noteq> '''' \<and> f_user fv \<noteq> '''' \<and> user \<noteq> f_user fv
      then usage ''user in the destination conflicts with -u''
      else let user = (if user = '''' then f_user fv else user) in
        if HasPrefix user ''-'' then usage ''user looks like an option'' else Inr user)"

definition finish_args :: "flag_vars \<Rightarrow> destination \<Rightarrow> options result" where
  "finish_args fv dest =
     (case resolve_port fv (d_Port dest) of
        Inl err \<Rightarrow> Inl err
      | Inr port \<Rightarrow>
          (case resolve_user fv (d_User dest) of
             Inl err \<Rightarrow> Inl err
           | Inr user \<Rightarrow>
               (if f_keepAlive fv < 1 \<or> 5 < f_keepAlive fv
                then usage ''keepalive must be 1-5 seconds''
                else Inr \<lparr>o_dest = dest\<lparr>d_User := user, d_Port := port\<rparr>,
                       o_terminalPath = f_terminalPath fv, o_sshOptions = f_sshOptions fv,
                       o_keepAlive = f_keepAlive fv * second, o_verbose = f_verbose fv,
                       o_logFile = f_logFile fv, o_version = False\<rparr>)))"

definition parseArgs :: "string list \<Rightarrow> options result" where
  "parseArgs args =
     (case flag_Parse args flag_defaults of
        Inl err \<Rightarrow>
          (if errors_Is err ErrHelp then Inl err else Inl (Wrap ''usage'' [ErrUsage, err]))
      | Inr (fv, rest) \<Rightarrow>
          (if f_showVersion fv then Inr version_options
           else if length rest \<noteq> 1 then usage ''expected exactly one destination''
           else case parseDestination (rest ! 0) of
             Inl err \<Rightarrow> Inl (Wrap ''usage'' [ErrUsage, err])
           | Inr dest \<Rightarrow> finish_args fv dest))"

section \<open>Destinations: printing and parsing back\<close>

text \<open>
  The notation of a destination: a host with a colon goes into brackets, a port of zero is left out.
\<close>

definition host_text :: "string \<Rightarrow> int \<Rightarrow> string" where
  "host_text host port =
     (if CHR '':'' \<in> set host then ''['' @ host @ '']'' else host)
       @ (if port = 0 then '''' else '':'' @ itoa port)"

definition dest_text :: "destination \<Rightarrow> string" where
  "dest_text d =
     (if d_User d = '''' then '''' else d_User d @ ''@'') @ host_text (d_Host d) (d_Port d)"

definition dest_ok :: "destination \<Rightarrow> bool" where
  "dest_ok d =
     (d_Host d \<noteq> '''' \<and> hd (d_Host d) \<noteq> CHR ''-'' \<and> hd (d_Host d) \<noteq> CHR ''['' \<and> CHR '']'' \<notin> set (d_Host d)
      \<and> CHR ''@'' \<notin> set (d_Host d) \<and> (d_User d = '''' \<or> hd (d_User d) \<noteq> CHR ''-'')
      \<and> 0 \<le> d_Port d \<and> d_Port d \<le> 65535 \<and> \<not> str_Contains (dest_text d) ''://'')"

lemma itoa_digits: "0 \<le> n \<Longrightarrow> c \<in> set (itoa n) \<Longrightarrow> is_digit c"
  using nat_dec_digits [of "nat n"] by (simp add: itoa_def list_all_iff)

lemma itoa_nonempty [simp]: "0 \<le> n \<Longrightarrow> itoa n \<noteq> ''''"
  by (simp add: itoa_def nat_dec_nonempty)

lemma itoa_no_punctuation:
  assumes "0 \<le> n"
  shows "CHR ''@'' \<notin> set (itoa n)" and "CHR '':'' \<notin> set (itoa n)"
  using itoa_digits [OF assms, of "CHR ''@''"] itoa_digits [OF assms, of "CHR '':''"]
  by (auto simp: is_digit_def)

lemma count_list_notin: "c \<notin> set s \<Longrightarrow> count_list s c = 0"
  by (induction s) auto

lemma split_user_text:
  assumes "CHR ''@'' \<notin> set h" and "u = '''' \<or> hd u \<noteq> CHR ''-''"
  shows "split_user ((if u = '''' then '''' else u @ ''@'') @ h) = Inr (u, h)"
  using assms str_CutLast_single [of "CHR ''@''" h u] str_CutLast_single_absent [of "CHR ''@''" h]
  by (auto simp: split_user_def)

lemma split_host_text:
  assumes "hd h \<noteq> CHR ''[''" and "h \<noteq> ''''" and "CHR '']'' \<notin> set h" and "0 \<le> n"
  shows "split_host (host_text h n) = Inr (h, if n = 0 then '''' else itoa n)"
proof (cases "CHR '':'' \<in> set h")
  case True
  have "str_Cut (h @ CHR '']'' # r) '']'' = (h, r, True)" for r
    using assms(3) by (rule str_Cut_single)
  with True assms(4) show ?thesis
    by (auto simp: split_host_def host_text_def CutPrefix_def)
next
  case False
  have hd: "\<not> HasPrefix (h @ r) ''[''" for r using assms(1,2) by simp
  show ?thesis
  proof (cases "n = 0")
    case True
    with False hd [of "[]"] count_list_notin [OF False] str_Cut_single_absent [OF False] show ?thesis
      by (auto simp: split_host_def host_text_def)
  next
    case n: False
    have "count_list (h @ '':'' @ itoa n) (CHR '':'') = 1"
      using False itoa_no_punctuation(2) [OF assms(4)] by (simp add: count_list_notin)
    with n False hd [of "'':'' @ itoa n"] str_Cut_single [OF False, of "itoa n"] assms(4) show ?thesis
      by (simp add: split_host_def host_text_def)
  qed
qed

lemma host_text_no_at:
  "CHR ''@'' \<notin> set h \<Longrightarrow> 0 \<le> n \<Longrightarrow> CHR ''@'' \<notin> set (host_text h n)"
  using itoa_no_punctuation(1) by (simp add: host_text_def)

text \<open>
  C30. Every destination with a printable notation is read back: \<^verbatim>\<open>parseDestination\<close> of
  \<^verbatim>\<open>[user@]host[:port]\<close>, brackets around a host with colons, returns exactly that user, host and
  port. A user may hold \<^verbatim>\<open>@\<close>.
\<close>

theorem destination_roundtrip:
  assumes "dest_ok d"
  shows "parseDestination (dest_text d) = Inr d"
proof -
  let ?h = "host_text (d_Host d) (d_Port d)"
  have u: "split_user (dest_text d) = Inr (d_User d, ?h)"
    unfolding dest_text_def using assms
    by (intro split_user_text host_text_no_at) (auto simp: dest_ok_def)
  have h: "split_host ?h = Inr (d_Host d, if d_Port d = 0 then '''' else itoa (d_Port d))"
    using assms by (intro split_host_text) (auto simp: dest_ok_def)
  have a: "atoi (itoa (d_Port d)) = Some (d_Port d)"
    using assms by (intro atoi_itoa) (auto simp: dest_ok_def)
  from assms show ?thesis
    by (auto simp: parseDestination_def u h a dest_ok_def)
qed

theorem destination_roundtrip_witness:
  "parseDestination ''a@b@[::1]:2022'' = Inr \<lparr>d_User = ''a@b'', d_Host = ''::1'', d_Port = 2022\<rparr>"
proof -
  let ?d = "\<lparr>d_User = ''a@b'', d_Host = ''::1'', d_Port = 2022\<rparr>"
  have "itoa 2022 = ''2022''" by code_simp
  then have t: "dest_text ?d = ''a@b@[::1]:2022''" by (simp add: dest_text_def host_text_def)
  have "dest_ok ?d" by (simp add: dest_ok_def t str_Contains_def HasPrefix_def)
  from destination_roundtrip [OF this] t show ?thesis by simp
qed

section \<open>What an accepted command line guarantees\<close>

lemma parseDestination_ok:
  assumes "parseDestination s = Inr d"
  shows "d_Host d \<noteq> ''''" and "hd (d_Host d) \<noteq> CHR ''-''" and "d_User d = '''' \<or> hd (d_User d) \<noteq> CHR ''-''"
    and "0 \<le> d_Port d" and "d_Port d \<le> 65535"
  using assms
  by (auto simp: parseDestination_def split_user_def bad_def split: if_splits sum.splits option.splits prod.splits)

lemma resolve_port_ok:
  assumes "resolve_port fv p = Inr q"
  shows "1 \<le> q \<and> q \<le> 65535" and "p \<noteq> 0 \<Longrightarrow> q = p" and "p = 0 \<Longrightarrow> q = f_port fv"
    and "''p'' \<in> set (f_actual fv) \<or> ''port'' \<in> set (f_actual fv) \<Longrightarrow> q = f_port fv"
  using assms by (auto simp: resolve_port_def usage_def Let_def split: if_splits)

lemma resolve_user_ok:
  assumes "resolve_user fv u = Inr v"
  shows "v = '''' \<or> hd v \<noteq> CHR ''-''" and "u \<noteq> '''' \<Longrightarrow> v = u" and "f_user fv \<noteq> '''' \<Longrightarrow> v = f_user fv"
  using assms by (auto simp: resolve_user_def usage_def Let_def split: if_splits)


definition demo_options :: options where
  "demo_options =
     \<lparr>o_dest = \<lparr>d_User = ''al'', d_Host = ''h'', d_Port = 22\<rparr>, o_terminalPath = '''',
      o_sshOptions = [''A=b''], o_keepAlive = 3000000000, o_verbose = True, o_logFile = '''',
      o_version = False\<rparr>"

lemma demo_parseArgs:
  "parseArgs [''-k'', ''3'', ''-v'', ''--ssh-option=A=b'', ''al@h:22''] = Inr demo_options"
  by code_simp


end
