(* ===== verification/ET_Cmd.thy ===== *)
theory ET_Cmd
  imports ET_Bootstrap ET_Flags ET_Dial
begin

text \<open>
  Command \<^verbatim>\<open>cmd/et\<close>: the local \<^verbatim>\<open>ssh -G\<close> query (resolve.go), the log file (logging.go), and the
  whole client: \<^verbatim>\<open>runWith\<close>, \<^verbatim>\<open>connect\<close> and \<^verbatim>\<open>exitCode\<close> (run.go). As in the source, \<^verbatim>\<open>connect\<close> works
  on an environment of side-effecting functions. It returns, beside its outcome, the events that
  change a resource in the order they happen, deferred calls included.
\<close>

section \<open>The effective host name (resolve.go)\<close>

definition resolve_args :: "string \<Rightarrow> string \<Rightarrow> string list \<Rightarrow> string list" where
  "resolve_args user host opts =
     map (\<lambda>opt. ''-o'' @ opt) opts @ (if user \<noteq> '''' then [''-l'', user] else [])
       @ [''-G'', ''--'', host]"

fun hostname_line :: "string list \<Rightarrow> string" where
  "hostname_line [] = ''''"
| "hostname_line (line # lines) =
     (case str_Cut (TrimSpace line) '' '' of (key, val, ok) \<Rightarrow>
        if ok \<and> key = ''hostname'' then TrimSpace val else hostname_line lines)"

definition sshConfigHostname :: "string \<Rightarrow> string" where
  "sshConfigHostname out = hostname_line (bytes_Lines out)"

text \<open>\<open>query\<close> is the outcome of the command: its output and error.\<close>

definition resolveHost ::
  "(string \<Rightarrow> string list \<Rightarrow> string \<times> go_error option) \<Rightarrow> string \<Rightarrow> string \<Rightarrow> string \<Rightarrow> string list \<Rightarrow> string" where
  "resolveHost query sshPath user host opts =
     (case query sshPath (resolve_args user host opts) of (out, err) \<Rightarrow>
        if (case err of None \<Rightarrow> False | Some err \<Rightarrow> \<not> errors_Is err ErrWaitDelay) then host
        else let h = sshConfigHostname out in if h \<noteq> '''' then h else host)"

section \<open>The log (logging.go)\<close>

text \<open>The file system and the environment variables, \<^verbatim>\<open>filepath.Join\<close> and \<^verbatim>\<open>filepath.Dir\<close> included.\<close>

record log_env =
  le_windows :: bool
  le_Getenv :: "string \<Rightarrow> string"
  le_UserHomeDir :: "string result"
  le_Join :: "string list \<Rightarrow> string"
  le_Dir :: "string \<Rightarrow> string"
  le_MkdirAll :: "string \<Rightarrow> go_error option"
  le_OpenFile :: "string \<Rightarrow> go_error option"

datatype log_level = LevelInfo | LevelDebug
datatype logger = DiscardLog | LogFile string log_level

definition defaultLogPath :: "log_env \<Rightarrow> string result" where
  "defaultLogPath e =
     (if le_windows e then
        (let dir = le_Getenv e ''LOCALAPPDATA'' in
         if dir = '''' then Inl (OtherError ''LOCALAPPDATA is not set; use --log-file'')
         else Inr (le_Join e [dir, ''et-go'', ''et.log'']))
      else
        (let dir = le_Getenv e ''XDG_STATE_HOME'' in
         if dir \<noteq> '''' then Inr (le_Join e [dir, ''et-go'', ''et.log''])
         else case le_UserHomeDir e of
           Inl err \<Rightarrow> Inl (Wrap ''find home directory'' [err])
         | Inr home \<Rightarrow> Inr (le_Join e [home, ''.local'', ''state'', ''et-go'', ''et.log''])))"

definition open_log :: "log_env \<Rightarrow> bool \<Rightarrow> string \<Rightarrow> logger result" where
  "open_log e verbose path =
     (case le_MkdirAll e (le_Dir e path) of
        Some err \<Rightarrow> Inl (Wrap ''create log directory'' [err])
      | None \<Rightarrow>
          (case le_OpenFile e path of
             Some err \<Rightarrow> Inl (Wrap ''open log file'' [err])
           | None \<Rightarrow> Inr (LogFile path (if verbose then LevelDebug else LevelInfo))))"

definition newLogger :: "log_env \<Rightarrow> bool \<Rightarrow> string \<Rightarrow> logger result" where
  "newLogger e verbose path =
     (if \<not> verbose \<and> path = '''' then Inr DiscardLog
      else if path = '''' then
        (case defaultLogPath e of Inl err \<Rightarrow> Inl err | Inr p \<Rightarrow> open_log e verbose p)
      else open_log e verbose path)"

section \<open>One session (run.go)\<close>

text \<open>
  How \<^verbatim>\<open>session.Run\<close> leaves: it returns, or a panic unwinds through it. A call's error is \<open>None\<close>
  when it succeeds.
\<close>

datatype outcome = Returned "go_error option" | Panicked

record cmd_env =
  ce_bootstrap :: "Config \<Rightarrow> Credentials result"
  ce_resolveHost :: "string \<Rightarrow> string \<Rightarrow> string list \<Rightarrow> string"
  ce_dial :: "dialer \<Rightarrow> string \<Rightarrow> Credentials \<Rightarrow> go_error option"
  ce_openConsole :: "go_error option"
  ce_getenv :: "string \<Rightarrow> string"
  ce_MakeRaw :: "go_error option"
  ce_Start :: "go_error option"
  ce_Run :: outcome

datatype cmd_event =
    OpenConsole | CloseConsole | Bootstrap Config | LogStarted slog_group
  | DialConn dialer string | CloseConn | SessionStart | OnBreak | OffBreak
  | MakeRaw | RawFailed | Restore | SessionRun | CancelContext

definition JoinHostPort :: "string \<Rightarrow> string \<Rightarrow> string" where
  "JoinHostPort host port =
     (if CHR '':'' \<in> set host then ''['' @ host @ '']:'' @ port else host @ '':'' @ port)"

definition connect_config :: "cmd_env \<Rightarrow> options \<Rightarrow> Config" where
  "connect_config e opts =
     \<lparr>Destination = d_Host (o_dest opts), User = d_User (o_dest opts),
      TerminalPath = o_terminalPath opts, Term = ce_getenv e ''TERM'',
      SSHOptions = o_sshOptions opts, SSH = ''''\<rparr>"

definition connect_dialer :: "options \<Rightarrow> dialer" where
  "connect_dialer opts =
     \<lparr>dl_KeepAlive = o_keepAlive opts,
      dl_Probe = \<lparr>pkt_header = HeaderKeepAlive, pkt_payload = []\<rparr>, dl_ReplayLimit = 0\<rparr>"

definition connect_addr :: "cmd_env \<Rightarrow> options \<Rightarrow> string" where
  "connect_addr e opts =
     JoinHostPort
       (ce_resolveHost e (d_User (o_dest opts)) (d_Host (o_dest opts)) (o_sshOptions opts))
       (itoa (d_Port (o_dest opts)))"

text \<open>
  \<^verbatim>\<open>connect\<close> from the inside out, one definition per deferred call: its body, then what the defer
  adds. The middle component is \<^verbatim>\<open>runStarted\<close>.
\<close>

definition connect_raw :: "cmd_env \<Rightarrow> cmd_event list \<times> bool \<times> outcome" where
  "connect_raw e =
     (case ce_MakeRaw e of
        Some err \<Rightarrow> ([RawFailed], False, Returned (Some err))
      | None \<Rightarrow> ([MakeRaw, SessionRun, Restore], True, ce_Run e))"

definition connect_session :: "cmd_env \<Rightarrow> cmd_event list \<times> bool \<times> outcome" where
  "connect_session e =
     (case ce_Start e of
        Some err \<Rightarrow> ([SessionStart], False, Returned (Some err))
      | None \<Rightarrow>
          (case connect_raw e of (evs, started, r) \<Rightarrow>
             ([SessionStart, OnBreak] @ evs @ [OffBreak], started, r)))"

definition connect_console :: "cmd_env \<Rightarrow> options \<Rightarrow> cmd_event list \<times> bool \<times> outcome" where
  "connect_console e opts =
     (let cfg = connect_config e opts in
      case ce_bootstrap e cfg of
        Inl err \<Rightarrow> ([Bootstrap cfg], False, Returned (Some err))
      | Inr creds \<Rightarrow>
          (let started = [Bootstrap cfg, LogStarted (Credentials_LogValue creds)];
               addr = connect_addr e opts;
               d = connect_dialer opts
           in case ce_dial e d addr creds of
                Some err \<Rightarrow> (started, False, Returned (Some (Wrap ''connect to etserver'' [err])))
              | None \<Rightarrow>
                  (case connect_session e of (evs, run, r) \<Rightarrow>
                     (started @ [DialConn d addr] @ evs @ [CloseConn], run, r))))"

definition connect :: "cmd_env \<Rightarrow> options \<Rightarrow> cmd_event list \<times> outcome" where
  "connect e opts =
     (case ce_openConsole e of
        Some err \<Rightarrow> ([CancelContext], Returned (Some err))
      | None \<Rightarrow>
          (case connect_console e opts of (evs, runStarted, r) \<Rightarrow>
             ([OpenConsole] @ evs @ (if runStarted then [] else [CloseConsole]) @ [CancelContext], r)))"

text \<open>
  \<^verbatim>\<open>defaultEnv\<close>: the client on the real bootstrap, the \<^verbatim>\<open>ssh\<close> of the path and a dial that passes the
  credentials on; the console, the session and the environment variables are arguments.
\<close>

definition defaultEnv ::
  "bootstrap_env \<Rightarrow> (string \<Rightarrow> string list \<Rightarrow> string \<times> go_error option)
     \<Rightarrow> (dialer \<Rightarrow> string \<Rightarrow> string \<Rightarrow> bytes \<Rightarrow> go_error option) \<Rightarrow> go_error option \<Rightarrow> (string \<Rightarrow> string)
     \<Rightarrow> go_error option \<Rightarrow> go_error option \<Rightarrow> outcome \<Rightarrow> cmd_env" where
  "defaultEnv be query dial openErr getenv rawErr startErr run =
     \<lparr>ce_bootstrap = (\<lambda>cfg. fst (bootstrap_Run be cfg)),
      ce_resolveHost = resolveHost query ''ssh'',
      ce_dial = (\<lambda>d addr creds. dial d addr (ID creds) (string_bytes (Passkey creds))),
      ce_openConsole = openErr, ce_getenv = getenv, ce_MakeRaw = rawErr, ce_Start = startErr,
      ce_Run = run\<rparr>"

section \<open>The exit status (run.go)\<close>

definition detachedMessage :: string where
  "detachedMessage = ''Detached. The remote shell keeps running on the server until it exits or etserver''
     @ [CHR 0x27] @ ''s disconnect_timeout closes it; et cannot reattach to it.''"

datatype cmd_line = PrintError go_error | PrintText string

definition exitCode :: "go_error option \<Rightarrow> int \<times> cmd_line list" where
  "exitCode err =
     (case err of
        None \<Rightarrow> (0, [])
      | Some err \<Rightarrow>
          (case errors_AsExit err of
             Some code \<Rightarrow> (if code < 0 \<or> 255 < code then (255, []) else (code, []))
           | None \<Rightarrow>
               (if errors_Is err ErrDetached then (0, [PrintText detachedMessage])
                else (255, [PrintError err]))))"

text \<open>
  \<^verbatim>\<open>runWith\<close>: the status (\<open>None\<close> when a panic goes on unwinding), what it prints on stdout and on
  stderr, and the events of \<^verbatim>\<open>connect\<close>. The flag package's own usage text is not included.
\<close>

definition runWith ::
  "log_env \<Rightarrow> cmd_env \<Rightarrow> string \<Rightarrow> string list
     \<Rightarrow> int option \<times> cmd_line list \<times> cmd_line list \<times> cmd_event list" where
  "runWith le e version args =
     (case parseArgs args of
        Inl err \<Rightarrow>
          (if errors_Is err ErrHelp then (Some 0, [], [], []) else (Some 2, [], [PrintError err], []))
      | Inr opts \<Rightarrow>
          (if o_version opts then (Some 0, [PrintText (''et '' @ version)], [], [])
           else case newLogger le (o_verbose opts) (o_logFile opts) of
             Inl err \<Rightarrow> (Some 255, [], [PrintError err], [])
           | Inr logger \<Rightarrow>
               (case connect e opts of
                  (evs, Panicked) \<Rightarrow> (None, [], [], evs)
                | (evs, Returned err) \<Rightarrow>
                    (case exitCode err of (code, lines) \<Rightarrow> (Some code, [], lines, evs)))))"

section \<open>Resources\<close>

text \<open>
  What the client holds: the console, raw mode, the connection, the Ctrl+Break handler and the
  context. \<open>track\<close> says when an event is legal and what it does: the bootstrap's prompts need a
  console that is not raw, the session needs all of them and closes the console itself
  (\<^verbatim>\<open>session.Run\<close>), and nothing is taken or released twice.
\<close>

record resources =
  r_console :: bool
  r_raw :: bool
  r_conn :: bool
  r_break :: bool
  r_context :: bool

definition held_at_start :: resources where
  "held_at_start =
     \<lparr>r_console = False, r_raw = False, r_conn = False, r_break = False, r_context = True\<rparr>"

definition released :: resources where
  "released = held_at_start\<lparr>r_context := False\<rparr>"

definition require :: "bool \<Rightarrow> resources \<Rightarrow> resources option" where
  "require b r = (if b then Some r else None)"

fun track :: "resources \<Rightarrow> cmd_event \<Rightarrow> resources option" where
  "track r OpenConsole = require (\<not> r_console r) (r\<lparr>r_console := True\<rparr>)"
| "track r CloseConsole = require (r_console r \<and> \<not> r_raw r) (r\<lparr>r_console := False\<rparr>)"
| "track r (Bootstrap cfg) = require (r_console r \<and> \<not> r_raw r) r"
| "track r (LogStarted g) = require (\<not> r_raw r) r"
| "track r (DialConn d addr) = require (\<not> r_conn r) (r\<lparr>r_conn := True\<rparr>)"
| "track r CloseConn = require (r_conn r) (r\<lparr>r_conn := False\<rparr>)"
| "track r SessionStart = require (r_conn r \<and> r_console r) r"
| "track r OnBreak = require (r_conn r \<and> \<not> r_break r) (r\<lparr>r_break := True\<rparr>)"
| "track r OffBreak = require (r_break r) (r\<lparr>r_break := False\<rparr>)"
| "track r MakeRaw = require (r_console r \<and> \<not> r_raw r) (r\<lparr>r_raw := True\<rparr>)"
| "track r RawFailed = require (r_console r \<and> \<not> r_raw r) r"
| "track r Restore = require (r_raw r) (r\<lparr>r_raw := False\<rparr>)"
| "track r SessionRun =
     require (r_console r \<and> r_raw r \<and> r_conn r \<and> r_break r \<and> r_context r) (r\<lparr>r_console := False\<rparr>)"
| "track r CancelContext = require (r_context r) (r\<lparr>r_context := False\<rparr>)"

fun track_all :: "resources \<Rightarrow> cmd_event list \<Rightarrow> resources option" where
  "track_all r [] = Some r"
| "track_all r (ev # evs) = (case track r ev of None \<Rightarrow> None | Some r \<Rightarrow> track_all r evs)"

lemma track_all_append:
  "track_all r (xs @ ys) = (case track_all r xs of None \<Rightarrow> None | Some r \<Rightarrow> track_all r ys)"
  by (induction xs arbitrary: r) (auto split: option.splits)

text \<open>Each layer of \<^verbatim>\<open>connect\<close> gives back what it took; only a started session closes the console.\<close>

lemma connect_raw_track:
  assumes "connect_raw e = (evs, started, r)"
    and "\<not> r_raw s" "r_console s" "r_conn s" "r_break s" "r_context s"
  shows "track_all s evs = Some (s\<lparr>r_console := \<not> started\<rparr>)"
  using assms by (auto simp: connect_raw_def require_def split: option.splits)

lemma connect_session_track:
  assumes "connect_session e = (evs, started, r)"
    and "\<not> r_raw s" "r_console s" "r_conn s" "\<not> r_break s" "r_context s"
  shows "track_all s evs = Some (s\<lparr>r_console := \<not> started\<rparr>)"
proof (cases "ce_Start e")
  case None
  obtain evs' st' r' where raw: "connect_raw e = (evs', st', r')" by (cases "connect_raw e")
  from connect_raw_track [OF raw, of "s\<lparr>r_break := True\<rparr>"] assms None raw show ?thesis
    by (auto simp: connect_session_def track_all_append require_def)
next
  case (Some err)
  with assms show ?thesis by (auto simp: connect_session_def require_def)
qed

lemma connect_console_track:
  assumes "connect_console e opts = (evs, started, r)"
    and "\<not> r_raw s" "r_console s" "\<not> r_conn s" "\<not> r_break s" "r_context s"
  shows "track_all s evs = Some (s\<lparr>r_console := \<not> started\<rparr>)"
proof -
  obtain evs' st' r' where ses: "connect_session e = (evs', st', r')" by (cases "connect_session e")
  from connect_session_track [OF ses, of "s\<lparr>r_conn := True\<rparr>"] assms ses show ?thesis
    by (auto simp: connect_console_def track_all_append require_def Let_def split: sum.splits option.splits)
qed

lemma connect_track:
  "track_all held_at_start (fst (connect e opts)) = Some released"
proof (cases "ce_openConsole e")
  case None
  obtain evs st r where con: "connect_console e opts = (evs, st, r)" by (cases "connect_console e opts")
  from connect_console_track [OF con, of "held_at_start\<lparr>r_console := True\<rparr>"] None con show ?thesis
    by (auto simp: connect_def track_all_append require_def held_at_start_def released_def)
next
  case (Some err)
  then show ?thesis by (simp add: connect_def require_def held_at_start_def released_def)
qed

section \<open>Properties\<close>


text \<open>
  The exit status fits a process status, and a failure is never reported as success: it is zero
  exactly when there was no error, the remote shell exited with zero, or the user detached (and then
  a message says so); a remote status is passed through when it is between 0 and 255.
\<close>

lemma exit_status_faithful:
  "0 \<le> fst (exitCode err) \<and> fst (exitCode err) \<le> 255
   \<and> (fst (exitCode err) = 0 \<longleftrightarrow>
        (case err of None \<Rightarrow> True
         | Some err \<Rightarrow> errors_AsExit err = Some 0 \<or> (errors_AsExit err = None \<and> errors_Is err ErrDetached)))
   \<and> (\<forall>code \<in> {0..255}. \<forall>x. err = Some x \<and> errors_AsExit x = Some code \<longrightarrow> exitCode err = (code, []))"
  by (auto simp: exitCode_def split: option.splits)

lemma resolve_args_getopt:
  assumes "list_all (\<lambda>opt. opt \<noteq> '''') opts"
  shows "ssh_getopt (resolve_args user host opts) =
    Some (opts, if user = '''' then None else Some user, [host])"
proof -
  have "ssh_getopt ((if user \<noteq> '''' then [''-l'', user] else []) @ [''-G'', ''--'', host])
      = Some ([], if user = '''' then None else Some user, [host])"
    by (simp add: HasPrefix_def)
  from ssh_getopt_options [OF assms this] show ?thesis by (simp add: resolve_args_def)
qed

text \<open>
  The query that finds the server's address and the ssh that starts etterminal read the same
  options and user: for a validated configuration both argument lists parse to the same ones, with
  the host alone or the destination and the command after \<^verbatim>\<open>--\<close>. So an alias, a \<^verbatim>\<open>HostName\<close> option
  or a user name with \<^verbatim>\<open>@\<close> resolves the same way in both.
\<close>

lemma resolve_matches_bootstrap:
  assumes "validate cfg = None"
  shows "\<exists>opts user.
    ssh_getopt (resolve_args (User cfg) (Destination cfg) (SSHOptions cfg)) = Some (opts, user, [Destination cfg])
    \<and> ssh_getopt (sshArgs cfg remote) = Some (opts, user, [Destination cfg, remote])
    \<and> opts = SSHOptions cfg"
  using validate_options_None [OF validate_None(10) [OF assms]]
  by (simp add: resolve_args_getopt sshArgs_getopt)

lemma resolve_matches_bootstrap_witness:
  "\<exists>opts user.
    ssh_getopt (resolve_args ''al'' ''h'' [''Port=22'']) = Some (opts, user, [''h''])
    \<and> ssh_getopt (sshArgs (applyDefaults demo_config) ''true'') = Some (opts, user, [''h'', ''true''])"
  using resolve_matches_bootstrap [OF demo_validate, of "''true''"] by (auto simp: demo_config_def)

end
