(* ===== verification/ET_Main.thy ===== *)
theory ET_Main
  imports ET_Console ET_Cmd
begin

text \<open>
  The process: \<^verbatim>\<open>cmd/et/main.go\<close>, the per-system files \<^verbatim>\<open>signals_*.go\<close> and \<^verbatim>\<open>onbreak_*.go\<close>, \<^verbatim>\<open>run\<close>, and
  what \<^verbatim>\<open>connect\<close> does to the user's terminal and to the Ctrl+Break handler. Here the events of
  \<open>ET_Cmd\<close> act on the consoles of \<open>ET_Console\<close>, so that the deferred calls of \<^verbatim>\<open>connect\<close>, the \<^verbatim>\<open>Close\<close> of
  \<^verbatim>\<open>session.Run\<close> and the consoles' own guards are seen together.
\<close>

section \<open>Process entry (main.go, signals, onBreak)\<close>

datatype os_signal = Interrupt | SIGTERM | SIGHUP

definition shutdownSignals :: "bool \<Rightarrow> os_signal list" where
  "shutdownSignals windows = (if windows then [Interrupt] else [Interrupt, SIGTERM, SIGHUP])"

text \<open>\<open>onBreak\<close> is \<^verbatim>\<open>console.OnBreak\<close> on Windows and does nothing elsewhere.\<close>

definition onBreak ::
  "bool \<Rightarrow> (nat \<Rightarrow> nat \<times> go_error) \<Rightarrow> 'f option \<Rightarrow> 'f break_state \<Rightarrow> 'f break_state" where
  "onBreak windows call f b = (if windows then ET_Console.OnBreak call f b else b)"

definition cmd_run ::
  "log_env \<Rightarrow> cmd_env \<Rightarrow> string \<Rightarrow> string list
     \<Rightarrow> int option \<times> cmd_line list \<times> cmd_line list \<times> cmd_event list" where
  "cmd_run le env version args = runWith le env version args"

text \<open>
  \<^verbatim>\<open>main\<close>: the shutdown signals end the context while \<open>run\<close> works; they get their default effect back
  before the exit. A panic ends the process without either.
\<close>

datatype process_event = Notify "os_signal list" | Client cmd_event | StopNotify | Exit int

definition main_process ::
  "bool \<Rightarrow> log_env \<Rightarrow> cmd_env \<Rightarrow> string \<Rightarrow> string list \<Rightarrow> process_event list" where
  "main_process windows le env version args =
     (case cmd_run le env version args of (code, out, err, evs) \<Rightarrow>
        Notify (shutdownSignals windows) # map Client evs
          @ (case code of Some n \<Rightarrow> [StopNotify, Exit n] | None \<Rightarrow> []))"

section \<open>Ctrl+Break\<close>

text \<open>The registered function is \<^verbatim>\<open>func() { cancel(session.ErrDetached) }\<close>: its cause stands for it.\<close>

definition break_event ::
  "bool \<Rightarrow> (nat \<Rightarrow> nat \<times> go_error) \<Rightarrow> cmd_event \<Rightarrow> go_error break_state \<Rightarrow> go_error break_state" where
  "break_event windows call ev b =
     (case ev of
        cmd_event.OnBreak \<Rightarrow> onBreak windows call (Some ErrDetached) b
      | OffBreak \<Rightarrow> onBreak windows call None b
      | _ \<Rightarrow> b)"

definition no_break :: "go_error break_state" where
  "no_break = \<lparr>br_func = None, br_once = False, br_installed = False\<rparr>"

section \<open>The terminal\<close>

text \<open>
  What an event does to a console. The session closes the console when it returns; a panic in it may
  come before that. \<^verbatim>\<open>MakeRaw\<close> may fail; the other calls are taken to report no error.
\<close>

definition console_event ::
  "('c \<Rightarrow> 'c \<times> go_error option) \<Rightarrow> ('c \<Rightarrow> 'c \<times> go_error option) \<Rightarrow> ('c \<Rightarrow> 'c \<times> go_error option \<Rightarrow> bool)
     \<Rightarrow> outcome \<Rightarrow> cmd_event \<Rightarrow> 'c \<Rightarrow> 'c \<Rightarrow> bool" where
  "console_event raw restore close r ev c c' =
     (case ev of
        MakeRaw \<Rightarrow> raw c = (c', None)
      | RawFailed \<Rightarrow> (\<exists>err. raw c = (c', Some err))
      | SessionRun \<Rightarrow> close c (c', None) \<or> r = Panicked \<and> c' = c
      | Restore \<Rightarrow> restore c = (c', None)
      | CloseConsole \<Rightarrow> close c (c', None)
      | _ \<Rightarrow> c' = c)"

fun console_events ::
  "('c \<Rightarrow> 'c \<times> go_error option) \<Rightarrow> ('c \<Rightarrow> 'c \<times> go_error option) \<Rightarrow> ('c \<Rightarrow> 'c \<times> go_error option \<Rightarrow> bool)
     \<Rightarrow> outcome \<Rightarrow> cmd_event list \<Rightarrow> 'c \<Rightarrow> 'c \<Rightarrow> bool" where
  "console_events raw restore close r [] c c' \<longleftrightarrow> c' = c"
| "console_events raw restore close r (ev # evs) c c' \<longleftrightarrow>
     (\<exists>c1. console_event raw restore close r ev c c1 \<and> console_events raw restore close r evs c1 c')"

context restorable
begin

text \<open>
  Whatever happens in \<^verbatim>\<open>connect\<close>, the terminal is back at its baseline, and unless the session panicked
  the console is closed. Three ways lead there: \<^verbatim>\<open>connect\<close> closes a console that was never
  raw (or whose \<^verbatim>\<open>MakeRaw\<close> failed half way), the session closes it and the deferred restore
  then does nothing, or the session panicked before that and the deferred restore does it.
\<close>

lemma connect_back_to_baseline:
  assumes "ok" and "\<not> closed c" and "connect e opts = (evs, r)" and "ce_openConsole e = None"
    and "console_events raw restore close r evs c c'"
  shows "cur c' = base c \<and> (r \<noteq> Panicked \<longrightarrow> closed c')"
proof -
  have close1: "cur c2 = base c \<and> closed c2" if "close c1 (c2, None)" "\<not> closed c1" "base c1 = base c" for c1 c2
    using close_ok [OF assms(1) that(2,1)] that(3) by simp
  have raw1: "\<not> closed c1 \<and> base c1 = base c" if "raw c = (c1, x)" for c1 x
    using raw_open [of c] raw_base [of c] that assms(2) by simp
  have rest: "cur c2 = base c" if "restore c1 = (c2, None)" "\<not> closed c1" "base c1 = base c" for c1 c2
    using restore_ok [OF assms(1) that(2,1)] that(3) by simp
  have both: "cur c3 = base c \<and> closed c3"
    if "close c1 (c2, None)" "restore c2 = (c3, None)" "\<not> closed c1" "base c1 = base c" for c1 c2 c3
    using restore_closed [of c2] close1 [OF that(1,3,4)] that(2) by simp
  note defs = connect_def connect_console_def connect_session_def connect_raw_def console_event_def Let_def
  show ?thesis
    using assms(2-5) close1 raw1 rest both
    by (auto simp: defs split: option.splits sum.splits)
qed

end

text \<open>
  The handler follows the resources \<^verbatim>\<open>connect\<close> holds: on Windows Ctrl+Break detaches from the moment
  the session has started until \<^verbatim>\<open>connect\<close> returns, and at no other time.
\<close>

lemma break_follows_track:
  assumes "track_all r xs = Some r'" and "br_func b = (if r_break r then Some ErrDetached else None)"
  shows "br_func (fold (break_event True call) xs b) = (if r_break r' then Some ErrDetached else None)"
  using assms
proof (induction xs arbitrary: r b)
  case (Cons ev xs)
  obtain r1 where r1: "track r ev = Some r1" "track_all r1 xs = Some r'"
    using Cons.prems(1) by (auto split: option.splits)
  have "br_func (break_event True call ev b) = (if r_break r1 then Some ErrDetached else None)"
    using r1(1) Cons.prems(2)
    by (cases ev) (auto simp: break_event_def onBreak_def ET_Console.OnBreak_def require_def split: if_splits)
  from Cons.IH [OF r1(2) this] show ?case by simp
qed simp

lemma ctrl_break_detaches:
  assumes "fst (connect e opts) = xs @ ys"
  shows "\<exists>r. track_all held_at_start xs = Some r
    \<and> ctrlHandler 1 (fold (break_event True call) xs no_break) = (if r_break r then Some ErrDetached else None)
    \<and> (ys = [] \<longrightarrow> \<not> r_break r)"
proof -
  have "track_all held_at_start (xs @ ys) = Some released" using connect_track [of e opts] assms by simp
  then obtain r where r: "track_all held_at_start xs = Some r" "track_all r ys = Some released"
    by (auto simp: track_all_append split: option.splits)
  from break_follows_track [OF this(1), of no_break call] r show ?thesis
    by (auto simp: ctrlHandler_def no_break_def held_at_start_def released_def)
qed

text \<open>The exit status of the process is the one \<^verbatim>\<open>runWith\<close> computes, after the signals were given back.\<close>

lemma main_exits_once:
  "last (main_process windows le env version args) = Exit n \<longleftrightarrow>
     fst (cmd_run le env version args) = Some n"
  by (cases "cmd_run le env version args")
    (auto simp: main_process_def last_map split: option.splits prod.splits)

section \<open>Properties\<close>

text \<open>An environment in which everything succeeds, and one console of each kind, for the witnesses.\<close>

definition demo_cmd_env :: "outcome \<Rightarrow> cmd_env" where
  "demo_cmd_env r =
     \<lparr>ce_bootstrap = \<lambda>_. Inr (NewCredentials ''id'' ''key''), ce_resolveHost = \<lambda>_ h _. h,
      ce_dial = \<lambda>_ _ _. None, ce_openConsole = None, ce_getenv = \<lambda>_. '''', ce_MakeRaw = None,
      ce_Start = None, ce_Run = r\<rparr>"


lemmas demo_connect = connect_def connect_console_def connect_session_def connect_raw_def demo_cmd_env_def Let_def




end
