(* ===== verification/ET_Rules.thy ===== *)
theory ET_Rules
  imports ET_Prelude
begin

text \<open>
  \<^verbatim>\<open>rules/*.go\<close>: the project's own lint rules, as the data they are. Each rule function gives its
  clauses to the matcher (\<^verbatim>\<open>go-ruleguard\<close>): the patterns, an optional filter, the report and
  an optional replacement. The matcher itself is not part of the repository; what is modelled of it
  is the documented use of a clause: \<^verbatim>\<open>$x\<close> in a report or a replacement stands for the text that \<^verbatim>\<open>$x\<close>
  of the pattern captured, \<^verbatim>\<open>$$\<close> for the whole match, and a filter asks about captured variables.
\<close>

section \<open>Clauses and rules\<close>

text \<open>
  The filters: questions about a captured variable (\<^verbatim>\<open>m["x"].Type.Is\<close>, \<^verbatim>\<open>.Type.Underlying().Is\<close>,
  \<^verbatim>\<open>.Type.IdenticalTo\<close>, \<^verbatim>\<open>.Text.Matches\<close>, \<^verbatim>\<open>.Text ==\<close>, \<^verbatim>\<open>.Contains\<close>, \<^verbatim>\<open>.Const\<close>, \<^verbatim>\<open>.Value.Int() <\<close>) or about the file.
\<close>

datatype rule_filter =
    TypeIs string string | UnderlyingIs string string | TypeIdentical string string
  | TextMatches string string | TextIs string string | Contains string string
  | IsConst string | ValueLess string int
  | FileImports string | FileNameMatches string
  | WNot rule_filter | WAnd rule_filter rule_filter | WOr rule_filter rule_filter

datatype clause =
  Match (cl_patterns: "string list") (cl_where: "rule_filter option") (cl_report: string)
    (cl_suggest: "string option")

datatype rule = Rule (ru_imports: "string list") (ru_clauses: "clause list")

section \<open>Templates\<close>

text \<open>A template is cut into characters and variables; a variable may have the \<^verbatim>\<open>*\<close> of a list.\<close>

definition ident_char :: "char \<Rightarrow> bool" where
  "ident_char c \<longleftrightarrow> (let n = of_char c :: nat in
     48 \<le> n \<and> n \<le> 57 \<or> 65 \<le> n \<and> n \<le> 90 \<or> n = 95 \<or> 97 \<le> n \<and> n \<le> 122)"

datatype piece = PChar char | PVar string

function pieces :: "string \<Rightarrow> piece list" where
  "pieces [] = []"
| "pieces (c # cs) =
     (if c = CHR ''$'' then
        (let cs' = (case cs of d # ds \<Rightarrow> if d = CHR ''*'' then ds else cs | [] \<Rightarrow> []);
             v = takeWhile ident_char cs'
         in if v \<noteq> [] then PVar v # pieces (drop (length v) cs')
            else (case cs of
                    d # ds \<Rightarrow> if d = CHR ''$'' then PVar ''$'' # pieces ds else PChar c # pieces cs
                  | [] \<Rightarrow> [PChar c]))
      else PChar c # pieces cs)"
  by pat_completeness auto
termination
  by (relation "measure length") (auto split: list.splits if_splits)

fun piece_vars :: "piece list \<Rightarrow> string list" where
  "piece_vars [] = []"
| "piece_vars (PVar v # ps) = v # piece_vars ps"
| "piece_vars (PChar c # ps) = piece_vars ps"

definition template_vars :: "string \<Rightarrow> string list" where
  "template_vars t = piece_vars (pieces t)"

text \<open>Rendering: \<open>None\<close> when a variable has no captured text.\<close>

fun render :: "(string \<rightharpoonup> string) \<Rightarrow> piece list \<Rightarrow> string option" where
  "render b [] = Some []"
| "render b (PChar c # ps) = map_option ((#) c) (render b ps)"
| "render b (PVar v # ps) =
     (case b v of None \<Rightarrow> None | Some t \<Rightarrow> map_option ((@) t) (render b ps))"

text \<open>The variables a filter asks about; \<^verbatim>\<open>$_\<close> in a \<^verbatim>\<open>Contains\<close> pattern is a wildcard.\<close>

fun filter_vars :: "rule_filter \<Rightarrow> string list" where
  "filter_vars (TypeIs v t) = [v]"
| "filter_vars (UnderlyingIs v t) = [v]"
| "filter_vars (TypeIdentical v w) = [v, w]"
| "filter_vars (TextMatches v r) = [v]"
| "filter_vars (TextIs v t) = [v]"
| "filter_vars (Contains v p) = v # filter (\<lambda>x. x \<noteq> ''_'') (template_vars p)"
| "filter_vars (IsConst v) = [v]"
| "filter_vars (ValueLess v n) = [v]"
| "filter_vars (FileImports p) = []"
| "filter_vars (FileNameMatches r) = []"
| "filter_vars (WNot w) = filter_vars w"
| "filter_vars (WAnd w x) = filter_vars w @ filter_vars x"
| "filter_vars (WOr w x) = filter_vars w @ filter_vars x"

text \<open>
  What a clause says about a match that captured \<open>b\<close>; \<open>holds\<close> answers the atomic questions of the
  filter. \<open>None\<close>: the clause uses a variable that was not captured. Otherwise it says nothing (the
  filter refused) or gives its report and its replacement.
\<close>

fun filter_holds :: "(rule_filter \<Rightarrow> bool) \<Rightarrow> rule_filter \<Rightarrow> bool" where
  "filter_holds holds (WNot w) = (\<not> filter_holds holds w)"
| "filter_holds holds (WAnd w x) = (filter_holds holds w \<and> filter_holds holds x)"
| "filter_holds holds (WOr w x) = (filter_holds holds w \<or> filter_holds holds x)"
| "filter_holds holds w = holds w"

definition clause_says ::
  "(string \<rightharpoonup> string) \<Rightarrow> (rule_filter \<Rightarrow> bool) \<Rightarrow> clause \<Rightarrow> (string \<times> string option) option option" where
  "clause_says b holds cl =
     (if list_ex (\<lambda>v. b v = None) (case cl_where cl of None \<Rightarrow> [] | Some w \<Rightarrow> filter_vars w) then None
      else if (case cl_where cl of None \<Rightarrow> False | Some w \<Rightarrow> \<not> filter_holds holds w) then Some None
      else (case render b (pieces (cl_report cl)) of
              None \<Rightarrow> None
            | Some msg \<Rightarrow>
                (case cl_suggest cl of
                   None \<Rightarrow> Some (Some (msg, None))
                 | Some t \<Rightarrow> map_option (\<lambda>repl. Some (msg, Some repl)) (render b (pieces t)))))"

text \<open>The check: every variable in use is captured by the pattern, whichever alternative matched.\<close>

definition used_vars :: "clause \<Rightarrow> string list" where
  "used_vars cl =
     (case cl_where cl of None \<Rightarrow> [] | Some w \<Rightarrow> filter_vars w) @ template_vars (cl_report cl)
       @ (case cl_suggest cl of None \<Rightarrow> [] | Some t \<Rightarrow> template_vars t)"

text \<open>A loop pattern declares its own variable; a replacement may drop that one.\<close>

definition declared_vars :: "string \<Rightarrow> string list" where
  "declared_vars pat = (if take 5 pat = ''for $'' then [takeWhile ident_char (drop 5 pat)] else [])"

definition kept_by_fix :: "clause \<Rightarrow> string \<Rightarrow> bool" where
  "kept_by_fix cl pat =
     (case cl_suggest cl of
        None \<Rightarrow> True
      | Some t \<Rightarrow> list_all (\<lambda>v. v \<in> set (template_vars t) \<or> v \<in> set (declared_vars pat)) (template_vars pat))"

definition clause_ok :: "clause \<Rightarrow> bool" where
  "clause_ok cl \<longleftrightarrow> cl_patterns cl \<noteq> [] \<and> cl_report cl \<noteq> [] \<and>
     list_all (\<lambda>pat. list_all (\<lambda>v. v = ''$'' \<or> v \<in> set (template_vars pat)) (used_vars cl) \<and> kept_by_fix cl pat)
       (cl_patterns cl)"

definition rule_ok :: "rule \<Rightarrow> bool" where
  "rule_ok r \<longleftrightarrow> list_all clause_ok (ru_clauses r)"

section \<open>builtins.go\<close>

definition MinMaxBuiltin :: rule where
  "MinMaxBuiltin = Rule []
    [Match [''int(math.Min(float64($a), float64($b)))'']
        None
        ''use min($a, $b) instead of int(math.Min(float64(...))) (Go 1.21+)''
        None,
     Match [''int64(math.Min(float64($a), float64($b)))'']
        None
        ''use min($a, $b) instead of int64(math.Min(float64(...))) (Go 1.21+)''
        None,
     Match [''int32(math.Min(float64($a), float64($b)))'']
        None
        ''use min($a, $b) instead of int32(math.Min(float64(...))) (Go 1.21+)''
        None,
     Match [''int(math.Max(float64($a), float64($b)))'']
        None
        ''use max($a, $b) instead of int(math.Max(float64(...))) (Go 1.21+)''
        None,
     Match [''int64(math.Max(float64($a), float64($b)))'']
        None
        ''use max($a, $b) instead of int64(math.Max(float64(...))) (Go 1.21+)''
        None,
     Match [''int32(math.Max(float64($a), float64($b)))'']
        None
        ''use max($a, $b) instead of int32(math.Max(float64(...))) (Go 1.21+)''
        None]"

definition ClearBuiltin :: rule where
  "ClearBuiltin = Rule []
    [Match [''for $k := range $m { delete($m, $k) }'']
        None
        ''use clear($m) instead of loop-based map clearing (Go 1.21+)''
        (Some ''clear($m)''),
     Match [''for $k, _ := range $m { delete($m, $k) }'']
        None
        ''use clear($m) instead of loop-based map clearing (Go 1.21+)''
        (Some ''clear($m)'')]"

definition NewWithExpression :: rule where
  "NewWithExpression = Rule []
    [Match [''&[]$typ{$val}[0]'']
        None
        ''consider using new($typ($val)) instead of &[]$typ{$val}[0] (Go 1.26+); verify type compatibility''
        None]"

section \<open>crypto.go\<close>

definition DeprecatedCipherModes :: rule where
  "DeprecatedCipherModes = Rule []
    [Match [''cipher.NewOFB($block, $iv)'']
        None
        (''cipher.NewOFB is deprecated in Go 1.24: OFB mode is not authenticated and vulnerable to active ''
          @ ''attacks; use cipher.NewGCM (AEAD) or cipher.NewCTR instead'')
        None,
     Match [''cipher.NewCFBEncrypter($block, $iv)'']
        None
        (''cipher.NewCFBEncrypter is deprecated in Go 1.24: CFB mode is not authenticated and vulnerable ''
          @ ''to active attacks; use cipher.NewGCM (AEAD) or cipher.NewCTR instead'')
        None,
     Match [''cipher.NewCFBDecrypter($block, $iv)'']
        None
        (''cipher.NewCFBDecrypter is deprecated in Go 1.24: CFB mode is not authenticated and vulnerable ''
          @ ''to active attacks; use cipher.NewGCM (AEAD) or cipher.NewCTR instead'')
        None]"

definition WeakRSAKeySize :: rule where
  "WeakRSAKeySize = Rule []
    [Match [''rsa.GenerateKey($rand, $bits)'']
        (Some (WAnd (IsConst ''bits'') (ValueLess ''bits'' 2048)))
        (''RSA keys under 2048 bits are weak (sizes under 1024 are rejected in Go 1.24+); use at least ''
          @ ''2048 bits for modern security'')
        None]"

definition DeprecatedElliptic :: rule where
  "DeprecatedElliptic = Rule []
    [Match [''elliptic.GenerateKey($curve, $rand)'']
        None
        ''elliptic.GenerateKey is deprecated; use crypto/ecdh package instead (Go 1.21+)''
        None,
     Match [''elliptic.Marshal($curve, $x, $y)'']
        None
        ''elliptic.Marshal is deprecated; use crypto/ecdh package instead (Go 1.21+)''
        None,
     Match [''elliptic.Unmarshal($curve, $data)'']
        None
        ''elliptic.Unmarshal is deprecated; use crypto/ecdh package instead (Go 1.21+)''
        None]"

definition DeprecatedRSAMultiPrime :: rule where
  "DeprecatedRSAMultiPrime = Rule []
    [Match [''rsa.GenerateMultiPrimeKey($rand, $nprimes, $bits)'']
        None
        ''rsa.GenerateMultiPrimeKey is deprecated; use rsa.GenerateKey for standard 2-prime RSA (Go 1.21+)''
        None]"

definition DeprecatedPKCS1v15 :: rule where
  "DeprecatedPKCS1v15 = Rule []
    [Match [''rsa.EncryptPKCS1v15($rand, $pub, $msg)'']
        None
        (''rsa.EncryptPKCS1v15 is deprecated in Go 1.26: PKCS#1 v1.5 encryption is vulnerable to ''
          @ ''Bleichenbacher attacks; use rsa.EncryptOAEP instead'')
        None,
     Match [''rsa.DecryptPKCS1v15($rand, $priv, $ciphertext)'']
        None
        (''rsa.DecryptPKCS1v15 is deprecated in Go 1.26: PKCS#1 v1.5 encryption is vulnerable to ''
          @ ''Bleichenbacher attacks; use rsa.DecryptOAEP instead'')
        None,
     Match [''rsa.DecryptPKCS1v15SessionKey($rand, $priv, $ciphertext, $key)'']
        None
        (''rsa.DecryptPKCS1v15SessionKey is deprecated in Go 1.26: PKCS#1 v1.5 encryption is vulnerable to ''
          @ ''Bleichenbacher attacks; use OAEP-based encryption instead'')
        None]"

section \<open>errors.go\<close>

definition ErrorsAsType :: rule where
  "ErrorsAsType = Rule []
    [Match [''errors.As($err, &$target)'']
        None
        (''use errors.AsType[T]($err), where T is $target'' @ [CHR 0x27]
          @ ''s type, instead of errors.As for type-safe, faster error assertion (Go 1.26+)'')
        None]"

section \<open>net.go\<close>

definition JoinHostPort :: rule where
  "JoinHostPort = Rule []
    [Match [''fmt.Sprintf('' @ [CHR 0x22] @ ''%s:%d'' @ [CHR 0x22] @ '', $host, $port)'',
         ''fmt.Sprintf('' @ [CHR 0x22] @ ''%v:%d'' @ [CHR 0x22] @ '', $host, $port)'']
        None
        (''use net.JoinHostPort($host, strconv.Itoa($port)) instead of fmt.Sprintf for host:port (handles ''
          @ ''IPv6 correctly)'')
        None]"

definition FilepathIsLocal :: rule where
  "FilepathIsLocal = Rule []
    [Match [''strings.Contains($path, '' @ [CHR 0x22] @ ''..'' @ [CHR 0x22] @ '')'']
        (Some (WAnd (TextMatches ''path'' ''^[A-Za-z_][A-Za-z0-9_]*$'') (TextMatches ''path'' ''^(path|dir|file)(s|path|name|[A-Z].*)?$|^(.*[a-z0-9_])?(Path|Dir|File)(s|[A-Z].*)?$'')))
        (''consider using filepath.IsLocal($path) for file path validation (Go 1.20+); for URL paths, ''
          @ ''strings.Contains is appropriate'')
        None]"

definition DeprecatedReverseProxyDirector :: rule where
  "DeprecatedReverseProxyDirector = Rule []
    [Match [''httputil.ReverseProxy{$*_, Director: $_, $*_}'']
        None
        (''httputil.ReverseProxy.Director is deprecated in Go 1.20: Director is vulnerable to hop-by-hop ''
          @ ''header abuse; use Rewrite instead for safe header handling'')
        None,
     Match [''$proxy.Director = $_'']
        (Some (WOr (TypeIs ''proxy'' ''*httputil.ReverseProxy'') (TypeIs ''proxy'' ''httputil.ReverseProxy'')))
        (''httputil.ReverseProxy.Director is deprecated in Go 1.20: Director is vulnerable to hop-by-hop ''
          @ ''header abuse; use Rewrite instead for safe header handling'')
        None]"

definition ErrorBeforeUse :: rule where
  "ErrorBeforeUse = Rule []
    [Match [''$f, $err := os.Open($path); $_ := $f.$method($*_); if $err != nil { $*_ }'',
         ''$f, $err := os.Create($path); $_ := $f.$method($*_); if $err != nil { $*_ }'',
         ''$f, $err := os.OpenFile($*_); $_ := $f.$method($*_); if $err != nil { $*_ }'',
         ''$f, $err := os.Open($path); $f.$method($*_); if $err != nil { $*_ }'',
         ''$f, $err := os.Create($path); $f.$method($*_); if $err != nil { $*_ }'',
         ''$f, $err := os.OpenFile($*_); $f.$method($*_); if $err != nil { $*_ }'',
         ''$f, $err := os.Open($path); $_, $_ := $f.$method($*_); if $err != nil { $*_ }'',
         ''$f, $err := os.Create($path); $_, $_ := $f.$method($*_); if $err != nil { $*_ }'',
         ''$f, $err := os.OpenFile($*_); $_, $_ := $f.$method($*_); if $err != nil { $*_ }'',
         ''$f, $err := os.Open($path); defer $f.$method($*_); if $err != nil { $*_ }'',
         ''$f, $err := os.Create($path); defer $f.$method($*_); if $err != nil { $*_ }'',
         ''$f, $err := os.OpenFile($*_); defer $f.$method($*_); if $err != nil { $*_ }'']
        None
        ''potential nil pointer: $f may be nil if $err != nil; check error before using $f.$method()''
        None]"

definition ResponseBodyDrain :: rule where
  "ResponseBodyDrain = Rule []
    [Match [''io.Copy(io.Discard, $resp.Body); $resp.Body.Close(); $*rest'',
         ''io.Copy(io.Discard, $resp.Body); _ = $resp.Body.Close(); $*rest'',
         ''_, _ = io.Copy(io.Discard, $resp.Body); $resp.Body.Close(); $*rest'',
         ''_, _ = io.Copy(io.Discard, $resp.Body); _ = $resp.Body.Close(); $*rest'']
        (Some (WAnd (TypeIs ''resp'' ''*http.Response'') (WNot (Contains ''rest'' ''$resp.Trailer''))))
        (''Go 1.27'' @ [CHR 0x27]
          @ ''s standard HTTP/1 Transport drains an unread response body on Close (up to a conservative ''
          @ ''limit); for a Transport-issued response the io.Copy(io.Discard, $resp.Body) before Close is ''
          @ ''redundant, unless a large unread body is expected or $resp.Trailer is read. A custom ''
          @ ''http.RoundTripper'' @ [CHR 0x27] @ ''s body may not auto-drain, so keep the copy there'')
        None]"

definition URLValuesClone :: rule where
  "URLValuesClone = Rule []
    [Match [''maps.Clone($v)'']
        (Some (TypeIs ''v'' ''url.Values''))
        (''use $v.Clone() instead of maps.Clone($v): maps.Clone shares the []string values, Values.Clone ''
          @ ''is a deep copy (Go 1.27+)'')
        None]"

section \<open>random.go\<close>

definition RandV2Migration :: rule where
  "RandV2Migration = Rule []
    [Match [''rand.Intn($n)'']
        None
        ''consider using math/rand/v2: rand.IntN($n) instead of rand.Intn (Go 1.22+)''
        None,
     Match [''rand.Int31()'']
        None
        ''consider using math/rand/v2: rand.Int32() instead of rand.Int31 (Go 1.22+)''
        None,
     Match [''rand.Int31n($n)'']
        None
        ''consider using math/rand/v2: rand.Int32N($n) instead of rand.Int31n (Go 1.22+)''
        None,
     Match [''rand.Int63()'']
        None
        ''consider using math/rand/v2: rand.Int64() instead of rand.Int63 (Go 1.22+)''
        None,
     Match [''rand.Int63n($n)'']
        None
        ''consider using math/rand/v2: rand.Int64N($n) instead of rand.Int63n (Go 1.22+)''
        None,
     Match [''rand.Seed($seed)'']
        None
        (''rand.Seed is deprecated (Go 1.20+); global rand is auto-seeded; use ''
          @ ''rand.New(rand.NewSource($seed)) for reproducibility'')
        None]"

definition RandMethodN :: rule where
  "RandMethodN = Rule [''math/rand/v2'']
    [Match [''$T($r.Int64N(int64($n)))'',
         ''$T($r.Int32N(int32($n)))'',
         ''$T($r.IntN(int($n)))'',
         ''$T($r.Uint64N(uint64($n)))'',
         ''$T($r.Uint32N(uint32($n)))'',
         ''$T($r.UintN(uint($n)))'']
        (Some (WAnd (TypeIs ''r'' ''*rand.Rand'') (TypeIdentical ''T'' ''n'')))
        (''use $r.N($n) instead of converting through a fixed-width bounded method; Rand.N infers the ''
          @ ''integer type from $n (Go 1.27+); not a drop-in if the inner conversion truncated $n'')
        None]"

section \<open>reflect.go\<close>

definition ReflectTypeAssert :: rule where
  "ReflectTypeAssert = Rule []
    [Match [''$v.Interface().($typ)'']
        (Some (TypeIs ''v'' ''reflect.Value''))
        ''use reflect.TypeAssert[$typ]($v) instead of $v.Interface().($typ) to avoid allocation (Go 1.25+)''
        None]"

definition DeprecatedReflectPtrTo :: rule where
  "DeprecatedReflectPtrTo = Rule []
    [Match [''reflect.PtrTo($t)'']
        None
        ''reflect.PtrTo is deprecated in Go 1.22; use reflect.PointerTo($t) instead''
        (Some ''reflect.PointerTo($t)'')]"

definition ReflectFieldsIterator :: rule where
  "ReflectFieldsIterator = Rule []
    [Match [''for $i := 0; $i < $t.NumField(); $i++ { $*_ }'']
        (Some (TypeIs ''t'' ''reflect.Type''))
        (''use range $t.Fields() instead of index-based field iteration (Go 1.26+); if the loop index is ''
          @ ''also used for reflect.Value field access, range over the Value instead'')
        None,
     Match [''for $i := 0; $i < $v.NumField(); $i++ { $*_ }'']
        (Some (TypeIs ''v'' ''reflect.Value''))
        ''use range $v.Fields() instead of index-based field iteration (Go 1.26+)''
        None,
     Match [''for $i := range $t.NumField() { $*_ }'']
        (Some (TypeIs ''t'' ''reflect.Type''))
        (''use range $t.Fields() instead of range $t.NumField() (Go 1.26+); if the loop index is also used ''
          @ ''for reflect.Value field access, range over the Value instead'')
        None,
     Match [''for $i := range $v.NumField() { $*_ }'']
        (Some (TypeIs ''v'' ''reflect.Value''))
        ''use range $v.Fields() instead of range $v.NumField() (Go 1.26+)''
        None]"

definition ReflectMethodsIterator :: rule where
  "ReflectMethodsIterator = Rule []
    [Match [''for $i := 0; $i < $t.NumMethod(); $i++ { $*_ }'']
        (Some (TypeIs ''t'' ''reflect.Type''))
        ''use range $t.Methods() instead of index-based method iteration (Go 1.26+)''
        None,
     Match [''for $i := 0; $i < $v.NumMethod(); $i++ { $*_ }'']
        (Some (TypeIs ''v'' ''reflect.Value''))
        ''use range $v.Methods() instead of index-based method iteration (Go 1.26+)''
        None,
     Match [''for $i := range $t.NumMethod() { $*_ }'']
        (Some (TypeIs ''t'' ''reflect.Type''))
        ''use range $t.Methods() instead of range $t.NumMethod() (Go 1.26+)''
        None,
     Match [''for $i := range $v.NumMethod() { $*_ }'']
        (Some (TypeIs ''v'' ''reflect.Value''))
        ''use range $v.Methods() instead of range $v.NumMethod() (Go 1.26+)''
        None]"

section \<open>runtime.go\<close>

definition PreferAddCleanup :: rule where
  "PreferAddCleanup = Rule []
    [Match [''runtime.SetFinalizer($obj, $fn)'']
        None
        (''consider using runtime.AddCleanup instead of runtime.SetFinalizer (Go 1.24+): AddCleanup allows ''
          @ ''multiple cleanups, avoids cycle leaks, and doesn'' @ [CHR 0x27] @ ''t delay object freeing'')
        None]"

section \<open>secrets.go\<close>

definition PasskeyRendering :: rule where
  "PasskeyRendering = Rule [''github.com/tphakala/et-go/internal/protocol'', ''google.golang.org/protobuf/encoding/prototext'', ''google.golang.org/protobuf/encoding/protojson'']
    [Match [''$x.String()'']
        (Some (WOr (TypeIs ''x'' ''*protocol.TerminalUserInfo'') (TypeIs ''x'' ''protocol.TerminalUserInfo'')))
        (''TerminalUserInfo.String prints the session passkey; format the message with fmt or slog, which ''
          @ ''redact it'')
        None,
     Match [''prototext.Format($x)'',
         ''prototext.Marshal($x)'',
         ''protojson.Format($x)'',
         ''protojson.Marshal($x)'']
        (Some (WOr (TypeIs ''x'' ''*protocol.TerminalUserInfo'') (TypeIs ''x'' ''protocol.TerminalUserInfo'')))
        (''prototext and protojson print the TerminalUserInfo session passkey; format the message with fmt ''
          @ ''or slog, which redact it'')
        None,
     Match [''$opts.Format($x)'',
         ''$opts.Marshal($x)'',
         ''$opts.MarshalAppend($_, $x)'']
        (Some (WAnd (WOr (TypeIs ''x'' ''*protocol.TerminalUserInfo'') (TypeIs ''x'' ''protocol.TerminalUserInfo'')) (WOr (WOr (WOr (TypeIs ''opts'' ''prototext.MarshalOptions'') (TypeIs ''opts'' ''*prototext.MarshalOptions'')) (TypeIs ''opts'' ''protojson.MarshalOptions'')) (TypeIs ''opts'' ''*protojson.MarshalOptions''))))
        (''prototext and protojson print the TerminalUserInfo session passkey; format the message with fmt ''
          @ ''or slog, which redact it'')
        None]"

section \<open>slices.go\<close>

definition SortToSlices :: rule where
  "SortToSlices = Rule []
    [Match [''sort.Ints($s)'']
        None
        ''use slices.Sort($s) instead of sort.Ints (Go 1.21+)''
        (Some ''slices.Sort($s)''),
     Match [''sort.Strings($s)'']
        None
        ''use slices.Sort($s) instead of sort.Strings (Go 1.21+)''
        (Some ''slices.Sort($s)''),
     Match [''sort.Float64s($s)'']
        None
        ''use slices.Sort($s) instead of sort.Float64s (Go 1.21+)''
        (Some ''slices.Sort($s)''),
     Match [''sort.IntsAreSorted($s)'']
        None
        ''use slices.IsSorted($s) instead of sort.IntsAreSorted (Go 1.21+)''
        (Some ''slices.IsSorted($s)''),
     Match [''sort.StringsAreSorted($s)'']
        None
        ''use slices.IsSorted($s) instead of sort.StringsAreSorted (Go 1.21+)''
        (Some ''slices.IsSorted($s)''),
     Match [''sort.Float64sAreSorted($s)'']
        None
        ''use slices.IsSorted($s) instead of sort.Float64sAreSorted (Go 1.21+)''
        (Some ''slices.IsSorted($s)'')]"

definition BytesClone :: rule where
  "BytesClone = Rule []
    [Match [''append([]byte(nil), $b...)'']
        None
        ''use bytes.Clone($b) instead of append([]byte(nil), $b...) (Go 1.20+)''
        None,
     Match [''append([]byte{}, $b...)'']
        None
        ''use bytes.Clone($b) instead of append([]byte{}, $b...) (Go 1.20+)''
        None,
     Match [''append($b[:0:0], $b...)'']
        (Some (TypeIs ''b'' ''[]byte''))
        ''use bytes.Clone($b) instead of append($b[:0:0], $b...) (Go 1.20+)''
        None]"

definition SlicesClone :: rule where
  "SlicesClone = Rule []
    [Match [''append([]$typ(nil), $s...)'']
        (Some (WNot (TextIs ''typ'' ''byte'')))
        ''use slices.Clone($s) instead of append([]$typ(nil), $s...) (Go 1.21+)''
        None,
     Match [''append([]$typ{}, $s...)'']
        (Some (WNot (TextIs ''typ'' ''byte'')))
        ''use slices.Clone($s) instead of append([]$typ{}, $s...) (Go 1.21+)''
        None,
     Match [''append($s[:0:0], $s...)'']
        (Some (WNot (TypeIs ''s'' ''[]byte'')))
        ''use slices.Clone($s) instead of append($s[:0:0], $s...) (Go 1.21+)''
        None]"

definition BackwardIteration :: rule where
  "BackwardIteration = Rule []
    [Match [''for $i := len($s) - 1; $i > -1; $i-- { $*body }'']
        (Some (UnderlyingIs ''s'' ''[]$elem''))
        ''use slices.Backward($s) for reverse iteration (Go 1.23+)''
        None]"

definition MapKeysCollection :: rule where
  "MapKeysCollection = Rule []
    [Match [''for $k := range $m { $keys = append($keys, $k) }'']
        (Some (TypeIs ''m'' ''map[$k]$v''))
        ''use slices.Collect(maps.Keys($m)) to collect map keys (Go 1.23+)''
        None,
     Match [''for $k, _ := range $m { $keys = append($keys, $k) }'']
        (Some (TypeIs ''m'' ''map[$k]$v''))
        ''use slices.Collect(maps.Keys($m)) to collect map keys (Go 1.23+)''
        None]"

definition MapValuesCollection :: rule where
  "MapValuesCollection = Rule []
    [Match [''for _, $v := range $m { $values = append($values, $v) }'']
        (Some (TypeIs ''m'' ''map[$k]$v''))
        ''use slices.Collect(maps.Values($m)) to collect map values (Go 1.23+)''
        None]"

definition SliceRepeat :: rule where
  "SliceRepeat = Rule []
    [Match [''for $i := 0; $i < $n; $i++ { $result = append($result, $s...) }'']
        None
        (''use slices.Repeat($s, $n) instead of manual repetition loop (Go 1.23+); false positive if $s ''
          @ ''depends on the loop variable'')
        None,
     Match [''for $i := range $n { $result = append($result, $s...) }'']
        (Some (TypeIs ''n'' ''int''))
        (''use slices.Repeat($s, $n) instead of manual repetition loop (Go 1.23+); false positive if $s ''
          @ ''depends on the loop variable'')
        None,
     Match [''for range $n { $result = append($result, $s...) }'']
        (Some (TypeIs ''n'' ''int''))
        ''use slices.Repeat($s, $n) instead of manual repetition loop (Go 1.23+)''
        None]"

section \<open>strings.go\<close>

definition LinesIteration :: rule where
  "LinesIteration = Rule []
    [Match [''for $_, $line := range strings.Split($s, '' @ [CHR 0x22, CHR 0x5C] @ ''n'' @ [CHR 0x22]
          @ '') { $*body }'']
        None
        (''use for $line := range strings.Lines($s) instead of ranging over strings.Split($s, ''
          @ [CHR 0x22, CHR 0x5C] @ ''n'' @ [CHR 0x22]
          @ '') (Go 1.24+); not value-equivalent: Lines keeps the trailing newline on each line, Split strips it'')
        None,
     Match [''for $_, $line := range strings.Split($s, '' @ [CHR 0x22, CHR 0x5C] @ ''r'' @ [CHR 0x5C] @ ''n''
          @ [CHR 0x22] @ '') { $*body }'']
        None
        (''use for $line := range strings.Lines($s) instead of ranging over strings.Split($s, ''
          @ [CHR 0x22, CHR 0x5C] @ ''r'' @ [CHR 0x5C] @ ''n'' @ [CHR 0x22]
          @ '') (Go 1.24+); not value-equivalent: Lines keeps the line terminator, Split strips it'')
        None,
     Match [''for $_, $line := range bytes.Split($s, []byte('' @ [CHR 0x22, CHR 0x5C] @ ''n'' @ [CHR 0x22]
          @ '')) { $*body }'']
        None
        (''use for $line := range bytes.Lines($s) instead of ranging over bytes.Split($s, []byte(''
          @ [CHR 0x22, CHR 0x5C] @ ''n'' @ [CHR 0x22]
          @ '')) (Go 1.24+); not value-equivalent: Lines keeps the trailing newline, Split strips it'')
        None,
     Match [''for $_, $line := range bytes.Split($s, []byte('' @ [CHR 0x22, CHR 0x5C] @ ''r'' @ [CHR 0x5C]
          @ ''n'' @ [CHR 0x22] @ '')) { $*body }'']
        None
        (''use for $line := range bytes.Lines($s) instead of ranging over bytes.Split($s, []byte(''
          @ [CHR 0x22, CHR 0x5C] @ ''r'' @ [CHR 0x5C] @ ''n'' @ [CHR 0x22]
          @ '')) (Go 1.24+); not value-equivalent: Lines keeps the line terminator, Split strips it'')
        None,
     Match [''for $_, $line := range bytes.Split($s, []byte{'' @ [CHR 0x27, CHR 0x5C] @ ''n'' @ [CHR 0x27]
          @ ''}) { $*body }'']
        None
        (''use for $line := range bytes.Lines($s) instead of ranging over bytes.Split (Go 1.24+); not ''
          @ ''value-equivalent: Lines keeps the trailing newline, Split strips it'')
        None]"

definition FieldsFuncIteration :: rule where
  "FieldsFuncIteration = Rule []
    [Match [''for $_, $field := range strings.FieldsFunc($s, $f) { $*body }'']
        None
        (''use for $field := range strings.FieldsFuncSeq($s, $f) to avoid intermediate slice allocation ''
          @ ''(Go 1.24+)'')
        None,
     Match [''for $_, $field := range bytes.FieldsFunc($s, $f) { $*body }'']
        None
        (''use for $field := range bytes.FieldsFuncSeq($s, $f) to avoid intermediate slice allocation (Go ''
          @ ''1.24+)'')
        None]"

definition CutLast :: rule where
  "CutLast = Rule []
    [Match [''$s[:strings.LastIndex($s, $sep)]'']
        None
        (''use before, _, found := strings.CutLast($s, $sep) instead of slicing before strings.LastIndex ''
          @ ''(Go 1.27+); when $sep is absent this slice panics (index -1) whereas CutLast returns (s, ''
          @ [CHR 0x22, CHR 0x22] @ '', false), so check found'')
        None,
     Match [''$s[strings.LastIndex($s, $sep)+len($sep):]'']
        None
        (''use _, after, found := strings.CutLast($s, $sep) instead of slicing after strings.LastIndex (Go ''
          @ ''1.27+); the not-found case differs (LastIndex is -1 when $sep is absent), so check found'')
        None,
     Match [''$s[:bytes.LastIndex($s, $sep)]'']
        None
        (''use before, _, found := bytes.CutLast($s, $sep) instead of slicing before bytes.LastIndex (Go ''
          @ ''1.27+); when $sep is absent this slice panics (index -1) whereas bytes.CutLast returns (s, nil, ''
          @ ''false), so check found'')
        None,
     Match [''$s[bytes.LastIndex($s, $sep)+len($sep):]'']
        None
        (''use _, after, found := bytes.CutLast($s, $sep) instead of slicing after bytes.LastIndex (Go ''
          @ ''1.27+); the not-found case differs (LastIndex is -1 when $sep is absent), so check found'')
        None,
     Match [''$s[strings.LastIndex($s, $sep)+1:]'']
        (Some (TextMatches ''sep'' (''^'' @ [CHR 0x22] @ ''('' @ [CHR 0x5C, CHR 0x5C] @ ''.|['' @ [CHR 0x5C] @ ''x00-'' @ [CHR 0x5C]
          @ ''x21'' @ [CHR 0x5C] @ ''x23-'' @ [CHR 0x5C] @ ''x5b'' @ [CHR 0x5C] @ ''x5d-'' @ [CHR 0x5C]
          @ ''x7f])'' @ [CHR 0x22] @ ''$'')))
        (''use before, after, found := strings.CutLast($s, $sep) instead of slicing around ''
          @ ''strings.LastIndex (Go 1.27+); when $sep is absent the slicing idiom yields all of $s but ''
          @ ''CutLast yields after == '' @ [CHR 0x22, CHR 0x22] @ '', so check found'')
        None,
     Match [''$s[bytes.LastIndex($s, $sep)+1:]'']
        (Some (WOr (TextMatches ''sep'' (''^'' @ [CHR 0x5C] @ ''['' @ [CHR 0x5C] @ '']byte'' @ [CHR 0x5C] @ ''('' @ [CHR 0x22] @ ''(''
          @ [CHR 0x5C, CHR 0x5C] @ ''.|['' @ [CHR 0x5C] @ ''x00-'' @ [CHR 0x5C] @ ''x21'' @ [CHR 0x5C]
          @ ''x23-'' @ [CHR 0x5C] @ ''x5b'' @ [CHR 0x5C] @ ''x5d-'' @ [CHR 0x5C] @ ''x7f])''
          @ [CHR 0x22, CHR 0x5C] @ '')$'')) (TextMatches ''sep'' (''^'' @ [CHR 0x5C] @ ''['' @ [CHR 0x5C] @ '']byte'' @ [CHR 0x5C] @ ''{'' @ [CHR 0x27] @ ''(''
          @ [CHR 0x5C, CHR 0x5C] @ ''.|['' @ [CHR 0x5C] @ ''x00-'' @ [CHR 0x5C] @ ''x26'' @ [CHR 0x5C]
          @ ''x28-'' @ [CHR 0x5C] @ ''x5b'' @ [CHR 0x5C] @ ''x5d-'' @ [CHR 0x5C] @ ''x7f])''
          @ [CHR 0x27, CHR 0x5C] @ ''}$''))))
        (''use before, after, found := bytes.CutLast($s, $sep) instead of slicing around bytes.LastIndex ''
          @ ''(Go 1.27+); when $sep is absent the slicing idiom yields all of $s but CutLast yields after == ''
          @ ''nil, so check found'')
        None,
     Match [''if $i := strings.LastIndex($s, $sep); $i >= 0 { $*body }'',
         ''if $i := strings.LastIndex($s, $sep); $i != -1 { $*body }'',
         ''$i := strings.LastIndex($s, $sep); if $i < 0 { $*_ }; $*body'',
         ''$i := strings.LastIndex($s, $sep); if $i == -1 { $*_ }; $*body'']
        (Some (WOr (WOr (Contains ''body'' ''$s[:$i]'') (Contains ''body'' ''$s[$i:]'')) (Contains ''body'' ''$s[$i+$_:]'')))
        (''use before, after, found := strings.CutLast($s, $sep) instead of checking strings.LastIndex and ''
          @ ''slicing by hand (Go 1.27+)'')
        None,
     Match [''if $i := bytes.LastIndex($s, $sep); $i >= 0 { $*body }'',
         ''if $i := bytes.LastIndex($s, $sep); $i != -1 { $*body }'',
         ''$i := bytes.LastIndex($s, $sep); if $i < 0 { $*_ }; $*body'',
         ''$i := bytes.LastIndex($s, $sep); if $i == -1 { $*_ }; $*body'']
        (Some (WOr (WOr (Contains ''body'' ''$s[:$i]'') (Contains ''body'' ''$s[$i:]'')) (Contains ''body'' ''$s[$i+$_:]'')))
        (''use before, after, found := bytes.CutLast($s, $sep) instead of checking bytes.LastIndex and ''
          @ ''slicing by hand (Go 1.27+)'')
        None]"

section \<open>sync.go\<close>

definition WaitGroupGo :: rule where
  "WaitGroupGo = Rule []
    [Match [''$wg.Add(1); go func($param $typ) { defer $param.Done(); $*body }($wg)'',
         ''$wg.Add(1); go func($param $typ) { defer $param.Done(); $*body }(&$wg)'']
        (Some (WOr (TypeIs ''wg'' ''*sync.WaitGroup'') (TypeIs ''wg'' ''sync.WaitGroup'')))
        ''use $wg.Go(func() { ... }) instead of manual Add/Done pattern (Go 1.25+)''
        None]"

section \<open>testing.go\<close>

definition BenchmarkLoop :: rule where
  "BenchmarkLoop = Rule []
    [Match [''for $i := 0; $i < $b.N; $i++ { $*body }'']
        (Some (TypeIs ''b'' ''*testing.B''))
        (''use for $b.Loop() { ... } instead of for $i := 0; $i < $b.N; $i++ (Go 1.24+); if using $i in ''
          @ ''body, declare it separately'')
        None,
     Match [''for $i := range $b.N { $*body }'']
        (Some (TypeIs ''b'' ''*testing.B''))
        (''use for $b.Loop() { ... } instead of for $i := range $b.N (Go 1.24+); if using $i in body, ''
          @ ''declare it separately'')
        None,
     Match [''for range $b.N { $*body }'']
        (Some (TypeIs ''b'' ''*testing.B''))
        ''use for $b.Loop() { ... } instead of for range $b.N (Go 1.24+)''
        (Some ''for $b.Loop() { $body }'')]"

definition TestingArtifactDir :: rule where
  "TestingArtifactDir = Rule []
    [Match [''os.MkdirTemp($dir, $pattern)'']
        (Some (FileNameMatches (''_test'' @ [CHR 0x5C] @ ''.go$'')))
        (''in tests, consider t.ArtifactDir() for test output files instead of os.MkdirTemp (Go 1.26+); ''
          @ ''use t.TempDir() for scratch space that should be cleaned up'')
        None]"

definition SynctestSleep :: rule where
  "SynctestSleep = Rule []
    [Match [''time.Sleep($d); synctest.Wait()'']
        None
        ''use synctest.Sleep($d) instead of time.Sleep($d) followed by synctest.Wait() (Go 1.27+)''
        None]"

definition HttptestNewTestServer :: rule where
  "HttptestNewTestServer = Rule []
    [Match [''synctest.Test($_, func($*_) { $*body })'']
        (Some (Contains ''body'' ''httptest.NewServer($_)''))
        (''this synctest bubble starts an httptest.NewServer on a real listener; pass the enclosing test''
          @ [CHR 0x27]
          @ ''s *testing.T to httptest.NewTestServer (with the handler) instead, which serves over an ''
          @ ''in-memory network that stays inside the bubble, reachable only through srv.Client() (Go 1.27+)'')
        None]"

section \<open>time.go\<close>

definition TimeDateTimeConstants :: rule where
  "TimeDateTimeConstants = Rule []
    [Match [''$t.Format('' @ [CHR 0x22] @ ''2006-01-02 15:04:05'' @ [CHR 0x22] @ '')'']
        (Some (WOr (TypeIs ''t'' ''time.Time'') (TypeIs ''t'' ''*time.Time'')))
        ''use $t.Format(time.DateTime) instead of magic format string (Go 1.20+)''
        (Some ''$t.Format(time.DateTime)''),
     Match [''time.Parse('' @ [CHR 0x22] @ ''2006-01-02 15:04:05'' @ [CHR 0x22] @ '', $s)'']
        None
        ''use time.Parse(time.DateTime, $s) instead of magic format string (Go 1.20+)''
        (Some ''time.Parse(time.DateTime, $s)''),
     Match [''$t.Format('' @ [CHR 0x22] @ ''2006-01-02'' @ [CHR 0x22] @ '')'']
        (Some (WOr (TypeIs ''t'' ''time.Time'') (TypeIs ''t'' ''*time.Time'')))
        ''use $t.Format(time.DateOnly) instead of magic format string (Go 1.20+)''
        (Some ''$t.Format(time.DateOnly)''),
     Match [''time.Parse('' @ [CHR 0x22] @ ''2006-01-02'' @ [CHR 0x22] @ '', $s)'']
        None
        ''use time.Parse(time.DateOnly, $s) instead of magic format string (Go 1.20+)''
        (Some ''time.Parse(time.DateOnly, $s)''),
     Match [''$t.Format('' @ [CHR 0x22] @ ''15:04:05'' @ [CHR 0x22] @ '')'']
        (Some (WOr (TypeIs ''t'' ''time.Time'') (TypeIs ''t'' ''*time.Time'')))
        ''use $t.Format(time.TimeOnly) instead of magic format string (Go 1.20+)''
        (Some ''$t.Format(time.TimeOnly)''),
     Match [''time.Parse('' @ [CHR 0x22] @ ''15:04:05'' @ [CHR 0x22] @ '', $s)'']
        None
        ''use time.Parse(time.TimeOnly, $s) instead of magic format string (Go 1.20+)''
        (Some ''time.Parse(time.TimeOnly, $s)'')]"

definition TimerChannelLen :: rule where
  "TimerChannelLen = Rule []
    [Match [''len($timer.C)'']
        (Some (TypeIs ''timer'' ''*time.Timer''))
        (''len() on timer channel is always 0 in Go 1.23+ (channels are now unbuffered); use non-blocking ''
          @ ''select instead'')
        None,
     Match [''len($ticker.C)'']
        (Some (TypeIs ''ticker'' ''*time.Ticker''))
        (''len() on ticker channel is always 0 in Go 1.23+ (channels are now unbuffered); use non-blocking ''
          @ ''select instead'')
        None,
     Match [''cap($timer.C)'']
        (Some (TypeIs ''timer'' ''*time.Timer''))
        ''cap() on timer channel is always 0 in Go 1.23+ (channels are now unbuffered)''
        None,
     Match [''cap($ticker.C)'']
        (Some (TypeIs ''ticker'' ''*time.Ticker''))
        ''cap() on ticker channel is always 0 in Go 1.23+ (channels are now unbuffered)''
        None]"

definition DeferredTimeNow :: rule where
  "DeferredTimeNow = Rule []
    [Match [''defer $fn($*_, time.Now(), $*_)'']
        None
        ''time.Now() is evaluated at defer time, not function exit; wrap in func() if you want exit time''
        None]"

section \<open>uuid.go\<close>

definition StdlibUUID :: rule where
  "StdlibUUID = Rule []
    [Match [''uuid.New()'',
         ''uuid.NewString()'',
         ''uuid.NewRandom()'',
         ''uuid.NewV7()'',
         ''uuid.Parse($s)'',
         ''uuid.MustParse($s)'',
         ''uuid.Nil'',
         ''uuid.Max'']
        (Some (FileImports ''github.com/google/uuid''))
        (''the standard library uuid package (Go 1.27+) covers New/NewV4/NewV7/Parse/MustParse/Nil/Max; ''
          @ ''consider dropping github.com/google/uuid (its NewRandom/NewV7 lose the error return, and ''
          @ ''Nil/Max become functions)'')
        None]"

section \<open>All rules\<close>

definition rules_builtins :: "rule list" where
  "rules_builtins = [MinMaxBuiltin, ClearBuiltin, NewWithExpression]"

definition rules_crypto :: "rule list" where
  "rules_crypto = [DeprecatedCipherModes, WeakRSAKeySize, DeprecatedElliptic, DeprecatedRSAMultiPrime, DeprecatedPKCS1v15]"

definition rules_errors :: "rule list" where
  "rules_errors = [ErrorsAsType]"

definition rules_net :: "rule list" where
  "rules_net = [JoinHostPort, FilepathIsLocal, DeprecatedReverseProxyDirector, ErrorBeforeUse, ResponseBodyDrain, URLValuesClone]"

definition rules_random :: "rule list" where
  "rules_random = [RandV2Migration, RandMethodN]"

definition rules_reflect :: "rule list" where
  "rules_reflect = [ReflectTypeAssert, DeprecatedReflectPtrTo, ReflectFieldsIterator, ReflectMethodsIterator]"

definition rules_runtime :: "rule list" where
  "rules_runtime = [PreferAddCleanup]"

definition rules_secrets :: "rule list" where
  "rules_secrets = [PasskeyRendering]"

definition rules_slices :: "rule list" where
  "rules_slices = [SortToSlices, BytesClone, SlicesClone, BackwardIteration, MapKeysCollection, MapValuesCollection, SliceRepeat]"

definition rules_strings :: "rule list" where
  "rules_strings = [LinesIteration, FieldsFuncIteration, CutLast]"

definition rules_sync :: "rule list" where
  "rules_sync = [WaitGroupGo]"

definition rules_testing :: "rule list" where
  "rules_testing = [BenchmarkLoop, TestingArtifactDir, SynctestSleep, HttptestNewTestServer]"

definition rules_time :: "rule list" where
  "rules_time = [TimeDateTimeConstants, TimerChannelLen, DeferredTimeNow]"

definition rules_uuid :: "rule list" where
  "rules_uuid = [StdlibUUID]"

definition gorules :: "rule list" where
  "gorules = rules_builtins @ rules_crypto @ rules_errors @ rules_net @ rules_random @ rules_reflect @ rules_runtime @ rules_secrets @ rules_slices @ rules_strings @ rules_sync @ rules_testing @ rules_time @ rules_uuid"

section \<open>Every rule is well formed\<close>

lemma rules_builtins_ok: "list_all rule_ok rules_builtins"
  by code_simp

lemma rules_crypto_ok: "list_all rule_ok rules_crypto"
  by code_simp

lemma rules_errors_ok: "list_all rule_ok rules_errors"
  by code_simp

lemma rules_net_ok: "list_all rule_ok rules_net"
  by code_simp

lemma rules_random_ok: "list_all rule_ok rules_random"
  by code_simp

lemma rules_reflect_ok: "list_all rule_ok rules_reflect"
  by code_simp

lemma rules_runtime_ok: "list_all rule_ok rules_runtime"
  by code_simp

lemma rules_secrets_ok: "list_all rule_ok rules_secrets"
  by code_simp

lemma rules_slices_ok: "list_all rule_ok rules_slices"
  by code_simp

lemma rules_strings_ok: "list_all rule_ok rules_strings"
  by code_simp

lemma rules_sync_ok: "list_all rule_ok rules_sync"
  by code_simp

lemma rules_testing_ok: "list_all rule_ok rules_testing"
  by code_simp

lemma rules_time_ok: "list_all rule_ok rules_time"
  by code_simp

lemma rules_uuid_ok: "list_all rule_ok rules_uuid"
  by code_simp

lemmas rules_ok = rules_builtins_ok rules_crypto_ok rules_errors_ok rules_net_ok rules_random_ok rules_reflect_ok rules_runtime_ok rules_secrets_ok rules_slices_ok rules_strings_ok rules_sync_ok rules_testing_ok rules_time_ok rules_uuid_ok

lemma gorules_ok: "list_all rule_ok gorules"
  using rules_ok by (simp add: gorules_def)

text \<open>A template whose variables all have a text renders, and the rendering holds each of those texts.\<close>

lemma render_total: "\<forall>v \<in> set (piece_vars ps). b v \<noteq> None \<Longrightarrow> \<exists>t. render b ps = Some t"
  by (induction b ps rule: render.induct) auto

lemma render_holds:
  "render b ps = Some t \<Longrightarrow> v \<in> set (piece_vars ps) \<Longrightarrow> b v = Some x \<Longrightarrow> \<exists>xs ys. t = xs @ x @ ys"
proof (induction b ps arbitrary: t rule: render.induct)
  case (2 b c ps)
  then obtain t' where t': "render b ps = Some t'" "t = c # t'" by auto
  with 2 obtain xs ys where "t' = xs @ x @ ys" by fastforce
  with t' have "t = (c # xs) @ x @ ys" by simp
  then show ?case by blast
next
  case (3 b w ps)
  then obtain y t' where y: "b w = Some y" "render b ps = Some t'" "t = y @ t'"
    by (auto split: option.splits)
  show ?case
  proof (cases "v = w")
    case True
    with y "3.prems"(3) have "t = [] @ x @ t'" by simp
    then show ?thesis by blast
  next
    case False
    with 3 y obtain xs ys where "t' = xs @ x @ ys" by fastforce
    with y have "t = (y @ xs) @ x @ ys" by simp
    then show ?thesis by blast
  qed
qed auto



end
