(* ===== verification/Spec2Isabelle.thy ===== *)
theory Spec2Isabelle
  imports ET_Client ET_Run ET_Main ET_Rules
begin

text \<open>
  A verification development for et-go, a client for the Eternal Terminal protocol (Go sources under
  \<^verbatim>\<open>src/\<close>).

  \<^bold>\<open>The program.\<close> The command \<^verbatim>\<open>et\<close> (\<^verbatim>\<open>cmd/et\<close>) parses its command line, opens the local console
  (\<^verbatim>\<open>internal/console\<close>), starts etterminal on the server through ssh and reads the session id and
  passkey it prints (\<^verbatim>\<open>internal/bootstrap\<close>), and connects to etserver (\<^verbatim>\<open>internal/etcp\<close>). The
  connection carries packets (\<^verbatim>\<open>internal/protocol\<close>) sealed with a counter nonce (\<^verbatim>\<open>internal/seal\<close>) in
  length-prefixed frames (\<^verbatim>\<open>internal/wire\<close>) and outlives its TCP links: sent packets stay in a replay
  ring, and after a reconnect both ends exchange their receive counts and resend what the other lacks.
  \<^verbatim>\<open>internal/session\<close> runs the terminal over it: output to the console, keyboard input and window sizes
  to the server, the local escape. \<^verbatim>\<open>internal/etservertest\<close> is an in-process server and a network with
  fault injection, the other end of every whole-system statement here.

  \<^bold>\<open>The theories\<close>, in the order of their imports:

  \<^item> ET_Prelude: bytes, errors (\<^verbatim>\<open>errors.Is\<close>, \<^verbatim>\<open>errors.AsType\<close>), readers and writers, byte order and
    integer conversions, decimal numbers; the locales \<open>codec\<close> (one value off the front of a byte
    stream), \<open>transition_system\<close> (an invariant over the reachable states of a step relation) and
    \<open>simulation\<close> (a detailed system over an abstract one).
  \<^item> ET_Protocol (protocol.go, redact.go, header_string.go, and the messages of the generated code as
    records) and ET_Seal (seal.go): the nonce is a little-endian counter, so no two packets of a session
    share one.
  \<^item> ET_Wire (wire.go, frame.go, message.go, packet.go): frames form a \<open>codec\<close>, so a stream cut anywhere
    yields exactly the frames completely received; messages are read back; a length is refused before
    memory is taken for it.
  \<^item> ET_Ring (ring.go): the replay window behind the locale \<open>replay_log\<close>.
  \<^item> ET_Conn (conn.go, link.go): the state of a \<^verbatim>\<open>Conn\<close> and what its callers and the reader, writer and
    watcher of a link do to it, one function per critical section or loop pass, with the invariant
    \<open>conn_inv\<close> that all of them keep. ET_Reader: the reader's pass cut at its one wait, in \<^verbatim>\<open>handOver\<close>.
  \<^item> ET_Recover (backoff.go, idleconn.go, the recover exchange of recover.go) and ET_Dial (dialer.go,
    \<^verbatim>\<open>reconnect\<close> and \<^verbatim>\<open>supervise\<close>): handshakes, which errors end a session and which are retried.
  \<^item> ET_Server (server.go and network.go of etservertest), ET_Channel (the log of a sealed stream and the
    bytes of a link as part of it) and ET_System: client, server and network as one step relation, any
    interleaving of callers, loop passes, link failures and message-by-message recovery. What each end has
    been given is a prefix of what the other queued, nothing is lost when both ends are idle, a session within the replay
    limit can be resumed, recovery completes, and integrity failures are never false alarms.
  \<^item> ET_Link (\<^verbatim>\<open>runLink\<close> of link.go): the three goroutines of one TCP connection with its context and the
    join, interleaved with the callers, against a peer that may send anything. A lost link never ends the
    session, what the socket takes is the queued packets' frames in order, nothing received is
    lost, and the join is reached within seven steps of the first cause.
  \<^item> ET_Live: the system of ET_System with the goroutines of ET_Link as its client, one link after the
    other. It refines ET_System through the locale \<open>simulation\<close>, so packets arrive exactly once and in
    order and memory is bounded whatever the scheduler does inside \<^verbatim>\<open>runLink\<close>.
  \<^item> ET_Text (utf16.go and the UTF-8 and UTF-16 of the standard library) and ET_Console (console.go,
    console_unix.go, console_windows.go, syscall_windows.go): text survives any cut into
    reads and packets; the locale \<open>restorable\<close>, interpreted for both platforms, gives that the terminal is
    left as it was found.
  \<^item> ET_Session (session.go, run.go, escape.go, router.go, terminal.go): \<^verbatim>\<open>Run\<close> as an interleaving of its
    goroutines. Output is complete when \<^verbatim>\<open>Run\<close> returns, input keeps its order and its bounds, and the
    local escape always works. ET_Run: the set-up of \<^verbatim>\<open>Run\<close>, and that once its context has ended it
    always comes back, with no goroutine left behind.
  \<^item> ET_Client: the session on the connection. The locale \<open>ordered_transport\<close> is the contract of
    \<^verbatim>\<open>session.Transport\<close>, interpreted by the system of ET_Live; end to end, the screen shows a prefix of
    the server's terminal data and the server receives what was typed, in order.
  \<^item> ET_Strings (the \<^verbatim>\<open>strings\<close>, \<^verbatim>\<open>bytes\<close> and \<^verbatim>\<open>unicode\<close> functions used below), ET_Bootstrap (the files of
    \<^verbatim>\<open>internal/bootstrap\<close>): the ssh arguments and the remote command mean what they should to ssh and to
    a shell whatever the configuration holds, the parser accepts exactly the documented output, and a
    failure report shows no key material.
  \<^item> ET_Flags (flags.go, with the \<^verbatim>\<open>flag\<close> package's loop and \<^verbatim>\<open>strconv.ParseInt\<close>) and ET_Cmd (run.go,
    resolve.go, logging.go): what an accepted command line guarantees, and that \<^verbatim>\<open>connect\<close> gives back
    everything it took on every path. ET_Main (main.go, signals and Ctrl+Break per system): the events
    of \<^verbatim>\<open>connect\<close> acting on the consoles of ET_Console; the terminal is back in its first state
    however \<^verbatim>\<open>connect\<close> ends, and Ctrl+Break detaches exactly while a session exists.
  \<^item> ET_Rules (\<^verbatim>\<open>rules/\<close>): the project's lint rules as data; every rule renders its report and its
    replacement in full for whatever it matched, and a replacement drops no captured code.
  \<^item> This theory: what the command line and the bootstrap hand to the connection is always well formed.

  \<^bold>\<open>How code becomes definitions.\<close> A Go function is a function of the same name (with the receiver's
  name where that is ambiguous); a struct is a record; an error is a value of \<open>go_error\<close>, with the
  literal text and the errors it wraps but without formatted values. A method that changes its receiver
  returns the new one. A loop is a recursive function, total without fuel: it is structural on its input,
  or has a measure (\<open>utf8_loop\<close>, \<open>string_runes\<close>, \<open>TrimRightSpace\<close>), or takes the
  outcomes of its calls as a list, as \<open>reconnect\<close> does, so that the list ends where the run is observed.
  The one loop that can only end by the good behaviour of another party, \<open>idleConn_Write_loop\<close>, is a
  \<open>partial_function\<close> whose \<open>None\<close> is not returning, with a proof that it returns on every connection
  that keeps the contract of \<^verbatim>\<open>io.Writer\<close>. Concurrency is interleaving: a critical section
  or a pass from one blocking point to the next is atomic, and a \<^verbatim>\<open>select\<close> takes its case as an
  argument or gives one rule per case. Integers keep their width where the code narrows or wraps them
  (the nonce's bytes, frame lengths, the int32 positions of the recover exchange, UTF-16 code units);
  counters that would need years of traffic to overflow are unbounded.

  \<^bold>\<open>What stands outside.\<close> The protobuf runtime, NaCl secretbox, golang.org/x/term and x/sys, ssh,
  \<^verbatim>\<open>crypto/rand\<close>, the file system, timers and the network are parameters: records of functions or
  outcomes, with what the code relies on as a predicate (\<open>secretbox_laws\<close>, \<open>tty_laws\<close>,
  \<open>wincon_laws\<close>, \<open>rand_laws\<close>, the laws of the codecs), and concrete instances of them in the
  witnesses. The reference readers \<open>ssh_getopt\<close> and \<open>sh_words\<close> of ET_Bootstrap are specifications,
  written from the documented behaviour of getopt and of a POSIX shell.

  \<^bold>\<open>Not modelled.\<close> The descriptors and reflection code of the generated ET.pb.go and ETerminal.pb.go (the
  messages and the accessors the client calls are in ET_Protocol); the linter that reads \<^verbatim>\<open>rules/\<close>, of which
  only the documented use of a rule is assumed; the usage text the flag package prints; the rounding of
  \<^verbatim>\<open>float64\<close> in the redial jitter; wall-clock time beyond the order of timer events; the panics of
  goroutines other than the one that runs \<^verbatim>\<open>connect\<close>, which end the process; data races, which the
  source excludes with its mutexes.
\<close>

section \<open>From the command line to a connection\<close>

text \<open>The credentials \<^verbatim>\<open>Run\<close> returns have the lengths etserver expects.\<close>

lemma parsed_lengths:
  assumes "parseCredentials out = Inr creds"
  shows "length (ID creds) = idLen" and "length (Passkey creds) = passkeyLen"
  using parseCredentials_only [OF assms]
  by (auto simp: printed_def NewCredentials_def Passkey_def)

lemma bootstrap_Run_parsed:
  assumes "fst (bootstrap_Run be cfg) = Inr creds"
  shows "\<exists>out. parseCredentials out = Inr creds"
  using assms
  by (auto simp: bootstrap_Run_def run_outcome_def Let_def case_prod_beta
      split: option.splits sum.splits if_splits)

lemma accepted_keepAlive:
  assumes "parseArgs args = Inr opts" and "\<not> o_version opts"
  shows "second \<le> o_keepAlive opts"
  using assms
  by (auto simp: parseArgs_def version_options_def finish_args_def usage_def second_def Let_def
      split: sum.splits if_splits)


lemma demo_credentials:
  "fst (bootstrap_Run (demo_bootstrap [marker @ replicate 16 (CHR ''a'') @ ''/'' @ replicate 32 (CHR ''k'')])
     demo_config) = Inr (NewCredentials (replicate 16 (CHR ''a'')) (replicate 32 (CHR ''k'')))"
proof -
  let ?out = "marker @ replicate 16 (CHR ''a'') @ ''/'' @ replicate 32 (CHR ''k'')"
  have "printed ?out '''' (replicate 16 (CHR ''a'')) (replicate 32 (CHR ''k'')) ''''"
    by (simp add: printed_def idLen_def passkeyLen_def list_all_iff isAlnum_def marker_def)
  moreover have "take maxOutput ?out = ?out" by (simp add: maxOutput_def marker_def)
  ultimately show ?thesis
    by (simp add: demo_Run run_outcome_def capture_eq parseCredentials_printed) (simp add: demo_bootstrap_def)
qed


end
